(* ===== verification/LewPrelude.thy ===== *)
theory LewPrelude
  imports Main
begin

text \<open>
  What the component theories share: the result type of fallible Go functions, Go's
  truncating integer division, and the list lemmas the proofs of the components use.

  A Go function that returns \<open>(T, error)\<close> returns \<open>'e + 'a\<close> here: \<^const>\<open>Inl\<close> is the
  error (the sentinel that \<open>errors.Is\<close> finds; the message text is not kept), \<^const>\<open>Inr\<close>
  is the value. A slice that may be \<open>nil\<close>, where the code distinguishes \<open>nil\<close> from an
  empty slice, is an \<open>option\<close>.
\<close>

section \<open>Rule collections\<close>

text \<open>Equations between Go integer operations and those of \<^typ>\<open>int\<close>.\<close>

named_theorems go_int_simps

text \<open>Facts that an operation keeps a component's invariant.\<close>

named_theorems inv_intros

section \<open>Fallible results\<close>

definition bind_result :: "'e + 'a \<Rightarrow> ('a \<Rightarrow> 'e + 'b) \<Rightarrow> 'e + 'b" where
  "bind_result r f = (case r of Inl e \<Rightarrow> Inl e | Inr x \<Rightarrow> f x)"

lemma bind_result_simps [simp]:
  "bind_result (Inl e) f = Inl e"
  "bind_result (Inr x) f = f x"
  by (simp_all add: bind_result_def)

lemma bind_result_eq_Inr:
  "bind_result r f = Inr y \<longleftrightarrow> (\<exists>x. r = Inr x \<and> f x = Inr y)"
  by (cases r) auto

lemma bind_result_eq_Inl:
  "bind_result r f = Inl e \<longleftrightarrow> r = Inl e \<or> (\<exists>x. r = Inr x \<and> f x = Inl e)"
  by (cases r) auto

lemma bind_result_InrE [elim!]:
  assumes "bind_result r f = Inr y"
  obtains x where "r = Inr x" and "f x = Inr y"
  using assms by (auto simp: bind_result_eq_Inr)

section \<open>Go integers\<close>

text \<open>
  Go's \<open>/\<close> and \<open>%\<close> truncate towards zero. The models write \<^typ>\<open>int\<close> for Go's \<open>int\<close>
  where the values are sizes, coordinates and offsets; a machine width is written out
  where the code works on \<open>uint32\<close> and \<open>int32\<close> bit patterns.
\<close>

definition go_div :: "int \<Rightarrow> int \<Rightarrow> int" where
  "go_div a b = (if (a < 0) = (b < 0) then \<bar>a\<bar> div \<bar>b\<bar> else - (\<bar>a\<bar> div \<bar>b\<bar>))"

definition go_mod :: "int \<Rightarrow> int \<Rightarrow> int" where
  "go_mod a b = a - b * go_div a b"

lemma go_div_nonneg [go_int_simps]: "0 \<le> a \<Longrightarrow> 0 < b \<Longrightarrow> go_div a b = a div b"
  by (simp add: go_div_def)

lemma go_mod_nonneg [go_int_simps]: "0 \<le> a \<Longrightarrow> 0 < b \<Longrightarrow> go_mod a b = a mod b"
  by (simp add: go_mod_def go_div_nonneg minus_mult_div_eq_mod)

lemma le_div_int_iff:
  fixes a b k :: int
  assumes "0 < b"
  shows "k \<le> a div b \<longleftrightarrow> k * b \<le> a"
proof
  assume "k \<le> a div b"
  then have "k * b \<le> a div b * b" using assms by simp
  also have "\<dots> \<le> a" using assms by (simp add: minus_mod_eq_div_mult [symmetric])
  finally show "k * b \<le> a" .
next
  assume "k * b \<le> a"
  then have "k * b div b \<le> a div b" using assms by (rule zdiv_mono1)
  then show "k \<le> a div b" using assms by simp
qed

lemma go_div_mod: "go_div a b * b + go_mod a b = a"
  by (simp add: go_mod_def)

section \<open>Lists\<close>

lemma foldl_mult_prod_list: "foldl (*) (a :: 'a :: comm_monoid_mult) xs = a * prod_list xs"
  by (induction xs arbitrary: a) (simp_all add: mult.assoc)

lemma prod_list_nonneg:
  "list_all (\<lambda>x. 0 \<le> x) xs \<Longrightarrow> 0 \<le> prod_list (xs :: int list)"
  by (induction xs) auto

lemma prod_list_pos:
  "list_all (\<lambda>x. 0 < x) xs \<Longrightarrow> 0 < prod_list (xs :: int list)"
  by (induction xs) auto

lemma prod_list_update:
  fixes xs :: "int list"
  assumes "i < length xs"
  shows "prod_list (xs[i := y]) = y * prod_list (take i xs @ drop (Suc i) xs)"
  using assms by (simp add: upd_conv_take_nth_drop ac_simps)

lemma list_all_iff_nth: "list_all P xs \<longleftrightarrow> (\<forall>i < length xs. P (xs ! i))"
  by (simp add: list_all_length)

lemma not_list_ex: "\<not> list_ex P xs \<longleftrightarrow> (\<forall>i < length xs. \<not> P (xs ! i))"
  by (auto simp: list_ex_length)

text \<open>A fold that keeps a property of its accumulator.\<close>

lemma fold_inv:
  assumes "P a" and "\<And>x a. x \<in> set xs \<Longrightarrow> P a \<Longrightarrow> P (f x a)"
  shows "P (fold f xs a)"
  using assms by (induction xs arbitrary: a) auto

end
