(* ===== verification/NdShape.thy ===== *)
theory NdShape
  imports LewPrelude
begin

text \<open>
  Tensor shapes, \<open>x/ndarray/shape.go\<close>: the dimension list, its sz, the window
  arithmetic of convolutions and pools, and the inference of a \<open>-1\<close> dimension.
  \<open>Shape\<close> is a slice of \<open>int\<close>; a live shape has no negative dimension.
\<close>

section \<open>The sentinels of \<open>x/ndarray/errors.go\<close>\<close>

datatype nd_error =
    ErrShape | ErrAxis | ErrSize | ErrExpand | ErrPad | ErrShrink | ErrIndex | ErrOp | ErrType

type_synonym 'a nd_result = "nd_error + 'a"

type_synonym shape = "int list"

section \<open>Definitions\<close>

definition Rank :: "shape \<Rightarrow> int" where
  "Rank s = int (length s)"

definition Size :: "shape \<Rightarrow> int" where
  "Size s = foldl (\<lambda>n dim. n * dim) 1 s"

definition With :: "shape \<Rightarrow> int list \<Rightarrow> shape" where
  "With s dims = s @ dims"

definition Equal :: "shape \<Rightarrow> shape \<Rightarrow> bool" where
  "Equal s other \<longleftrightarrow> s = other"

definition HasZero :: "shape \<Rightarrow> bool" where
  "HasZero s \<longleftrightarrow> List.member s 0"

definition WindowLength :: "int \<Rightarrow> int \<Rightarrow> int \<Rightarrow> int \<Rightarrow> int \<Rightarrow> int" where
  "WindowLength n before after ksize stride =
     (let stride = (if stride < 1 then 1 else stride);
          span = n + before + after - ksize
      in if span < 0 then 0 else go_div span stride + 1)"

definition CoverPad :: "int \<Rightarrow> int \<Rightarrow> int \<Rightarrow> int \<Rightarrow> int \<Rightarrow> int \<Rightarrow> int \<times> int" where
  "CoverPad n ksize stride out before after =
     (let stride = (if stride \<le> 0 then 1 else stride);
          need = ksize - 1 + out * stride;
          len = n + before + after
      in (before, if need > len then after + (need - len) else after))"

text \<open>
  The loop of \<open>Infer\<close>: \<open>i\<close> is the index of the head, \<open>hole\<close> the index of the first \<open>-1\<close>
  seen (\<open>-1\<close> for none), \<open>n\<close> the product of the other dimensions.
\<close>

fun infer_loop :: "int list \<Rightarrow> nat \<Rightarrow> nat option \<Rightarrow> int \<Rightarrow> (nat option \<times> int) nd_result" where
  "infer_loop [] i hole n = Inr (hole, n)"
| "infer_loop (dim # dims) i hole n =
     (if dim = -1
      then (if hole \<noteq> None then Inl ErrShape else infer_loop dims (Suc i) (Some i) n)
      else if dim < 0 then Inl ErrShape
      else infer_loop dims (Suc i) hole (n * dim))"

definition Infer :: "shape \<Rightarrow> int \<Rightarrow> shape nd_result" where
  "Infer s sz =
     (case infer_loop s 0 None 1 of
        Inl e \<Rightarrow> Inl e
      | Inr (Some hole, n) \<Rightarrow>
          (if n = 0
           then (if sz \<noteq> 0 then Inl ErrSize else Inr (s[hole := 0]))
           else if go_mod sz n \<noteq> 0 then Inl ErrSize
           else Inr (s[hole := go_div sz n]))
      | Inr (None, n) \<Rightarrow> (if n \<noteq> sz then Inl ErrSize else Inr s))"

definition shape_check :: "shape \<Rightarrow> unit nd_result" where
  "shape_check s = (if list_ex (\<lambda>dim. dim < 0) s then Inl ErrShape else Inr ())"

text \<open>A live shape: what \<open>check\<close> accepts.\<close>

definition live :: "shape \<Rightarrow> bool" where
  "live s \<longleftrightarrow> list_all (\<lambda>d. 0 \<le> d) s"

section \<open>Sizes\<close>

lemma Size_prod [simp]: "Size s = prod_list s"
  using foldl_mult_prod_list [of 1 s] by (simp add: Size_def)

lemma HasZero_iff [simp]: "HasZero s \<longleftrightarrow> 0 \<in> set s"
  by (simp add: HasZero_def)

lemma shape_check_ok [simp]: "shape_check s = Inr u \<longleftrightarrow> live s"
  by (auto simp: shape_check_def live_def list_all_iff list_ex_iff not_less not_le)

lemma shape_check_err: "shape_check s = (if live s then Inr () else Inl ErrShape)"
  by (auto simp: shape_check_def live_def list_all_iff list_ex_iff not_less not_le)

lemma live_Size_nonneg: "live s \<Longrightarrow> 0 \<le> Size s"
  by (simp add: live_def prod_list_nonneg)

lemma live_nonzero_pos: "live s \<Longrightarrow> \<not> HasZero s \<Longrightarrow> list_all (\<lambda>d. 0 < d) s"
  by (auto simp: live_def list_all_iff order.strict_iff_order)

section \<open>Windows\<close>

text \<open>
  \<open>WindowLength\<close> counts the windows that fit: window \<open>k\<close> starts at \<open>k * stride\<close> and ends
  at or before the padded length exactly when \<open>k\<close> is below the count.
\<close>

lemma WindowLength_spec:
  assumes "1 \<le> stride" and "0 \<le> k"
  shows "k < WindowLength n before after ksize stride \<longleftrightarrow>
           k * stride + ksize \<le> n + before + after"
proof -
  let ?span = "n + before + after - ksize"
  have "k < ?span div stride + 1 \<longleftrightarrow> k * stride \<le> ?span"
    using assms by (simp add: zle_add1_eq_le le_div_int_iff)
  moreover have nonneg: "0 \<le> k * stride"
    using assms by simp
  ultimately show ?thesis
    using assms by (simp add: WindowLength_def Let_def go_int_simps) (use nonneg in linarith)
qed

lemma WindowLength_nonneg: "0 \<le> WindowLength n before after ksize stride"
  by (auto simp: WindowLength_def Let_def go_int_simps pos_imp_zdiv_nonneg_iff)

text \<open>\<open>CoverPad\<close> never shrinks the padding and leaves room for \<open>out\<close> windows.\<close>

lemma CoverPad_covers:
  assumes "1 \<le> stride" and "0 \<le> out"
    and "CoverPad n ksize stride out before after = (before', after')"
  shows "before' = before \<and> after \<le> after' \<and>
         out \<le> WindowLength n before' after' ksize stride"
proof -
  have ge: "ksize - 1 + out * stride \<le> n + before' + after'" "before' = before" "after \<le> after'"
    using assms by (auto simp: CoverPad_def Let_def split: if_splits)
  have "out \<le> WindowLength n before' after' ksize stride"
  proof (cases "out = 0")
    case True
    then show ?thesis by (simp add: WindowLength_nonneg)
  next
    case False
    have "(out - 1) * stride + ksize \<le> n + before' + after'"
      using ge(1) assms(1) by (simp add: algebra_simps)
    with False assms(1,2) have "out - 1 < WindowLength n before' after' ksize stride"
      by (subst WindowLength_spec) auto
    then show ?thesis by simp
  qed
  with ge show ?thesis by simp
qed

section \<open>Inference of a dimension\<close>

text \<open>What the loop finds: no negative dimension but at most one \<open>-1\<close>.\<close>

lemma infer_loop_None:
  "infer_loop s i hole n = Inr (None, m) \<Longrightarrow>
     hole = None \<and> live s \<and> m = n * prod_list s"
  by (induction s i hole n rule: infer_loop.induct) (auto simp: live_def split: if_splits)

lemma infer_loop_Some_prior:
  "infer_loop s i (Some h) n = Inr (r, m) \<Longrightarrow> r = Some h \<and> live s \<and> m = n * prod_list s"
  by (induction s i "Some h" n rule: infer_loop.induct) (auto simp: live_def split: if_splits)

lemma infer_loop_Some:
  assumes "infer_loop s i None n = Inr (Some h, m)"
  shows "i \<le> h \<and> h < i + length s \<and> s ! (h - i) = -1 \<and>
         live (take (h - i) s @ drop (Suc (h - i)) s) \<and>
         m = n * prod_list (take (h - i) s @ drop (Suc (h - i)) s)"
  using assms
proof (induction s arbitrary: i n)
  case Nil
  then show ?case by simp
next
  case (Cons d s)
  show ?case
  proof (cases "d = -1")
    case True
    with Cons.prems have "infer_loop s (Suc i) (Some i) n = Inr (Some h, m)" by simp
    with infer_loop_Some_prior [OF this] True show ?thesis by simp
  next
    case False
    with Cons.prems have d: "0 \<le> d"
      and rec: "infer_loop s (Suc i) None (n * d) = Inr (Some h, m)"
      by (auto split: if_splits)
    from Cons.IH [OF rec] have *: "Suc i \<le> h" "h < Suc i + length s" by auto
    then obtain k where "h = Suc i + k" by (metis le_Suc_ex)
    with Cons.IH [OF rec] d show ?thesis
      by (auto simp: live_def mult.assoc)
  qed
qed

lemma infer_loop_live: "live s \<Longrightarrow> infer_loop s i hole n = Inr (hole, n * prod_list s)"
  by (induction s i hole n rule: infer_loop.induct) (auto simp: live_def)

text \<open>The inferred shape is live, has the requested size, and agrees with \<open>s\<close> but at the hole.\<close>

lemma Infer_sound:
  assumes inf: "Infer s sz = Inr out" and sz: "0 \<le> sz"
  shows "live out \<and> Size out = sz \<and> length out = length s \<and>
         (\<forall>i < length s. s ! i \<noteq> -1 \<longrightarrow> out ! i = s ! i)"
proof -
  obtain r n where loop: "infer_loop s 0 None 1 = Inr (r, n)"
    using inf by (auto simp: Infer_def split: sum.splits)
  show ?thesis
  proof (cases r)
    case None
    with infer_loop_None [of s 0 None 1 n] loop inf show ?thesis
      by (auto simp: Infer_def split: if_splits)
  next
    case (Some h)
    let ?rest = "take h s @ drop (Suc h) s"
    from infer_loop_Some [of s 0 1 h n] loop Some
    have h: "h < length s" "s ! h = -1" "live ?rest" "n = prod_list ?rest" by auto
    have n0: "0 \<le> n" using h(3,4) prod_list_nonneg [of ?rest] by (simp add: live_def)
    from inf loop Some obtain q where q: "out = s[h := q]" "q * n = sz" "0 \<le> q"
      using sz n0 by (auto simp: Infer_def go_int_simps pos_imp_zdiv_nonneg_iff
          split: if_splits)
    have "live out"
      using q h by (auto simp: live_def upd_conv_take_nth_drop)
    moreover have "Size out = sz"
      using q h by (simp add: prod_list_update)
    ultimately show ?thesis
      using q h by (auto simp: nth_list_update)
  qed
qed

text \<open>
  A live shape is accepted exactly when its size is the requested one, and a shape with one
  hole is accepted exactly when some dimension fills it (when the other dimensions have no
  zero the filler is unique).
\<close>

lemma Infer_live: "live s \<Longrightarrow> Infer s sz = (if Size s = sz then Inr s else Inl ErrSize)"
  by (simp add: Infer_def infer_loop_live)

lemma infer_loop_hole:
  assumes "live as" and "live bs"
  shows "infer_loop (as @ -1 # bs) i None n =
           Inr (Some (i + length as), n * (prod_list as * prod_list bs))"
  using assms(1)
proof (induction as arbitrary: i n)
  case Nil
  show ?case using assms(2) by (simp add: infer_loop_live)
next
  case (Cons a as)
  then show ?case by (simp add: live_def ac_simps)
qed

lemma Infer_complete:
  assumes "live as" and "live bs" and "0 \<le> d"
    and "Size (as @ d # bs) = sz" and "0 < Size (as @ bs)"
  shows "Infer (as @ -1 # bs) sz = Inr (as @ d # bs)"
proof -
  let ?n = "prod_list as * prod_list bs"
  have "sz = d * ?n" "0 < ?n" using assms(4,5) by (auto simp: ac_simps)
  with assms(3) show ?thesis
    by (auto simp: Infer_def infer_loop_hole assms(1,2) go_int_simps)
qed

end
