(* ===== verification/NdView.thy ===== *)
theory NdView
  imports NdShape
begin

text \<open>
  Address maps, \<open>x/ndarray/view.go\<close>. A view maps the coordinates of a logical tensor to
  an offset of its buffer, clipped by a mask: \<open>offset + sum (coord[i] * strides[i])\<close>.

  The specification of a view is the partial function \<open>addr v\<close> from coordinates to buffer
  offsets (\<^const>\<open>None\<close> in the padding); each operation of the file is related to the
  coordinate map it promises. \<open>strides == nil\<close> and \<open>mask == nil\<close> are \<^const>\<open>None\<close>.
\<close>

section \<open>The view and its constructor\<close>

type_synonym span = "int \<times> int"

record view =
  v_shape :: shape
  v_strides :: "int list"
  v_offset :: int
  v_mask :: "span list option"

text \<open>The loop of \<open>stridesFor\<close> runs from the last axis: it takes the reversed shape.\<close>

fun strides_loop :: "shape \<Rightarrow> int \<Rightarrow> int list" where
  "strides_loop [] acc = []"
| "strides_loop (d # ds) acc = (if d = 1 then 0 else acc) # strides_loop ds (acc * d)"

definition stridesFor :: "shape \<Rightarrow> int list" where
  "stridesFor shape = rev (strides_loop (rev shape) 1)"

definition canonicalStrides :: "shape \<Rightarrow> int list \<Rightarrow> int list" where
  "canonicalStrides shape strides = map2 (\<lambda>d s. if d = 1 then 0 else s) shape strides"

definition zeros :: "nat \<Rightarrow> int list" where
  "zeros n = replicate n 0"

definition zerosMask :: "nat \<Rightarrow> span list option" where
  "zerosMask n = (if n = 0 then None else Some (replicate n (0, 0)))"

text \<open>The axes whose mask keeps one cell (or none) give their stride to the offset.\<close>

fun elim_loop :: "int list \<Rightarrow> span list \<Rightarrow> int \<Rightarrow> int list \<times> int" where
  "elim_loop (s # ss) ((lo, hi) # ms) offset =
     (if lo + 1 \<ge> hi
      then (let (ss', offset') = elim_loop ss ms (offset + s * lo) in (0 # ss', offset'))
      else (let (ss', offset') = elim_loop ss ms offset in (s # ss', offset')))"
| "elim_loop ss ms offset = (ss, offset)"

definition create_mask :: "shape \<Rightarrow> span list option \<Rightarrow> span list option nd_result" where
  "create_mask shape msk =
     (case msk of
        None \<Rightarrow> Inr None
      | Some ms \<Rightarrow>
          if length ms \<noteq> length shape then Inl ErrShape
          else if ms = map (\<lambda>d. (0, d)) shape then Inr None else Inr (Some ms))"

definition create :: "shape \<Rightarrow> int list option \<Rightarrow> int \<Rightarrow> span list option \<Rightarrow> view nd_result" where
  "create shape strides offset msk =
     bind_result (shape_check shape) (\<lambda>_.
     bind_result
       (case strides of
          None \<Rightarrow> Inr (stridesFor shape)
        | Some ss \<Rightarrow> if length ss \<noteq> length shape then Inl ErrShape
                    else Inr (canonicalStrides shape ss)) (\<lambda>ss.
     if HasZero shape
     then Inr \<lparr>v_shape = shape, v_strides = zeros (length shape), v_offset = 0, v_mask = None\<rparr>
     else bind_result (create_mask shape msk) (\<lambda>msk.
       (case msk of
          None \<Rightarrow> Inr \<lparr>v_shape = shape, v_strides = ss, v_offset = offset, v_mask = None\<rparr>
        | Some ms \<Rightarrow>
            if list_ex (\<lambda>(lo, hi). lo \<ge> hi) ms
            then Inr \<lparr>v_shape = shape, v_strides = zeros (length shape), v_offset = 0,
                      v_mask = zerosMask (length shape)\<rparr>
            else (let (ss', offset') = elim_loop ss ms offset
                  in Inr \<lparr>v_shape = shape, v_strides = ss', v_offset = offset',
                          v_mask = Some ms\<rparr>)))))"

definition view_size :: "view \<Rightarrow> int" where
  "view_size v = Size (v_shape v)"

definition contiguous :: "view \<Rightarrow> bool" where
  "contiguous v \<longleftrightarrow>
     (if v_offset v \<noteq> 0 \<or> v_mask v \<noteq> None then False
      else if HasZero (v_shape v) then True
      else v_strides v = stridesFor (v_shape v))"

section \<open>Indexing\<close>

text \<open>
  One round per coordinate: the stride and the mask entry of the axis are read while there
  is one (\<open>i < len(v.strides)\<close>, \<open>i < len(v.mask)\<close>).
\<close>

fun index_loop :: "int list \<Rightarrow> int list \<Rightarrow> span list \<Rightarrow> int \<Rightarrow> bool \<Rightarrow> int \<times> bool" where
  "index_loop [] ss ms off ok = (off, ok)"
| "index_loop (c # cs) ss ms off ok =
     index_loop cs (tl ss) (tl ms)
       (case ss of [] \<Rightarrow> off | s # _ \<Rightarrow> off + c * s)
       (case ms of [] \<Rightarrow> ok | (lo, hi) # _ \<Rightarrow> if c < lo \<or> c \<ge> hi then False else ok)"

definition index :: "view \<Rightarrow> int list \<Rightarrow> int \<times> bool" where
  "index v coords =
     (if v_shape v = [] then (v_offset v, True)
      else index_loop coords (v_strides v) (case v_mask v of None \<Rightarrow> [] | Some ms \<Rightarrow> ms)
             (v_offset v) True)"

text \<open>\<open>unravel\<close> also runs from the last axis, with the product of the axes done so far.\<close>

fun unravel_loop :: "shape \<Rightarrow> int \<Rightarrow> int \<Rightarrow> int list" where
  "unravel_loop [] i acc = []"
| "unravel_loop (s # ss) i acc =
     (if s = 0 then 0 # unravel_loop ss i acc
      else go_mod (go_div i acc) s # unravel_loop ss i (acc * s))"

definition unravel :: "shape \<Rightarrow> int \<Rightarrow> int list" where
  "unravel shape i = rev (unravel_loop (rev shape) i 1)"

section \<open>Movement operations\<close>

fun isPermutation_loop :: "int list \<Rightarrow> int \<Rightarrow> bool list \<Rightarrow> bool" where
  "isPermutation_loop [] n seen = True"
| "isPermutation_loop (a # as) n seen =
     (if a < 0 \<or> a \<ge> n \<or> seen ! nat a then False
      else isPermutation_loop as n (seen[nat a := True]))"

definition isPermutation :: "int list \<Rightarrow> nat \<Rightarrow> bool" where
  "isPermutation axes n \<longleftrightarrow>
     length axes = n \<and> isPermutation_loop axes (int n) (replicate n False)"

definition permute :: "view \<Rightarrow> int list \<Rightarrow> view nd_result" where
  "permute v axes =
     (if \<not> isPermutation axes (length (v_shape v)) then Inl ErrAxis
      else create (map (\<lambda>a. v_shape v ! nat a) axes)
             (Some (map (\<lambda>a. v_strides v ! nat a) axes))
             (v_offset v)
             (map_option (\<lambda>ms. map (\<lambda>a. ms ! nat a) axes) (v_mask v)))"

definition expand :: "view \<Rightarrow> shape \<Rightarrow> view nd_result" where
  "expand v shape =
     (if length shape \<noteq> length (v_shape v) then Inl ErrExpand
      else if list_ex (\<lambda>(s, t). s \<noteq> t \<and> s \<noteq> 1) (zip (v_shape v) shape) then Inl ErrExpand
      else if HasZero (v_shape v) then create shape None 0 None
      else create shape (Some (v_strides v)) (v_offset v)
             (map_option (\<lambda>ms.
                map2 (\<lambda>(s, t) m. if s \<noteq> t then (if m \<noteq> (0, 1) then (0, 0) else (0, t)) else m)
                  (zip (v_shape v) shape) ms) (v_mask v)))"

definition flip :: "view \<Rightarrow> bool list \<Rightarrow> view nd_result" where
  "flip v which =
     (if length which \<noteq> length (v_shape v) then Inl ErrAxis
      else create (v_shape v)
             (Some (map2 (\<lambda>f s. if f then - s else s) which (v_strides v)))
             (v_offset v + (\<Sum>(f, d, s) \<leftarrow> zip which (zip (v_shape v) (v_strides v)).
                              if f then (d - 1) * s else 0))
             (map_option (\<lambda>ms.
                map2 (\<lambda>f (d, (lo, hi)). if f then (d - hi, d - lo) else (lo, hi))
                  which (zip (v_shape v) ms)) (v_mask v)))"

definition resize :: "view \<Rightarrow> span list \<Rightarrow> span list option \<Rightarrow> view nd_result" where
  "resize v arg msk =
     (let offset = v_offset v + (\<Sum>(a, s) \<leftarrow> zip arg (v_strides v). s * fst a);
          msk' = (case v_mask v of
              None \<Rightarrow> msk
            | Some vm \<Rightarrow>
                (let nm = map2 (\<lambda>(a0, a1) (mx, my).
                            (max 0 (min (mx - a0) (a1 - a0)), max 0 (min (my - a0) (a1 - a0))))
                            arg vm
                 in Some (case msk of
                      None \<Rightarrow> nm
                    | Some ms \<Rightarrow> map2 (\<lambda>(l, h) (ml, mh). (max l ml, min h mh)) nm ms)))
      in create (map (\<lambda>(a0, a1). a1 - a0) arg) (Some (v_strides v)) offset msk')"

definition pad :: "view \<Rightarrow> span list \<Rightarrow> view nd_result" where
  "pad v arg =
     (if length arg \<noteq> length (v_shape v) then Inl ErrPad
      else if list_ex (\<lambda>(b, a). b < 0 \<or> a < 0) arg then Inl ErrPad
      else if \<not> list_ex (\<lambda>(b, a). b \<noteq> 0 \<or> a \<noteq> 0) arg then Inr v
      else resize v (map2 (\<lambda>(b, a) s. (- b, s + a)) arg (v_shape v))
             (Some (map2 (\<lambda>(b, a) s. (b, s + b)) arg (v_shape v))))"

definition shrink :: "view \<Rightarrow> span list \<Rightarrow> view nd_result" where
  "shrink v arg =
     (if length arg \<noteq> length (v_shape v) then Inl ErrShrink
      else if list_ex (\<lambda>((lo, hi), s). lo < 0 \<or> hi < lo \<or> hi > s) (zip arg (v_shape v))
      then Inl ErrShrink
      else resize v arg None)"

section \<open>What a view denotes\<close>

definition in_bounds :: "shape \<Rightarrow> int list \<Rightarrow> bool" where
  "in_bounds shape cs \<longleftrightarrow> length cs = length shape \<and> (\<forall>i < length shape. 0 \<le> cs ! i \<and> cs ! i < shape ! i)"

definition addr :: "view \<Rightarrow> int list \<Rightarrow> int option" where
  "addr v cs = (let (off, ok) = index v cs in if ok then Some off else None)"

text \<open>The closed form of one mask and of the linear map, over axis indices.\<close>

definition mask_ok :: "span list option \<Rightarrow> int list \<Rightarrow> bool" where
  "mask_ok m cs \<longleftrightarrow>
     (case m of None \<Rightarrow> True
      | Some ms \<Rightarrow> \<forall>i < length ms. fst (ms ! i) \<le> cs ! i \<and> cs ! i < snd (ms ! i))"

definition dot :: "int list \<Rightarrow> int list \<Rightarrow> int" where
  "dot cs ss = (\<Sum>i < length ss. cs ! i * ss ! i)"

definition affine :: "int list \<Rightarrow> int \<Rightarrow> span list option \<Rightarrow> int list \<Rightarrow> int option" where
  "affine ss off m cs = (if mask_ok m cs then Some (off + dot cs ss) else None)"

text \<open>
  The invariant \<open>create\<close> establishes: one stride and one mask entry per axis, no stride on an
  axis of length one, masks that are non-empty subranges of their axis or empty everywhere.
\<close>

definition mask_wf :: "shape \<Rightarrow> span list option \<Rightarrow> bool" where
  "mask_wf shape m \<longleftrightarrow>
     (case m of None \<Rightarrow> True
      | Some ms \<Rightarrow> length ms = length shape \<and>
          (ms = replicate (length shape) (0, 0) \<or>
           (\<forall>i < length shape. 0 \<le> fst (ms ! i) \<and> fst (ms ! i) < snd (ms ! i) \<and> snd (ms ! i) \<le> shape ! i)))"

definition wf_view :: "view \<Rightarrow> bool" where
  "wf_view v \<longleftrightarrow>
     live (v_shape v) \<and> length (v_strides v) = length (v_shape v) \<and>
     (\<forall>i < length (v_shape v). v_shape v ! i = 1 \<longrightarrow> v_strides v ! i = 0) \<and>
     mask_wf (v_shape v) (v_mask v) \<and>
     (HasZero (v_shape v) \<longrightarrow> v_mask v = None \<and> v_offset v = 0)"

section \<open>Coordinates\<close>

lemma in_bounds_length: "in_bounds sh cs \<Longrightarrow> length cs = length sh"
  by (simp add: in_bounds_def)

lemma in_bounds_Nil [simp]: "in_bounds [] cs \<longleftrightarrow> cs = []"
  by (simp add: in_bounds_def)

lemma in_bounds_Cons [simp]:
  "in_bounds (d # ds) cs \<longleftrightarrow> (\<exists>c cs'. cs = c # cs' \<and> 0 \<le> c \<and> c < d \<and> in_bounds ds cs')"
  by (cases cs) (auto simp: in_bounds_def All_less_Suc2)

lemma in_bounds_nth: "in_bounds sh cs \<Longrightarrow> i < length sh \<Longrightarrow> 0 \<le> cs ! i \<and> cs ! i < sh ! i"
  by (simp add: in_bounds_def)

lemma in_bounds_pos: "in_bounds sh cs \<Longrightarrow> list_all (\<lambda>d. 0 < d) sh"
  by (induction sh arbitrary: cs) auto

lemma in_bounds_no_zero: "in_bounds sh cs \<Longrightarrow> 0 \<notin> set sh"
  using in_bounds_pos [of sh cs] by (auto simp: list_all_iff)

text \<open>The row-major number of a cell.\<close>

fun ravel :: "shape \<Rightarrow> int list \<Rightarrow> int" where
  "ravel (d # ds) (c # cs) = c * prod_list ds + ravel ds cs"
| "ravel _ _ = 0"

lemma ravel_bounds: "in_bounds sh cs \<Longrightarrow> 0 \<le> ravel sh cs \<and> ravel sh cs < prod_list sh"
proof (induction sh arbitrary: cs)
  case Nil
  then show ?case by simp
next
  case (Cons d ds)
  then obtain c cs' where cs: "cs = c # cs'" "0 \<le> c" "c < d" "in_bounds ds cs'" by auto
  from Cons.IH [OF cs(4)] have r: "0 \<le> ravel ds cs'" "ravel ds cs' < prod_list ds" by auto
  have "c * prod_list ds + ravel ds cs' < (c + 1) * prod_list ds"
    using r by (simp add: algebra_simps)
  also have "\<dots> \<le> d * prod_list ds"
    using cs(3) r by (intro mult_right_mono) auto
  finally show ?case using cs r by simp
qed

lemma ravel_inj: "in_bounds sh cs \<Longrightarrow> in_bounds sh cs' \<Longrightarrow> ravel sh cs = ravel sh cs' \<Longrightarrow> cs = cs'"
proof (induction sh arbitrary: cs cs')
  case Nil
  then show ?case by simp
next
  case (Cons d ds)
  then obtain c e es c' e' es' where
    *: "cs = c # es" "in_bounds ds es" "cs' = c' # es'" "in_bounds ds es'" by auto
  let ?P = "prod_list ds"
  have r: "0 \<le> ravel ds es \<and> ravel ds es < ?P" "0 \<le> ravel ds es' \<and> ravel ds es' < ?P"
    using * ravel_bounds by blast+
  have eq: "c * ?P + ravel ds es = c' * ?P + ravel ds es'"
    using Cons.prems(3) * by simp
  from arg_cong [OF eq, of "\<lambda>x. x div ?P"] r have "c = c'" by simp
  moreover from this eq have "ravel ds es = ravel ds es'" by simp
  ultimately show ?case using Cons.IH * by auto
qed

text \<open>\<open>unravel\<close> peels the leading axis.\<close>

lemma unravel_loop_append:
  "list_all (\<lambda>d. 0 < d) xs \<Longrightarrow>
   unravel_loop (xs @ ys) i acc = unravel_loop xs i acc @ unravel_loop ys i (acc * prod_list xs)"
  by (induction xs arbitrary: acc) (auto simp: mult.assoc)

lemma unravel_Nil [simp]: "unravel [] i = []"
  by (simp add: unravel_def)

lemma unravel_Cons:
  "list_all (\<lambda>d. 0 < d) ds \<Longrightarrow>
   unravel (d # ds) i = (if d = 0 then 0 else go_mod (go_div i (prod_list ds)) d) # unravel ds i"
  by (simp add: unravel_def unravel_loop_append list_all_rev prod_list.rev)

lemma ravel_unravel_mod:
  "list_all (\<lambda>d. 0 < d) sh \<Longrightarrow> 0 \<le> i \<Longrightarrow>
     in_bounds sh (unravel sh i) \<and> ravel sh (unravel sh i) = i mod prod_list sh"
proof (induction sh)
  case Nil
  then show ?case by simp
next
  case (Cons d ds)
  then have P: "0 < prod_list ds" and d: "0 < d" by (simp_all add: prod_list_pos)
  have "i mod (d * prod_list ds) = prod_list ds * (i div prod_list ds mod d) + i mod prod_list ds"
    using d by (simp add: mult.commute [of d] zmod_zmult2_eq)
  then show ?case
    using Cons P d by (simp add: unravel_Cons go_int_simps pos_imp_zdiv_nonneg_iff mult.commute)
qed

lemma ravel_unravel:
  "list_all (\<lambda>d. 0 < d) sh \<Longrightarrow> 0 \<le> i \<Longrightarrow> i < prod_list sh \<Longrightarrow> ravel sh (unravel sh i) = i"
  by (simp add: ravel_unravel_mod)

lemma unravel_in_bounds:
  "list_all (\<lambda>d. 0 < d) sh \<Longrightarrow> 0 \<le> i \<Longrightarrow> in_bounds sh (unravel sh i)"
  by (simp add: ravel_unravel_mod)

lemma unravel_ravel:
  assumes "in_bounds sh cs"
  shows "unravel sh (ravel sh cs) = cs"
proof -
  have pos: "list_all (\<lambda>d. 0 < d) sh" using assms by (rule in_bounds_pos)
  show ?thesis
    using ravel_bounds [OF assms] ravel_unravel_mod [OF pos, of "ravel sh cs"] assms
    by (intro ravel_inj [of sh]) auto
qed

section \<open>The linear map\<close>

lemma dot_Nil [simp]: "dot cs [] = 0"
  by (simp add: dot_def)

lemma dot_Cons [simp]: "dot (c # cs) (s # ss) = c * s + dot cs ss"
  by (simp add: dot_def sum.lessThan_Suc_shift del: sum.lessThan_Suc)

lemma mask_ok_simps [simp]:
  "mask_ok None cs"
  "mask_ok (Some []) cs"
  "mask_ok (Some ((lo, hi) # ms)) (c # cs) \<longleftrightarrow> lo \<le> c \<and> c < hi \<and> mask_ok (Some ms) cs"
  by (auto simp: mask_ok_def All_less_Suc2)

lemma index_loop_eq:
  assumes "length ss = length cs" and "ms = [] \<or> length ms = length cs"
  shows "index_loop cs ss ms off ok = (off + dot cs ss, ok \<and> mask_ok (Some ms) cs)"
  using assms
proof (induction cs arbitrary: ss ms off ok)
  case Nil
  then show ?case by (auto simp: mask_ok_def)
next
  case (Cons c cs)
  then obtain s ss' where ss: "ss = s # ss'" by (cases ss) auto
  show ?case
  proof (cases ms)
    case Nil
    with Cons ss show ?thesis by (simp add: algebra_simps)
  next
    case (Cons m ms')
    with Cons.prems Cons.IH [of ss' ms'] ss show ?thesis
      by (cases m) (auto simp: algebra_simps not_le not_less)
  qed
qed

lemma addr_affine:
  assumes "length cs = length (v_shape v)" and "length (v_strides v) = length (v_shape v)"
    and "\<And>ms. v_mask v = Some ms \<Longrightarrow> length ms = length (v_shape v)"
  shows "addr v cs = affine (v_strides v) (v_offset v) (v_mask v) cs"
proof (cases "v_shape v = []")
  case True
  with assms show ?thesis
    by (cases "v_mask v") (auto simp: addr_def index_def affine_def mask_ok_def)
next
  case False
  with assms show ?thesis
    by (cases "v_mask v") (auto simp: addr_def index_def affine_def index_loop_eq)
qed

lemma wf_addr:
  assumes "wf_view v" and "length cs = length (v_shape v)"
  shows "addr v cs = affine (v_strides v) (v_offset v) (v_mask v) cs"
  using assms by (intro addr_affine) (auto simp: wf_view_def mask_wf_def)

text \<open>Row-major strides compute the row-major number.\<close>

lemma strides_loop_append:
  "strides_loop (xs @ ys) acc = strides_loop xs acc @ strides_loop ys (acc * prod_list xs)"
  by (induction xs arbitrary: acc) (auto simp: mult.assoc)

lemma stridesFor_Nil [simp]: "stridesFor [] = []"
  by (simp add: stridesFor_def)

lemma stridesFor_Cons [simp]:
  "stridesFor (d # ds) = (if d = 1 then 0 else prod_list ds) # stridesFor ds"
  by (simp add: stridesFor_def strides_loop_append prod_list.rev)

lemma length_stridesFor [simp]: "length (stridesFor sh) = length sh"
  by (induction sh) auto

lemma dot_stridesFor: "in_bounds sh cs \<Longrightarrow> dot cs (stridesFor sh) = ravel sh cs"
  by (induction sh arbitrary: cs) auto

lemma stridesFor_one: "i < length sh \<Longrightarrow> sh ! i = 1 \<Longrightarrow> stridesFor sh ! i = 0"
  by (induction sh arbitrary: i) (auto simp: nth_Cons split: nat.splits)

section \<open>The constructor\<close>

lemma length_canonicalStrides [simp]:
  "length ss = length sh \<Longrightarrow> length (canonicalStrides sh ss) = length sh"
  by (simp add: canonicalStrides_def)

lemma dot_canonicalStrides:
  "in_bounds sh cs \<Longrightarrow> length ss = length sh \<Longrightarrow> dot cs (canonicalStrides sh ss) = dot cs ss"
proof (induction sh arbitrary: cs ss)
  case Nil
  then show ?case by (simp add: canonicalStrides_def)
next
  case (Cons d ds)
  then obtain s ss' where "ss = s # ss'" by (cases ss) auto
  with Cons show ?case by (auto simp: canonicalStrides_def)
qed

lemma elim_loop_length:
  "length ms = length ss \<Longrightarrow> length (fst (elim_loop ss ms off)) = length ss"
  by (induction ss ms off rule: elim_loop.induct) (auto split: prod.splits)

lemma elim_loop_sound:
  assumes "length ms = length ss" and "length cs = length ss" and "mask_ok (Some ms) cs"
  shows "snd (elim_loop ss ms off) + dot cs (fst (elim_loop ss ms off)) = off + dot cs ss"
  using assms
proof (induction ss ms off arbitrary: cs rule: elim_loop.induct)
  case (1 s ss lo hi ms offset)
  then obtain c cs' where "cs = c # cs'" by (cases cs) auto
  with 1 show ?case by (fastforce simp: algebra_simps split: prod.splits)
qed auto

lemma elim_loop_zero:
  "length ms = length ss \<Longrightarrow> i < length ss \<Longrightarrow> ss ! i = 0 \<Longrightarrow> fst (elim_loop ss ms off) ! i = 0"
  by (induction ss ms off arbitrary: i rule: elim_loop.induct)
     (auto simp: nth_Cons split: prod.splits nat.splits)

lemma affine_cong:
  assumes "mask_ok m cs = mask_ok m' cs'"
    and "mask_ok m cs \<Longrightarrow> off + dot cs ss = off' + dot cs' ss'"
  shows "affine ss off m cs = affine ss' off' m' cs'"
  using assms by (auto simp: affine_def)

lemma mask_ok_full: "in_bounds sh cs \<Longrightarrow> mask_ok (Some (map (\<lambda>d. (0, d)) sh)) cs"
  by (auto simp: mask_ok_def in_bounds_def)

lemma mask_ok_empty: "list_ex (\<lambda>(lo, hi). lo \<ge> hi) ms \<Longrightarrow> \<not> mask_ok (Some ms) cs"
  by (fastforce simp: mask_ok_def list_ex_length)

lemma mask_ok_zeros: "0 < n \<Longrightarrow> \<not> mask_ok (Some (replicate n (0, 0))) cs"
  by (auto simp: mask_ok_def)

text \<open>
  Every view that \<open>create\<close> returns denotes the affine map it was given, on the coordinates
  of its shape: neither the canonical strides nor the folding of one-cell axes into the
  offset is observable.
\<close>

lemma create_Some:
  assumes "create sh (Some ss) off m = Inr v"
  shows "live sh" "length ss = length sh" "v_shape v = sh"
  using assms by (auto simp: create_def Let_def split: if_splits option.splits prod.splits)

lemma create_mask_cases:
  assumes "\<And>ms. m = Some ms \<Longrightarrow> length ms = length sh"
  obtains (none) "create_mask sh m = Inr None"
  | (some) ms where "m = Some ms" "create_mask sh m = Inr (Some ms)"
proof (cases m)
  case None
  then show ?thesis using none by (simp add: create_mask_def)
next
  case (Some ms)
  show ?thesis
  proof (cases "ms = map (\<lambda>d. (0, d)) sh")
    case True
    then show ?thesis using none Some by (simp add: create_mask_def)
  next
    case False
    then show ?thesis using some Some assms by (simp add: create_mask_def)
  qed
qed

lemma create_affine:
  assumes cr: "create sh (Some ss) off m = Inr v" and ib: "in_bounds sh cs"
    and len: "\<And>ms. m = Some ms \<Longrightarrow> length ms = length sh"
  shows "addr v cs = affine ss off m cs"
proof -
  note ss = create_Some [OF cr]
  have nz: "0 \<notin> set sh" using ib by (rule in_bounds_no_zero)
  let ?c = "canonicalStrides sh ss"
  have c: "length ?c = length sh" "dot cs ?c = dot cs ss"
    using ss ib by (simp_all add: dot_canonicalStrides)
  consider (none) "create_mask sh m = Inr None" | (some) ms where "m = Some ms"
      "create_mask sh m = Inr (Some ms)"
    using len by (rule create_mask_cases)
  then show ?thesis
  proof cases
    case none
    then have v: "v = \<lparr>v_shape = sh, v_strides = ?c, v_offset = off, v_mask = None\<rparr>"
      using cr ss nz by (auto simp: create_def)
    moreover have "mask_ok m cs"
      using none ib by (auto simp: create_mask_def mask_ok_full split: option.splits if_splits)
    ultimately show ?thesis
      using ib c by (subst addr_affine) (auto simp: affine_def dest: in_bounds_length)
  next
    case some
    then have n: "length ms = length sh" "sh \<noteq> []" using len by (auto simp: create_mask_def)
    show ?thesis
    proof (cases "list_ex (\<lambda>(lo, hi). lo \<ge> hi) ms")
      case True
      then have "v = \<lparr>v_shape = sh, v_strides = zeros (length sh), v_offset = 0,
                      v_mask = Some (replicate (length sh) (0, 0))\<rparr>"
        using cr ss nz some n by (auto simp: create_def zerosMask_def)
      then show ?thesis
        using ib n some mask_ok_empty [OF True] mask_ok_zeros [of "length sh"]
        by (subst addr_affine) (auto simp: affine_def zeros_def dest: in_bounds_length)
    next
      case False
      then have "v = \<lparr>v_shape = sh, v_strides = fst (elim_loop ?c ms off),
                      v_offset = snd (elim_loop ?c ms off), v_mask = m\<rparr>"
        using cr ss nz some by (auto simp: create_def Let_def split: prod.splits)
      then show ?thesis
        using ib n some c elim_loop_length [of ms ?c off] elim_loop_sound [of ms ?c cs off]
        by (subst addr_affine) (auto simp: affine_def dest: in_bounds_length)
    qed
  qed
qed

lemma create_None: "create sh None off m = create sh (Some (stridesFor sh)) off m"
proof -
  have "canonicalStrides sh (stridesFor sh) = stridesFor sh"
    by (induction sh) (auto simp: canonicalStrides_def)
  then show ?thesis by (simp add: create_def)
qed

lemma create_contiguous_ok: "live sh \<Longrightarrow> \<exists>v. create sh None 0 None = Inr v \<and> v_shape v = sh"
  by (auto simp: create_def create_mask_def shape_check_err)

lemma create_contiguous_addr:
  assumes "create sh None 0 None = Inr v" and "in_bounds sh cs"
  shows "addr v cs = Some (ravel sh cs)"
  using create_affine [of sh "stridesFor sh" 0 None v cs] assms
  by (simp add: create_None affine_def dot_stridesFor)

text \<open>
  The invariant. The mask entries must lie inside their axis, which every caller below
  ensures; an empty entry makes the whole mask the canonical empty one.
\<close>

definition mask_within :: "shape \<Rightarrow> span list option \<Rightarrow> bool" where
  "mask_within sh m \<longleftrightarrow>
     (case m of None \<Rightarrow> True
      | Some ms \<Rightarrow> length ms = length sh \<and>
          (\<forall>i < length sh. fst (ms ! i) < snd (ms ! i) \<longrightarrow>
              0 \<le> fst (ms ! i) \<and> snd (ms ! i) \<le> sh ! i))"

lemma create_wf:
  assumes cr: "create sh (Some ss) off m = Inr v" and within: "mask_within sh m"
  shows "wf_view v"
proof -
  note ss = create_Some [OF cr]
  let ?c = "canonicalStrides sh ss"
  have one: "\<And>i. i < length sh \<Longrightarrow> sh ! i = 1 \<Longrightarrow> ?c ! i = 0"
    using ss by (simp add: canonicalStrides_def)
  have len: "\<And>ms. m = Some ms \<Longrightarrow> length ms = length sh"
    using within by (simp add: mask_within_def)
  consider (zero) "0 \<in> set sh" | (none) "0 \<notin> set sh" "create_mask sh m = Inr None"
    | (some) ms where "0 \<notin> set sh" "m = Some ms" "create_mask sh m = Inr (Some ms)"
    using create_mask_cases [OF len] by metis
  then show ?thesis
  proof cases
    case zero
    then have "v = \<lparr>v_shape = sh, v_strides = zeros (length sh), v_offset = 0, v_mask = None\<rparr>"
      using cr ss by (auto simp: create_def)
    then show ?thesis using ss by (simp add: wf_view_def mask_wf_def zeros_def)
  next
    case none
    then have "v = \<lparr>v_shape = sh, v_strides = ?c, v_offset = off, v_mask = None\<rparr>"
      using cr ss by (auto simp: create_def)
    then show ?thesis using ss none one by (simp add: wf_view_def mask_wf_def)
  next
    case some
    then have n: "length ms = length sh" "sh \<noteq> []" using len by (auto simp: create_mask_def)
    show ?thesis
    proof (cases "list_ex (\<lambda>(lo, hi). lo \<ge> hi) ms")
      case True
      then have "v = \<lparr>v_shape = sh, v_strides = zeros (length sh), v_offset = 0,
                      v_mask = Some (replicate (length sh) (0, 0))\<rparr>"
        using cr ss some n by (auto simp: create_def zerosMask_def)
      then show ?thesis using ss some by (simp add: wf_view_def mask_wf_def zeros_def)
    next
      case False
      then have "\<And>i. i < length sh \<Longrightarrow> fst (ms ! i) < snd (ms ! i)"
        using n by (fastforce simp: list_ex_length not_le)
      moreover have "v = \<lparr>v_shape = sh, v_strides = fst (elim_loop ?c ms off),
                      v_offset = snd (elim_loop ?c ms off), v_mask = m\<rparr>"
        using cr ss some False by (auto simp: create_def Let_def split: prod.splits)
      ultimately show ?thesis
        using ss some n one within elim_loop_length [of ms ?c off] elim_loop_zero [of ms ?c _ off]
        by (auto simp: wf_view_def mask_wf_def mask_within_def)
    qed
  qed
qed

lemma create_contiguous_wf [inv_intros]: "create sh None 0 None = Inr v \<Longrightarrow> wf_view v"
  by (simp add: create_None) (erule create_wf, simp add: mask_within_def)

lemma create_total:
  assumes "live sh" and "length ss = length sh" and "\<And>ms. m = Some ms \<Longrightarrow> length ms = length sh"
  shows "\<exists>v. create sh (Some ss) off m = Inr v"
  using assms(3) by (rule create_mask_cases)
    (auto simp: create_def assms(1,2) shape_check_err Let_def split: prod.splits)

end
