(* ===== verification/NdMove.thy ===== *)
theory NdMove
  imports NdView
begin

text \<open>
  The movement operations of \<open>x/ndarray/view.go\<close> against their specification: each one that
  succeeds returns a well-formed view whose cells are the cells of the old view at the
  coordinates the operation promises, and it fails exactly on the arguments its guards name.
\<close>

section \<open>Permutation of axes\<close>

lemma isPermutation_loop_iff:
  "length seen = n \<Longrightarrow>
   isPermutation_loop as (int n) seen \<longleftrightarrow>
     distinct as \<and> (\<forall>a \<in> set as. 0 \<le> a \<and> a < int n \<and> \<not> seen ! nat a)"
proof (induction as arbitrary: seen)
  case Nil
  then show ?case by simp
next
  case (Cons a as)
  show ?case
  proof (cases "0 \<le> a \<and> a < int n \<and> \<not> seen ! nat a")
    case True
    have "seen[nat a := True] ! nat b \<longleftrightarrow> seen ! nat b \<or> b = a" if "0 \<le> b" for b
      using True that Cons.prems by (auto simp: nth_list_update)
    then show ?thesis using True Cons.IH [of "seen[nat a := True]"] Cons.prems by auto
  qed auto
qed

lemma nth_replicate_False: "0 \<le> a \<Longrightarrow> a < int n \<Longrightarrow> \<not> replicate n False ! nat a"
  by (simp add: nat_less_iff)

lemma isPermutation_iff:
  "isPermutation axes n \<longleftrightarrow> distinct axes \<and> set axes = {0..<int n}"
proof -
  have "isPermutation axes n \<longleftrightarrow> length axes = n \<and> distinct axes \<and> set axes \<subseteq> {0..<int n}"
    unfolding isPermutation_def isPermutation_loop_iff [OF length_replicate]
    using nth_replicate_False [of _ n] by fastforce
  moreover have "set axes = {0..<int n}" if "length axes = n" "distinct axes" "set axes \<subseteq> {0..<int n}"
    using that by (intro card_subset_eq) (auto simp: distinct_card)
  moreover have "length axes = n" if "distinct axes" "set axes = {0..<int n}"
    using that distinct_card [of axes] by simp
  ultimately show ?thesis by blast
qed

lemma isPermutation_bij:
  assumes "isPermutation axes n"
  shows "bij_betw (\<lambda>i. nat (axes ! i)) {..<n} {..<n}"
proof -
  have len: "length axes = n" using assms by (simp add: isPermutation_def)
  have d: "distinct axes" and s: "set axes = {0..<int n}" using assms by (simp_all add: isPermutation_iff)
  have "inj_on (\<lambda>i. nat (axes ! i)) {..<n}"
  proof (rule inj_onI)
    fix i j assume "i \<in> {..<n}" "j \<in> {..<n}" "nat (axes ! i) = nat (axes ! j)"
    moreover from this len s have "0 \<le> axes ! i" "0 \<le> axes ! j"
      by (metis atLeastLessThan_iff lessThan_iff nth_mem)+
    ultimately have "axes ! i = axes ! j" by simp
    then show "i = j" using d len \<open>i \<in> {..<n}\<close> \<open>j \<in> {..<n}\<close> by (simp add: nth_eq_iff_index_eq)
  qed
  moreover have "(\<lambda>i. nat (axes ! i)) ` {..<n} \<subseteq> {..<n}"
    using len s by (auto) (metis atLeastLessThan_iff nat_less_iff nth_mem zless_nat_eq_int_zless)
  ultimately show ?thesis
    by (simp add: bij_betw_def endo_inj_surj)
qed

text \<open>The coordinates of a permuted view.\<close>

definition gather :: "int list \<Rightarrow> 'a list \<Rightarrow> 'a list" where
  "gather axes xs = map (\<lambda>a. xs ! nat a) axes"

lemma gather_all_iff:
  assumes "isPermutation axes n"
  shows "(\<forall>i < n. P (nat (axes ! i))) \<longleftrightarrow> (\<forall>i < n. P i)"
proof -
  have "(\<lambda>i. nat (axes ! i)) ` {..<n} = {..<n}"
    using isPermutation_bij [OF assms] by (simp add: bij_betw_def)
  then have "(\<forall>i \<in> {..<n}. P i) \<longleftrightarrow> (\<forall>i \<in> (\<lambda>i. nat (axes ! i)) ` {..<n}. P i)" by simp
  then show ?thesis by (auto simp only: ball_simps lessThan_iff Ball_def)
qed

lemma length_gather [simp]: "length (gather axes xs) = length axes"
  by (simp add: gather_def)

lemma isPermutation_length: "isPermutation axes n \<Longrightarrow> length axes = n"
  by (simp add: isPermutation_def)

lemma gather_in_bounds:
  assumes "isPermutation axes (length sh)" and "length cs = length sh"
  shows "in_bounds (gather axes sh) (gather axes cs) \<longleftrightarrow> in_bounds sh cs"
  using gather_all_iff [OF assms(1), of "\<lambda>i. 0 \<le> cs ! i \<and> cs ! i < sh ! i"] assms
  by (simp add: in_bounds_def gather_def isPermutation_length)

lemma dot_gather:
  assumes "isPermutation axes (length ss)"
  shows "dot (gather axes cs) (gather axes ss) = dot cs ss"
  using sum.reindex_bij_betw [OF isPermutation_bij [OF assms], of "\<lambda>i. cs ! i * ss ! i"] assms
  by (simp add: dot_def gather_def isPermutation_length)

lemma mask_ok_gather:
  assumes "isPermutation axes (length ms)"
  shows "mask_ok (Some (gather axes ms)) (gather axes cs) \<longleftrightarrow> mask_ok (Some ms) cs"
  using gather_all_iff [OF assms, of "\<lambda>i. fst (ms ! i) \<le> cs ! i \<and> cs ! i < snd (ms ! i)"] assms
  by (simp add: mask_ok_def gather_def isPermutation_length)

lemma permute_unfold:
  assumes "permute v axes = Inr v'"
  shows "isPermutation axes (length (v_shape v))"
    and "create (gather axes (v_shape v)) (Some (gather axes (v_strides v))) (v_offset v)
           (map_option (gather axes) (v_mask v)) = Inr v'"
  using assms by (auto simp: permute_def gather_def [abs_def] split: if_splits)

lemma permute_shape: "permute v axes = Inr v' \<Longrightarrow> v_shape v' = gather axes (v_shape v)"
  using create_Some(3) [OF permute_unfold(2)] .

lemma permute_addr:
  assumes "wf_view v" and p: "permute v axes = Inr v'" and ib: "in_bounds (v_shape v) cs"
  shows "addr v' (gather axes cs) = addr v cs"
proof -
  note u = permute_unfold [OF p]
  have len: "length cs = length (v_shape v)" "length (v_strides v) = length (v_shape v)"
    "\<And>ms. v_mask v = Some ms \<Longrightarrow> length ms = length (v_shape v)"
    using assms by (auto simp: wf_view_def mask_wf_def in_bounds_length)
  have "addr v' (gather axes cs) =
    affine (gather axes (v_strides v)) (v_offset v) (map_option (gather axes) (v_mask v)) (gather axes cs)"
    using u(1) len ib by (intro create_affine [OF u(2)]) (auto simp: gather_in_bounds isPermutation_length)
  also have "\<dots> = affine (v_strides v) (v_offset v) (v_mask v) cs"
    using u(1) len by (cases "v_mask v") (auto simp: affine_def dot_gather mask_ok_gather)
  finally show ?thesis using assms(1) len by (simp add: wf_addr)
qed

lemma permute_wf [inv_intros]:
  assumes "wf_view v" and "permute v axes = Inr v'"
  shows "wf_view v'"
proof (rule create_wf [OF permute_unfold(2) [OF assms(2)]])
  note pm = permute_unfold(1) [OF assms(2)]
  have "mask_within (v_shape v) (v_mask v)"
    using assms(1) by (auto simp: wf_view_def mask_wf_def mask_within_def split: option.splits)
  then show "mask_within (gather axes (v_shape v)) (map_option (gather axes) (v_mask v))"
  proof (cases "v_mask v")
    case (Some ms)
    have "mask_within (v_shape v) (Some ms)"
      using \<open>mask_within (v_shape v) (v_mask v)\<close> Some by simp
    then show ?thesis
      using gather_all_iff [OF pm, of "\<lambda>i. fst (ms ! i) < snd (ms ! i) \<longrightarrow>
              0 \<le> fst (ms ! i) \<and> snd (ms ! i) \<le> v_shape v ! i"] Some pm
      by (simp add: mask_within_def gather_def isPermutation_length)
  qed (simp add: mask_within_def)
qed

lemma gather_live: "isPermutation axes (length sh) \<Longrightarrow> live sh \<Longrightarrow> live (gather axes sh)"
  by (auto simp: isPermutation_iff live_def gather_def list_all_iff)

lemma permute_result:
  assumes "wf_view v"
  shows "\<not> isPermutation axes (length (v_shape v)) \<Longrightarrow> permute v axes = Inl ErrAxis"
    and "isPermutation axes (length (v_shape v)) \<Longrightarrow> \<exists>v'. permute v axes = Inr v'"
proof -
  show "permute v axes = Inl ErrAxis" if "\<not> isPermutation axes (length (v_shape v))"
    using that by (simp add: permute_def)
  assume pm: "isPermutation axes (length (v_shape v))"
  then have "\<exists>v'. create (gather axes (v_shape v)) (Some (gather axes (v_strides v))) (v_offset v)
       (map_option (gather axes) (v_mask v)) = Inr v'"
    using assms by (intro create_total) (auto simp: gather_live wf_view_def)
  then show "\<exists>v'. permute v axes = Inr v'"
    using pm by (simp add: permute_def gather_def [abs_def])
qed


section \<open>Pointwise coordinate maps\<close>

lemma sum_list_zip:
  "length xs = length ys \<Longrightarrow> (\<Sum>p \<leftarrow> zip xs ys. f p) = (\<Sum>i < length ys. f (xs ! i, ys ! i))"
  by (simp add: sum_list_sum_nth atLeast0LessThan)

lemma wf_lengths:
  assumes "wf_view v"
  shows "length (v_strides v) = length (v_shape v)"
    and "\<And>ms. v_mask v = Some ms \<Longrightarrow> length ms = length (v_shape v)"
  using assms by (auto simp: wf_view_def mask_wf_def)

lemma wf_mask_within: "wf_view v \<Longrightarrow> mask_within (v_shape v) (v_mask v)"
  by (auto simp: wf_view_def mask_wf_def mask_within_def split: option.splits)

section \<open>Expansion\<close>

text \<open>A broadcast axis is read at coordinate zero.\<close>

definition unexpand :: "shape \<Rightarrow> shape \<Rightarrow> int list \<Rightarrow> int list" where
  "unexpand old new cs = map2 (\<lambda>(s, t) c. if s \<noteq> t then 0 else c) (zip old new) cs"

lemma expand_guards:
  assumes "expand v sh = Inr v'"
  shows "length sh = length (v_shape v)"
    and "\<And>i. i < length sh \<Longrightarrow> v_shape v ! i \<noteq> sh ! i \<Longrightarrow> v_shape v ! i = 1"
  using assms by (auto simp: expand_def list_ex_length split: if_splits)

definition expand_mask :: "shape \<Rightarrow> shape \<Rightarrow> span list \<Rightarrow> span list" where
  "expand_mask old new ms =
     map2 (\<lambda>(s, t) m. if s \<noteq> t then (if m \<noteq> (0, 1) then (0, 0) else (0, t)) else m) (zip old new) ms"

lemma expand_unfold:
  assumes "expand v sh = Inr v'" and "\<not> HasZero (v_shape v)"
  shows "create sh (Some (v_strides v)) (v_offset v)
           (map_option (expand_mask (v_shape v) sh) (v_mask v)) = Inr v'"
  using assms by (auto simp: expand_def expand_mask_def [abs_def] split: if_splits)

lemma expand_zero:
  assumes "expand v sh = Inr v'" and "HasZero (v_shape v)"
  shows "create sh None 0 None = Inr v'" and "HasZero sh"
proof -
  show "create sh None 0 None = Inr v'"
    using assms by (auto simp: expand_def split: if_splits)
  obtain i where "i < length (v_shape v)" "v_shape v ! i = 0"
    using assms(2) by (auto simp: in_set_conv_nth)
  then show "HasZero sh"
    using expand_guards [OF assms(1)] by (auto simp: in_set_conv_nth) (metis zero_neq_one)
qed

lemma expand_shape: "expand v sh = Inr v' \<Longrightarrow> v_shape v' = sh"
  using create_Some(3) expand_unfold expand_zero(1) create_None by metis

lemma unexpand_in_bounds:
  assumes "expand v sh = Inr v'" and "in_bounds sh cs"
  shows "in_bounds (v_shape v) (unexpand (v_shape v) sh cs)"
  using assms(2) expand_guards(1) [OF assms(1)]
  by (auto simp: in_bounds_def unexpand_def dest!: expand_guards(2) [OF assms(1), rotated])

lemma mask_ok_expand:
  assumes "mask_wf (v_shape v) (Some ms)" and "expand v sh = Inr v'" and "in_bounds sh cs"
  shows "mask_ok (Some (expand_mask (v_shape v) sh ms)) cs \<longleftrightarrow>
         mask_ok (Some ms) (unexpand (v_shape v) sh cs)"
proof -
  note g = expand_guards [OF assms(2)]
  have len: "length ms = length sh" "length cs = length sh"
    using assms g by (simp_all add: mask_wf_def in_bounds_length)
  have "fst (expand_mask (v_shape v) sh ms ! i) \<le> cs ! i \<and> cs ! i < snd (expand_mask (v_shape v) sh ms ! i)
    \<longleftrightarrow> fst (ms ! i) \<le> unexpand (v_shape v) sh cs ! i \<and> unexpand (v_shape v) sh cs ! i < snd (ms ! i)"
    if i: "i < length sh" for i
  proof (cases "v_shape v ! i = sh ! i")
    case True
    then show ?thesis using i len g by (simp add: expand_mask_def unexpand_def)
  next
    case False
    then have "v_shape v ! i = 1" using g i by blast
    then have "ms ! i = (0, 0) \<or> ms ! i = (0, 1)"
      using assms(1) i g by (auto simp: mask_wf_def prod_eq_iff)
    then show ?thesis
      using False i len g in_bounds_nth [OF assms(3) i]
      by (auto simp: expand_mask_def unexpand_def)
  qed
  then show ?thesis using len g by (simp add: mask_ok_def expand_mask_def)
qed

lemma expand_addr:
  assumes wf: "wf_view v" and ex: "expand v sh = Inr v'" and ib: "in_bounds sh cs"
  shows "addr v' cs = addr v (unexpand (v_shape v) sh cs)"
proof -
  note g = expand_guards [OF ex] and len = wf_lengths [OF wf]
  have nz: "\<not> HasZero (v_shape v)" using expand_zero(2) [OF ex] in_bounds_no_zero [OF ib] by auto
  have "dot cs (v_strides v) = dot (unexpand (v_shape v) sh cs) (v_strides v)"
    unfolding dot_def
  proof (rule sum.cong [OF refl])
    fix i assume "i \<in> {..<length (v_strides v)}"
    then show "cs ! i * v_strides v ! i = unexpand (v_shape v) sh cs ! i * v_strides v ! i"
      using g len in_bounds_length [OF ib] wf by (auto simp: unexpand_def wf_view_def)
  qed
  moreover have "mask_ok (map_option (expand_mask (v_shape v) sh) (v_mask v)) cs \<longleftrightarrow>
      mask_ok (v_mask v) (unexpand (v_shape v) sh cs)"
    using wf mask_ok_expand [OF _ ex ib] by (cases "v_mask v") (auto simp: wf_view_def)
  moreover have "addr v' cs = affine (v_strides v) (v_offset v)
      (map_option (expand_mask (v_shape v) sh) (v_mask v)) cs"
    using g len by (intro create_affine [OF expand_unfold [OF ex nz] ib]) (auto simp: expand_mask_def)
  ultimately show ?thesis
    using unexpand_in_bounds [OF ex ib] wf by (simp add: wf_addr in_bounds_length affine_def)
qed

lemma expand_wf [inv_intros]:
  assumes wf: "wf_view v" and ex: "expand v sh = Inr v'"
  shows "wf_view v'"
proof (cases "HasZero (v_shape v)")
  case True
  then show ?thesis using expand_zero(1) [OF ex] create_contiguous_wf by blast
next
  case False
  note g = expand_guards [OF ex] and len = wf_lengths [OF wf]
  have "mask_within sh (map_option (expand_mask (v_shape v) sh) (v_mask v))"
    using wf_mask_within [OF wf] g len
    by (auto simp: mask_within_def expand_mask_def split: option.splits)
  then show ?thesis using create_wf [OF expand_unfold [OF ex False]] by blast
qed

lemma expand_result:
  assumes wf: "wf_view v" and "live sh"
  shows "(\<exists>v'. expand v sh = Inr v') \<longleftrightarrow>
     length sh = length (v_shape v) \<and>
     (\<forall>i < length sh. v_shape v ! i = sh ! i \<or> v_shape v ! i = 1)"
    and "\<And>e. expand v sh = Inl e \<Longrightarrow> e = ErrExpand"
proof -
  note len = wf_lengths [OF wf]
  have ok: "\<exists>v'. expand v sh = Inr v'"
    if g: "length sh = length (v_shape v)" "\<forall>i < length sh. v_shape v ! i = sh ! i \<or> v_shape v ! i = 1"
  proof -
    have "\<exists>v'. create sh (Some (v_strides v)) (v_offset v)
        (map_option (expand_mask (v_shape v) sh) (v_mask v)) = Inr v'"
      using assms len g by (intro create_total) (auto simp: expand_mask_def)
    then show ?thesis
      using create_contiguous_ok [OF assms(2)] g
      by (auto simp: expand_def expand_mask_def [abs_def] list_ex_length)
  qed
  then show iff: "(\<exists>v'. expand v sh = Inr v') \<longleftrightarrow>
     length sh = length (v_shape v) \<and>
     (\<forall>i < length sh. v_shape v ! i = sh ! i \<or> v_shape v ! i = 1)"
    using expand_guards by blast
  fix e assume e: "expand v sh = Inl e"
  then have "\<not> (length sh = length (v_shape v) \<and>
     (\<forall>i < length sh. v_shape v ! i = sh ! i \<or> v_shape v ! i = 1))"
    using ok by auto
  then have "expand v sh = Inl ErrExpand"
    by (auto simp: expand_def list_ex_length)
  then show "e = ErrExpand" using e by simp
qed

section \<open>Flipping\<close>

definition flip_coords :: "shape \<Rightarrow> bool list \<Rightarrow> int list \<Rightarrow> int list" where
  "flip_coords sh which cs = map2 (\<lambda>(f, d) c. if f then d - 1 - c else c) (zip which sh) cs"

definition flip_mask :: "shape \<Rightarrow> bool list \<Rightarrow> span list \<Rightarrow> span list" where
  "flip_mask sh which ms =
     map2 (\<lambda>f (d, (lo, hi)). if f then (d - hi, d - lo) else (lo, hi)) which (zip sh ms)"

definition flip_strides :: "bool list \<Rightarrow> int list \<Rightarrow> int list" where
  "flip_strides which ss = map2 (\<lambda>f s. if f then - s else s) which ss"

definition flip_offset :: "bool list \<Rightarrow> shape \<Rightarrow> int list \<Rightarrow> int" where
  "flip_offset which sh ss = (\<Sum>(f, d, s) \<leftarrow> zip which (zip sh ss). if f then (d - 1) * s else 0)"

lemma flip_unfold:
  assumes "flip v which = Inr v'"
  shows "length which = length (v_shape v)"
    and "create (v_shape v) (Some (flip_strides which (v_strides v)))
           (v_offset v + flip_offset which (v_shape v) (v_strides v))
           (map_option (flip_mask (v_shape v) which) (v_mask v)) = Inr v'"
  using assms
  by (auto simp: flip_def flip_mask_def [abs_def] flip_strides_def flip_offset_def split: if_splits)

lemma flip_shape: "flip v which = Inr v' \<Longrightarrow> v_shape v' = v_shape v"
  using create_Some(3) [OF flip_unfold(2)] .

lemma flip_coords_in_bounds:
  "length which = length sh \<Longrightarrow> in_bounds sh cs \<Longrightarrow> in_bounds sh (flip_coords sh which cs)"
  by (auto simp: in_bounds_def flip_coords_def)

lemma mask_ok_flip:
  assumes "length which = length sh" "length ms = length sh" "length cs = length sh"
  shows "mask_ok (Some (flip_mask sh which ms)) cs \<longleftrightarrow> mask_ok (Some ms) (flip_coords sh which cs)"
proof -
  have "fst (flip_mask sh which ms ! i) \<le> cs ! i \<and> cs ! i < snd (flip_mask sh which ms ! i) \<longleftrightarrow>
    fst (ms ! i) \<le> flip_coords sh which cs ! i \<and> flip_coords sh which cs ! i < snd (ms ! i)"
    if "i < length sh" for i
    using assms that by (cases "ms ! i") (auto simp: flip_mask_def flip_coords_def)
  then show ?thesis using assms by (simp add: mask_ok_def flip_mask_def)
qed

lemma dot_flip:
  assumes "length which = length sh" "length ss = length sh" "length cs = length sh"
  shows "flip_offset which sh ss + dot cs (flip_strides which ss) = dot (flip_coords sh which cs) ss"
  using assms
  by (auto simp: flip_offset_def dot_def flip_strides_def flip_coords_def sum_list_zip
      sum.distrib [symmetric] algebra_simps intro!: sum.cong)

lemma flip_addr:
  assumes wf: "wf_view v" and fl: "flip v which = Inr v'" and ib: "in_bounds (v_shape v) cs"
  shows "addr v' cs = addr v (flip_coords (v_shape v) which cs)"
proof -
  note u = flip_unfold [OF fl] and len = wf_lengths [OF wf] in_bounds_length [OF ib]
  have "addr v' cs = affine (flip_strides which (v_strides v))
      (v_offset v + flip_offset which (v_shape v) (v_strides v))
      (map_option (flip_mask (v_shape v) which) (v_mask v)) cs"
    using u(1) len by (intro create_affine [OF u(2) ib]) (auto simp: flip_mask_def)
  also have "\<dots> = affine (v_strides v) (v_offset v) (v_mask v) (flip_coords (v_shape v) which cs)"
    using u(1) len mask_ok_flip [of which "v_shape v" _ cs] dot_flip [of which "v_shape v" "v_strides v" cs]
    by (intro affine_cong) (cases "v_mask v"; simp; fail)+
  finally show ?thesis
    using flip_coords_in_bounds [OF u(1) ib] wf by (simp add: wf_addr in_bounds_length)
qed

lemma flip_wf [inv_intros]:
  assumes wf: "wf_view v" and fl: "flip v which = Inr v'"
  shows "wf_view v'"
proof (rule create_wf [OF flip_unfold(2) [OF fl]])
  show "mask_within (v_shape v) (map_option (flip_mask (v_shape v) which) (v_mask v))"
    using wf_mask_within [OF wf] flip_unfold(1) [OF fl]
    by (auto simp: mask_within_def flip_mask_def split_beta split: option.splits)
qed

lemma flip_result:
  assumes "wf_view v"
  shows "flip v which = Inl ErrAxis \<longleftrightarrow> length which \<noteq> length (v_shape v)"
    and "(\<exists>v'. flip v which = Inr v') \<longleftrightarrow> length which = length (v_shape v)"
proof -
  have "\<exists>v'. flip v which = Inr v'" if w: "length which = length (v_shape v)"
  proof -
    have "\<exists>v'. create (v_shape v) (Some (flip_strides which (v_strides v)))
           (v_offset v + flip_offset which (v_shape v) (v_strides v))
           (map_option (flip_mask (v_shape v) which) (v_mask v)) = Inr v'"
      using w assms wf_lengths [OF assms]
      by (intro create_total) (auto simp: flip_strides_def flip_mask_def wf_view_def)
    then show ?thesis
      using w by (auto simp: flip_def flip_mask_def [abs_def] flip_strides_def flip_offset_def)
  qed
  then show "flip v which = Inl ErrAxis \<longleftrightarrow> length which \<noteq> length (v_shape v)"
    and "(\<exists>v'. flip v which = Inr v') \<longleftrightarrow> length which = length (v_shape v)"
    by (auto simp: flip_def)
qed

section \<open>Windows: padding and shrinking\<close>

text \<open>
  \<open>resize\<close> moves the origin of axis \<open>i\<close> to \<open>arg[i][0]\<close>: the cell \<open>c\<close> of the new axis is the
  cell \<open>c + arg[i][0]\<close> of the old one.
\<close>

definition shift :: "span list \<Rightarrow> int list \<Rightarrow> int list" where
  "shift arg cs = map2 (\<lambda>(lo, _) c. c + lo) arg cs"

definition window_shape :: "span list \<Rightarrow> shape" where
  "window_shape arg = map (\<lambda>(a0, a1). a1 - a0) arg"

lemma resize_shape: "resize v arg m = Inr v' \<Longrightarrow> v_shape v' = window_shape arg"
  unfolding resize_def Let_def window_shape_def by (rule create_Some(3))

lemma dot_shift:
  assumes "length arg = length ss" "length cs = length ss"
  shows "(\<Sum>(a, s) \<leftarrow> zip arg ss. s * fst a) + dot cs ss = dot (shift arg cs) ss"
  using assms by (auto simp: dot_def shift_def sum_list_zip sum.distrib [symmetric] algebra_simps
      split_beta intro!: sum.cong)

definition window_mask :: "span list \<Rightarrow> span list \<Rightarrow> span list" where
  "window_mask arg vm = map2 (\<lambda>(a0, a1) (mx, my).
      (max 0 (min (mx - a0) (a1 - a0)), max 0 (min (my - a0) (a1 - a0)))) arg vm"

lemma window_mask_ok:
  assumes "length vm = length arg" and "in_bounds (window_shape arg) cs"
  shows "mask_ok (Some (window_mask arg vm)) cs \<longleftrightarrow> mask_ok (Some vm) (shift arg cs)"
proof -
  have len: "length cs = length arg" using assms by (simp add: in_bounds_def window_shape_def)
  have "fst (window_mask arg vm ! i) \<le> cs ! i \<and> cs ! i < snd (window_mask arg vm ! i) \<longleftrightarrow>
        fst (vm ! i) \<le> shift arg cs ! i \<and> shift arg cs ! i < snd (vm ! i)" if i: "i < length arg" for i
    using assms i len
    by (cases "arg ! i"; cases "vm ! i") (auto simp: window_mask_def shift_def in_bounds_def window_shape_def)
  then show ?thesis using assms by (simp add: mask_ok_def window_mask_def)
qed

definition meet_mask :: "span list \<Rightarrow> span list \<Rightarrow> span list" where
  "meet_mask nm ms = map2 (\<lambda>(l, h) (ml, mh). (max l ml, min h mh)) nm ms"

lemma meet_mask_ok:
  assumes "length nm = length ms"
  shows "mask_ok (Some (meet_mask nm ms)) cs \<longleftrightarrow> mask_ok (Some nm) cs \<and> mask_ok (Some ms) cs"
  using assms by (auto simp: mask_ok_def meet_mask_def split_beta)

lemma resize_addr:
  assumes wf: "wf_view v" and rs: "resize v arg m = Inr v'" and arg: "length arg = length (v_shape v)"
    and m: "\<And>ms. m = Some ms \<Longrightarrow> length ms = length arg"
    and ib: "in_bounds (window_shape arg) cs"
  shows "addr v' cs = (if mask_ok m cs then addr v (shift arg cs) else None)"
proof -
  note len = wf_lengths [OF wf]
  have lcs: "length cs = length arg" using ib by (simp add: in_bounds_def window_shape_def)
  let ?nm = "case v_mask v of None \<Rightarrow> m
      | Some vm \<Rightarrow> Some (case m of None \<Rightarrow> window_mask arg vm | Some ms \<Rightarrow> meet_mask (window_mask arg vm) ms)"
  have cr: "create (window_shape arg) (Some (v_strides v))
      (v_offset v + (\<Sum>(a, s) \<leftarrow> zip arg (v_strides v). s * fst a)) ?nm = Inr v'"
    using rs by (simp add: resize_def Let_def window_shape_def window_mask_def meet_mask_def cong: option.case_cong)
  have "mask_ok ?nm cs \<longleftrightarrow> mask_ok m cs \<and> mask_ok (v_mask v) (shift arg cs)"
    using arg len m window_mask_ok [OF _ ib]
    by (auto simp: meet_mask_ok window_mask_def split: option.splits)
  moreover have "addr v' cs = affine (v_strides v)
      (v_offset v + (\<Sum>(a, s) \<leftarrow> zip arg (v_strides v). s * fst a)) ?nm cs"
    using arg len m
    by (intro create_affine [OF cr ib]) (auto simp: window_shape_def window_mask_def meet_mask_def split: option.splits)
  moreover have "addr v (shift arg cs) = affine (v_strides v) (v_offset v) (v_mask v) (shift arg cs)"
    using arg lcs wf by (intro wf_addr) (auto simp: shift_def)
  moreover have "(\<Sum>(a, s) \<leftarrow> zip arg (v_strides v). s * fst a) + dot cs (v_strides v) = dot (shift arg cs) (v_strides v)"
    using arg len lcs by (intro dot_shift) auto
  ultimately show ?thesis by (auto simp: affine_def)
qed

lemma window_mask_within:
  assumes "length vm = length arg" and "live (window_shape arg)"
  shows "mask_within (window_shape arg) (Some (window_mask arg vm))"
  using assms
  by (auto simp: mask_within_def window_mask_def window_shape_def live_def list_all_length split_beta)

lemma window_mask_range:
  assumes "length vm = length arg" and "live (window_shape arg)" and "i < length arg"
  shows "0 \<le> fst (window_mask arg vm ! i) \<and> snd (window_mask arg vm ! i) \<le> window_shape arg ! i"
  using assms by (simp add: window_mask_def window_shape_def live_def list_all_length split_beta)

lemma meet_mask_within:
  assumes "mask_within sh (Some nm)" and "length ms = length sh"
    and "\<And>i. i < length sh \<Longrightarrow> 0 \<le> fst (nm ! i) \<and> snd (nm ! i) \<le> sh ! i"
  shows "mask_within sh (Some (meet_mask nm ms))"
  using assms by (simp add: mask_within_def meet_mask_def split_beta le_max_iff_disj min_le_iff_disj)

lemma resize_wf:
  assumes wf: "wf_view v" and rs: "resize v arg m = Inr v'" and arg: "length arg = length (v_shape v)"
    and m: "mask_within (window_shape arg) m"
  shows "wf_view v'"
proof -
  have l: "live (window_shape arg)"
    using rs unfolding resize_def Let_def window_shape_def by (rule create_Some(1))
  have wm: "mask_within (window_shape arg) (Some (window_mask arg vm))" if "v_mask v = Some vm" for vm
    using window_mask_within [OF _ l] wf_lengths(2) [OF wf that] arg by simp
  have "mask_within (window_shape arg) (Some (meet_mask (window_mask arg vm) ms))"
    if vm: "v_mask v = Some vm" and ms: "m = Some ms" for vm ms
  proof (rule meet_mask_within [OF wm [OF vm]])
    show "length ms = length (window_shape arg)" using m ms by (simp add: mask_within_def)
    show "0 \<le> fst (window_mask arg vm ! i) \<and> snd (window_mask arg vm ! i) \<le> window_shape arg ! i"
      if "i < length (window_shape arg)" for i
      using that wf_lengths(2) [OF wf vm] arg
      by (intro window_mask_range [OF _ l]) (simp_all add: window_shape_def)
  qed
  then have "mask_within (window_shape arg) (case v_mask v of None \<Rightarrow> m
      | Some vm \<Rightarrow> Some (case m of None \<Rightarrow> window_mask arg vm | Some ms \<Rightarrow> meet_mask (window_mask arg vm) ms))"
    using wm m by (auto split: option.splits)
  moreover have "create (window_shape arg) (Some (v_strides v))
      (v_offset v + (\<Sum>(a, s) \<leftarrow> zip arg (v_strides v). s * fst a))
      (case v_mask v of None \<Rightarrow> m
      | Some vm \<Rightarrow> Some (case m of None \<Rightarrow> window_mask arg vm | Some ms \<Rightarrow> meet_mask (window_mask arg vm) ms)) = Inr v'"
    using rs by (simp add: resize_def Let_def window_shape_def window_mask_def meet_mask_def cong: option.case_cong)
  ultimately show ?thesis by (intro create_wf)
qed

text \<open>Padding: a cell outside the old extents is a hole.\<close>

definition pad_window :: "span list \<Rightarrow> shape \<Rightarrow> span list" where
  "pad_window arg sh = map2 (\<lambda>(b, a) s. (- b, s + a)) arg sh"

definition pad_mask :: "span list \<Rightarrow> shape \<Rightarrow> span list" where
  "pad_mask arg sh = map2 (\<lambda>(b, a) s. (b, s + b)) arg sh"

definition padded_shape :: "span list \<Rightarrow> shape \<Rightarrow> shape" where
  "padded_shape arg sh = map2 (\<lambda>(b, a) s. b + s + a) arg sh"

definition unpad :: "span list \<Rightarrow> int list \<Rightarrow> int list" where
  "unpad arg cs = map2 (\<lambda>(b, _) c. c - b) arg cs"

lemma pad_cases:
  assumes "pad v arg = Inr v'"
  obtains (same) "length arg = length (v_shape v)" "\<And>i. i < length arg \<Longrightarrow> arg ! i = (0, 0)" "v' = v"
  | (resized) "length arg = length (v_shape v)"
      "\<And>i. i < length arg \<Longrightarrow> 0 \<le> fst (arg ! i) \<and> 0 \<le> snd (arg ! i)"
      "resize v (pad_window arg (v_shape v)) (Some (pad_mask arg (v_shape v))) = Inr v'"
proof -
  have g: "length arg = length (v_shape v)" "\<not> list_ex (\<lambda>(b, a). b < 0 \<or> a < 0) arg"
    using assms by (auto simp: pad_def split: if_splits)
  show ?thesis
  proof (cases "list_ex (\<lambda>(b, a). b \<noteq> 0 \<or> a \<noteq> 0) arg")
    case True
    show ?thesis
    proof (rule resized [OF g(1)])
      show "0 \<le> fst (arg ! i) \<and> 0 \<le> snd (arg ! i)" if "i < length arg" for i
        using g(2) that by (simp add: not_list_ex split_beta not_less)
      show "resize v (pad_window arg (v_shape v)) (Some (pad_mask arg (v_shape v))) = Inr v'"
        using assms g True by (simp add: pad_def pad_window_def pad_mask_def)
    qed
  next
    case False
    then show ?thesis
      using assms g not_list_ex [THEN iffD1, OF False]
      by (intro same) (auto simp: pad_def split_beta prod_eq_iff split: if_splits)
  qed
qed

lemma pad_guards:
  assumes "pad v arg = Inr v'"
  shows "length arg = length (v_shape v)"
    and "\<And>i. i < length arg \<Longrightarrow> 0 \<le> fst (arg ! i) \<and> 0 \<le> snd (arg ! i)"
  using assms by (auto elim!: pad_cases)

lemma window_shape_pad:
  "length arg = length sh \<Longrightarrow> window_shape (pad_window arg sh) = padded_shape arg sh"
  by (rule nth_equalityI) (auto simp: window_shape_def pad_window_def padded_shape_def split_beta)

lemma padded_shape_zero:
  "length arg = length sh \<Longrightarrow> (\<And>i. i < length arg \<Longrightarrow> arg ! i = (0, 0)) \<Longrightarrow> padded_shape arg sh = sh"
  by (rule nth_equalityI) (auto simp: padded_shape_def)

lemma unpad_zero:
  "length arg = length cs \<Longrightarrow> (\<And>i. i < length arg \<Longrightarrow> arg ! i = (0, 0)) \<Longrightarrow> unpad arg cs = cs"
  by (rule nth_equalityI) (auto simp: unpad_def)

lemma pad_shape:
  assumes "pad v arg = Inr v'"
  shows "v_shape v' = padded_shape arg (v_shape v)"
  using assms by (cases rule: pad_cases) (auto simp: padded_shape_zero resize_shape window_shape_pad)

lemma pad_addr:
  assumes wf: "wf_view v" and pd: "pad v arg = Inr v'"
    and ib: "in_bounds (padded_shape arg (v_shape v)) cs"
  shows "addr v' cs = (if in_bounds (v_shape v) (unpad arg cs) then addr v (unpad arg cs) else None)"
  using pd
proof (cases rule: pad_cases)
  case same
  then show ?thesis
    using ib in_bounds_length [OF ib] by (simp add: padded_shape_zero unpad_zero)
next
  case resized
  let ?sh = "v_shape v"
  have l: "length cs = length ?sh" using ib resized(1) by (simp add: in_bounds_def padded_shape_def)
  have "shift (pad_window arg ?sh) cs = unpad arg cs"
    using resized(1) l by (intro nth_equalityI) (auto simp: shift_def pad_window_def unpad_def split_beta)
  moreover have "mask_ok (Some (pad_mask arg ?sh)) cs \<longleftrightarrow> in_bounds ?sh (unpad arg cs)"
    using resized(1) l by (auto simp: mask_ok_def pad_mask_def in_bounds_def unpad_def split_beta)
  moreover have "addr v' cs = (if mask_ok (Some (pad_mask arg ?sh)) cs
      then addr v (shift (pad_window arg ?sh) cs) else None)"
    using resized ib by (intro resize_addr [OF wf resized(3)])
      (auto simp: window_shape_pad, auto simp: pad_window_def pad_mask_def)
  ultimately show ?thesis by simp
qed

lemma pad_wf [inv_intros]:
  assumes wf: "wf_view v" and pd: "pad v arg = Inr v'"
  shows "wf_view v'"
  using pd
proof (cases rule: pad_cases)
  case same
  then show ?thesis using wf by simp
next
  case resized
  have "mask_within (window_shape (pad_window arg (v_shape v))) (Some (pad_mask arg (v_shape v)))"
    using resized(1,2) by (auto simp: window_shape_pad mask_within_def padded_shape_def pad_mask_def split_beta)
  then show ?thesis
    using resized(1) by (intro resize_wf [OF wf resized(3)]) (auto simp: pad_window_def)
qed

text \<open>Shrinking.\<close>

lemma shrink_unfold:
  assumes "shrink v arg = Inr v'"
  shows "length arg = length (v_shape v)"
    and "\<And>i. i < length arg \<Longrightarrow> 0 \<le> fst (arg ! i) \<and> fst (arg ! i) \<le> snd (arg ! i) \<and> snd (arg ! i) \<le> v_shape v ! i"
    and "resize v arg None = Inr v'"
proof -
  have g: "length arg = length (v_shape v)"
    "\<not> list_ex (\<lambda>((lo, hi), s). lo < 0 \<or> hi < lo \<or> hi > s) (zip arg (v_shape v))"
    "resize v arg None = Inr v'"
    using assms by (auto simp: shrink_def split: if_splits)
  then show "length arg = length (v_shape v)" "resize v arg None = Inr v'" by simp_all
  show "0 \<le> fst (arg ! i) \<and> fst (arg ! i) \<le> snd (arg ! i) \<and> snd (arg ! i) \<le> v_shape v ! i"
    if "i < length arg" for i
    using g(1,2) that by (simp add: not_list_ex split_beta not_less)
qed

lemma shrink_shape: "shrink v arg = Inr v' \<Longrightarrow> v_shape v' = window_shape arg"
  using resize_shape [OF shrink_unfold(3)] .

lemma shift_in_bounds:
  assumes "shrink v arg = Inr v'" and "in_bounds (window_shape arg) cs"
  shows "in_bounds (v_shape v) (shift arg cs)"
  using assms(2) shrink_unfold(1,2) [OF assms(1)]
  by (fastforce simp: in_bounds_def window_shape_def shift_def split_beta)

lemma shrink_addr:
  assumes "wf_view v" and "shrink v arg = Inr v'" and "in_bounds (window_shape arg) cs"
  shows "addr v' cs = addr v (shift arg cs)"
  using resize_addr [OF assms(1) shrink_unfold(3,1) [OF assms(2)] _ assms(3)] by simp

lemma shrink_wf [inv_intros]: "wf_view v \<Longrightarrow> shrink v arg = Inr v' \<Longrightarrow> wf_view v'"
  using resize_wf [OF _ shrink_unfold(3,1)] by (simp add: mask_within_def)

text \<open>The guards are the only way to fail.\<close>

lemma resize_total:
  assumes wf: "wf_view v" and "length arg = length (v_shape v)" and "live (window_shape arg)"
    and "\<And>ms. m = Some ms \<Longrightarrow> length ms = length arg"
  shows "\<exists>v'. resize v arg m = Inr v'"
  unfolding resize_def Let_def
  using assms wf_lengths [OF wf]
  by (intro create_total) (auto simp: window_shape_def split: option.splits)

lemma pad_result:
  assumes wf: "wf_view v"
  shows "(\<exists>v'. pad v arg = Inr v') \<longleftrightarrow>
     length arg = length (v_shape v) \<and> (\<forall>i < length arg. 0 \<le> fst (arg ! i) \<and> 0 \<le> snd (arg ! i))"
proof -
  have "\<exists>v'. pad v arg = Inr v'"
    if a: "length arg = length (v_shape v)" "\<forall>i < length arg. 0 \<le> fst (arg ! i) \<and> 0 \<le> snd (arg ! i)"
  proof -
    have neg: "\<not> list_ex (\<lambda>(b, a). b < 0 \<or> a < 0) arg"
      using a by (simp add: not_list_ex split_beta not_less)
    have "live (padded_shape arg (v_shape v))"
      using a wf by (auto simp: wf_view_def live_def padded_shape_def list_all_length split_beta)
    then have "\<exists>v'. resize v (pad_window arg (v_shape v)) (Some (pad_mask arg (v_shape v))) = Inr v'"
      using a by (intro resize_total [OF wf]) (auto simp: window_shape_pad, auto simp: pad_window_def pad_mask_def)
    then show ?thesis
      using a neg by (simp add: pad_def pad_window_def pad_mask_def)
  qed
  then show ?thesis using pad_guards by blast
qed

lemma shrink_result:
  assumes wf: "wf_view v"
  shows "(\<exists>v'. shrink v arg = Inr v') \<longleftrightarrow>
     length arg = length (v_shape v) \<and>
     (\<forall>i < length arg. 0 \<le> fst (arg ! i) \<and> fst (arg ! i) \<le> snd (arg ! i) \<and> snd (arg ! i) \<le> v_shape v ! i)"
proof -
  have "\<exists>v'. shrink v arg = Inr v'"
    if a: "length arg = length (v_shape v)"
      "\<forall>i < length arg. 0 \<le> fst (arg ! i) \<and> fst (arg ! i) \<le> snd (arg ! i) \<and> snd (arg ! i) \<le> v_shape v ! i"
  proof -
    have "live (window_shape arg)" using a by (auto simp: live_def window_shape_def list_all_length split_beta)
    then have "\<exists>v'. resize v arg None = Inr v'" using a by (intro resize_total [OF wf]) auto
    moreover have "\<not> list_ex (\<lambda>((lo, hi), s). lo < 0 \<or> hi < lo \<or> hi > s) (zip arg (v_shape v))"
      using a by (simp add: not_list_ex split_beta not_less)
    ultimately show ?thesis using a(1) by (auto simp: shrink_def)
  qed
  then show ?thesis using shrink_unfold(1,2) by blast
qed

end
