(* ===== verification/NdReshape.thy ===== *)
theory NdReshape
  imports NdMove
begin

text \<open>
  Reshaping of one view, \<open>mergeDims\<close>, \<open>reshapeMask\<close> and \<open>view.reshape\<close> of
  \<open>x/ndarray/view.go\<close>: the axes of the old shape are merged into blocks with one stride,
  each block is cut into the new axes, and the mask is carried over when it stays a box.
  The attempt fails (\<^const>\<open>None\<close>) when the new shape cuts across a block; the tracker then
  stacks a second view.
\<close>

section \<open>The model\<close>

record merged =
  md_size :: int
  md_stride :: int
  md_real :: int

text \<open>The mask entry of each axis, if the view has a mask.\<close>

definition axis_masks :: "span list option \<Rightarrow> nat \<Rightarrow> span option list" where
  "axis_masks msk n = (case msk of None \<Rightarrow> replicate n None | Some ms \<Rightarrow> map Some ms)"

definition merging_after :: "int \<Rightarrow> span option \<Rightarrow> bool" where
  "merging_after sz m = (case m of None \<Rightarrow> sz = 1 | Some (lo, hi) \<Rightarrow> hi - lo = 1)"

text \<open>\<open>ret\<close> is kept last block first.\<close>

fun merge_loop :: "(int \<times> int \<times> span option) list \<Rightarrow> merged list \<Rightarrow> bool \<Rightarrow> merged list" where
  "merge_loop [] ret merging = ret"
| "merge_loop ((sz, stride, m) # axes) ret merging =
     (if sz = 1 then merge_loop axes ret merging
      else
        (case ret of
           [] \<Rightarrow> []
         | lst # rest \<Rightarrow>
             if merging \<or> md_stride lst = sz * stride
             then merge_loop axes
                    (\<lparr>md_size = md_size lst * sz, md_stride = stride,
                      md_real = (if merging then sz else md_real lst * sz)\<rparr> # rest)
                    (merging_after sz m)
             else merge_loop axes
                    (\<lparr>md_size = sz, md_stride = stride, md_real = sz\<rparr> # lst # rest)
                    (merging_after sz m)))"

definition mergeDims :: "shape \<Rightarrow> int list \<Rightarrow> span list option \<Rightarrow> merged list" where
  "mergeDims shape strides msk =
     (case zip shape (zip strides (axis_masks msk (length shape))) of
        [] \<Rightarrow> []
      | (sz, stride, m) # axes \<Rightarrow>
          rev (merge_loop axes
                 [\<lparr>md_size = sz, md_stride = stride, md_real = (if stride = 0 then 0 else sz)\<rparr>]
                 (merging_after sz m)))"

text \<open>
  The loop of \<open>reshapeMask\<close> pops the reversed shapes and masks with a default; \<open>need\<close> is the
  number of entries still to emit. The outer \<^typ>\<open>'a option\<close> is \<^const>\<open>None\<close> when the loop does not
  end, the inner one is \<^const>\<open>None\<close> when the mask does not stay a box.
\<close>

definition pop :: "'a list \<Rightarrow> 'a \<Rightarrow> 'a \<times> 'a list" where
  "pop s d = (case s of [] \<Rightarrow> (d, []) | x # xs \<Rightarrow> (x, xs))"

partial_function (option) reshapeMask_loop ::
  "nat \<Rightarrow> span list \<Rightarrow> int list \<Rightarrow> int list \<Rightarrow> span list \<Rightarrow> int \<Rightarrow> int \<Rightarrow> int \<Rightarrow> span
   \<Rightarrow> span list option option" where
  "reshapeMask_loop need out rShape rNew rMasks cur oldDim newDim m =
     (if need = 0 then Some (Some (rev out))
      else
        (let l = fst m; r = snd m; next = newDim * cur in
         if oldDim = next then
           (let (oldDim', rShape') = pop rShape 1;
                (newDim', rNew') = pop rNew 1;
                (m', rMasks') = pop rMasks (0, 1)
            in reshapeMask_loop (need - 1) (out @ [(go_div l cur, go_div (r - 1) cur + 1)])
                 rShape' rNew' rMasks' 1 oldDim' newDim' m')
         else if oldDim > next then
           (if next = 0 \<or> go_mod oldDim next \<noteq> 0 then Some None
            else if (go_mod l next \<noteq> 0 \<or> go_mod r next \<noteq> 0) \<and> go_div l next \<noteq> go_div (r - 1) next
            then Some None
            else
              (let (newDim', rNew') = pop rNew 1
               in reshapeMask_loop (need - 1)
                    (out @ [(go_div (go_mod l next) cur, go_div (go_mod (r - 1) next) cur + 1)])
                    rShape rNew' rMasks next oldDim newDim' m))
         else
           (let (nextM, rMasks') = pop rMasks (0, 1) in
            if m \<noteq> (0, oldDim) \<and> l \<noteq> r \<and> snd nextM - fst nextM \<noteq> 1 then Some None
            else
              (let (d, rShape') = pop rShape 1
               in reshapeMask_loop need out rShape' rNew rMasks' cur (oldDim * d) newDim
                    (fst nextM * oldDim + l, (snd nextM - 1) * oldDim + r)))))"

declare reshapeMask_loop.simps [code]

definition reshapeMask ::
  "span list option \<Rightarrow> shape \<Rightarrow> shape \<Rightarrow> span list option option option" where
  "reshapeMask msk oldShape newShape =
     (case msk of
        None \<Rightarrow> Some (Some (Some (map (\<lambda>s. (0, s)) newShape)))
      | Some ms \<Rightarrow>
          if newShape = [] then Some (Some None)
          else
            (let (oldDim, rShape) = pop (rev oldShape) 1;
                 (newDim, rNew) = pop (rev newShape) 1;
                 (m, rMasks) = pop (rev ms) (0, 1)
             in map_option (map_option Some)
                  (reshapeMask_loop (length newShape) [] rShape rNew rMasks 1 oldDim newDim m)))"

text \<open>
  The inner loop of \<open>reshape\<close>: cut one block into the next axes of the reversed new shape.
  It returns the product reached, the axes left and the strides appended.
\<close>

fun fill_loop :: "int \<Rightarrow> int \<Rightarrow> int \<Rightarrow> int \<Rightarrow> int list \<Rightarrow> int list \<Rightarrow> int \<times> int list \<times> int list" where
  "fill_loop sz real stride acc rNew rStrides =
     (if acc \<le> sz \<and> acc \<noteq> sz
      then (case rNew of
              [] \<Rightarrow> (acc, rNew, rStrides)
            | newDim # rest \<Rightarrow>
                if newDim \<le> 0 then (acc, rNew, rStrides)
                else fill_loop sz real (if acc * newDim \<ge> real then 0 else stride)
                       (acc * newDim) rest (rStrides @ [stride * acc]))
      else (acc, rNew, rStrides))"

fun blocks_loop :: "merged list \<Rightarrow> int list \<Rightarrow> int list \<Rightarrow> int list option" where
  "blocks_loop [] rNew rStrides = Some rStrides"
| "blocks_loop (md # mds) rNew rStrides =
     (let (acc, rNew', rStrides') = fill_loop (md_size md) (md_real md) (md_stride md) 1 rNew rStrides
      in if acc \<noteq> md_size md then None else blocks_loop mds rNew' rStrides')"

definition reversed :: "int list \<Rightarrow> int list" where
  "reversed s = rev s"

definition of_result :: "'e + 'a \<Rightarrow> 'a option" where
  "of_result r = (case r of Inl _ \<Rightarrow> None | Inr x \<Rightarrow> Some x)"

definition reshape_strides :: "view \<Rightarrow> shape \<Rightarrow> int list option" where
  "reshape_strides v newShape =
     map_option (\<lambda>rStrides.
         replicate (length newShape - length rStrides) 0 @ reversed rStrides)
       (blocks_loop (rev (mergeDims (v_shape v) (v_strides v) (v_mask v))) (rev newShape) [])"

text \<open>The outer \<^typ>\<open>'a option\<close> is that of the mask loop, the inner one the \<open>bool\<close> of the code.\<close>

definition reshape :: "view \<Rightarrow> shape \<Rightarrow> view option option" where
  "reshape v newShape =
     (if v_shape v = newShape then Some (Some v)
      else if HasZero (v_shape v) then Some (of_result (create newShape None 0 None))
      else if newShape = [] \<and> (case v_mask v of None \<Rightarrow> False | Some ms \<Rightarrow> list_ex (\<lambda>(lo, hi). lo = hi) ms)
      then Some None
      else if contiguous v then Some (of_result (create newShape None 0 None))
      else
        (case reshape_strides v newShape of
           None \<Rightarrow> Some None
         | Some newStrides \<Rightarrow>
             (case reshapeMask (v_mask v) (v_shape v) newShape of
                None \<Rightarrow> None
              | Some None \<Rightarrow> Some None
              | Some (Some newMask) \<Rightarrow>
                  (let extra = (case v_mask v of None \<Rightarrow> 0
                          | Some ms \<Rightarrow> (\<Sum>(m, s) \<leftarrow> zip ms (v_strides v). fst m * s));
                       less = (case newMask of None \<Rightarrow> 0
                          | Some ms \<Rightarrow> (\<Sum>(m, s) \<leftarrow> zip ms newStrides. fst m * s))
                   in Some (of_result (create newShape (Some newStrides)
                              (v_offset v + (extra - less)) newMask))))))"

section \<open>Mixed-radix digits\<close>

text \<open>
  The cell number \<open>k\<close> is read as digits, lowest axis first; \<open>digit_sum\<close> is the offset a list
  of (radix, stride) pairs gives it. Old axes, merged blocks and new axes are all compared
  through it.
\<close>

fun digit_sum :: "(int \<times> int) list \<Rightarrow> int \<Rightarrow> int" where
  "digit_sum [] k = 0"
| "digit_sum ((d, s) # ds) k = (k mod d) * s + digit_sum ds (k div d)"

lemma digit_sum_append:
  assumes "\<And>p. p \<in> set xs \<Longrightarrow> 0 < fst p" and "0 \<le> k"
  shows "digit_sum (xs @ ys) k = digit_sum xs k + digit_sum ys (k div prod_list (map fst xs))"
  using assms
proof (induction xs arbitrary: k)
  case (Cons p xs)
  obtain d s where p: "p = (d, s)" by (cases p)
  have d: "0 < d" "0 \<le> k div d" using Cons.prems(1) [of p] Cons.prems(2) p
    by (auto simp: pos_imp_zdiv_nonneg_iff)
  have "0 \<le> prod_list (map fst xs)"
    using Cons.prems(1) by (intro prod_list_nonneg) (auto simp: list_all_iff less_imp_le)
  then have "k div (d * prod_list (map fst xs)) = k div d div prod_list (map fst xs)"
    by (simp add: zdiv_zmult2_eq)
  then show ?case
    using Cons.IH [OF _ d(2)] Cons.prems(1) p by simp
qed simp

lemma digit_sum_zero: "list_all (\<lambda>p. snd p = 0) xs \<Longrightarrow> digit_sum xs k = 0"
  by (induction xs k rule: digit_sum.induct) auto

lemma dot_append: "length cs = length ss \<Longrightarrow> dot (cs @ cs') (ss @ ss') = dot cs ss + dot cs' ss'"
  by (induction cs ss rule: list_induct2) auto

lemma in_bounds_append:
  "length cs = length ds \<Longrightarrow> in_bounds (ds @ ds') (cs @ cs') \<longleftrightarrow> in_bounds ds cs \<and> in_bounds ds' cs'"
  by (induction cs ds rule: list_induct2) auto

lemma ravel_append:
  "length cs = length ds \<Longrightarrow> length cs' = length ds' \<Longrightarrow>
   ravel (ds @ ds') (cs @ cs') = ravel ds cs * prod_list ds' + ravel ds' cs'"
  by (induction cs ds rule: list_induct2) (auto simp: algebra_simps)

lemma digit_sum_dot:
  assumes "in_bounds sh cs" and "length ss = length sh"
  shows "digit_sum (zip (rev sh) (rev ss)) (ravel sh cs) = dot cs ss"
  using assms
proof (induction sh arbitrary: cs ss rule: rev_induct)
  case Nil
  then show ?case by simp
next
  case (snoc d ds)
  from snoc.prems obtain cs' c where cs: "cs = cs' @ [c]" "length cs' = length ds"
    by (cases cs rule: rev_cases) (auto simp: in_bounds_def)
  from snoc.prems obtain ss' s where ss: "ss = ss' @ [s]" "length ss' = length ds"
    by (cases ss rule: rev_cases) auto
  have ib: "in_bounds ds cs'" "0 \<le> c" "c < d"
    using snoc.prems cs by (auto simp: in_bounds_append)
  then show ?case
    using snoc.IH [OF ib(1) ss(2)] cs ss by (simp add: ravel_append dot_append)
qed

section \<open>Merged blocks\<close>

definition blocks_sum :: "merged list \<Rightarrow> int \<Rightarrow> int" where
  "blocks_sum bs k = digit_sum (map (\<lambda>b. (md_size b, md_stride b)) bs) k"

text \<open>
  Without a mask a block is linear over its whole size: \<open>real\<close> limits nothing, or the
  stride is zero already.
\<close>

definition block_ok :: "merged \<Rightarrow> bool" where
  "block_ok b \<longleftrightarrow> 0 < md_size b \<and> (md_stride b = 0 \<or> md_real b = md_size b)"

lemma blocks_sum_Cons:
  "blocks_sum (b # bs) k = (k mod md_size b) * md_stride b + blocks_sum bs (k div md_size b)"
  by (simp add: blocks_sum_def)

lemma merge_step_value:
  fixes k B d c t :: int
  assumes "0 < B" "0 < d" "0 \<le> c" "c < d" "0 \<le> k"
  shows "(k * d + c) mod (B * d) = (k mod B) * d + c" and "(k * d + c) div (B * d) = k div B"
proof -
  have "(k * d + c) div (B * d) = (k * d + c) div d div B"
    using assms by (simp add: mult.commute [of B] zdiv_zmult2_eq)
  then show q: "(k * d + c) div (B * d) = k div B" using assms by simp
  have "(k * d + c) mod (B * d) = (k * d + c) - (B * d) * ((k * d + c) div (B * d))"
    by (simp add: minus_mult_div_eq_mod)
  also have "\<dots> = (k - B * (k div B)) * d + c" using q by (simp add: algebra_simps)
  finally show "(k * d + c) mod (B * d) = (k mod B) * d + c" by (simp add: minus_mult_div_eq_mod)
qed

text \<open>
  The loop invariant: the blocks give the cell number \<open>k\<close> of the axes read so far the offset
  \<open>off\<close> of their coordinates.
\<close>

definition merge_inv :: "merged list \<Rightarrow> int \<Rightarrow> int \<Rightarrow> int \<Rightarrow> bool" where
  "merge_inv ret k off P \<longleftrightarrow>
     ret \<noteq> [] \<and> (\<forall>b \<in> set ret. block_ok b) \<and> prod_list (map md_size ret) = P \<and> blocks_sum ret k = off"

lemma merge_inv_join:
  assumes "merge_inv (b # bs) k off P" and "0 < d" "0 \<le> c" "c < d" "0 \<le> k"
    and "merging \<and> md_size b = 1 \<or> \<not> merging \<and> md_stride b = d * t"
  shows "merge_inv (\<lparr>md_size = md_size b * d, md_stride = t,
            md_real = (if merging then d else md_real b * d)\<rparr> # bs) (k * d + c) (off + c * t) (P * d)"
proof -
  have b: "0 < md_size b" using assms(1) by (simp add: merge_inv_def block_ok_def)
  have st: "k mod md_size b * md_stride b = k mod md_size b * d * t"
    using assms(6) by (auto simp: mult.assoc)
  have "blocks_sum (\<lparr>md_size = md_size b * d, md_stride = t, md_real = x\<rparr> # bs) (k * d + c) = off + c * t" for x
  proof -
    have "blocks_sum (\<lparr>md_size = md_size b * d, md_stride = t, md_real = x\<rparr> # bs) (k * d + c)
      = k mod md_size b * d * t + c * t + blocks_sum bs (k div md_size b)"
      using assms(2-5) b by (simp add: blocks_sum_Cons merge_step_value distrib_right)
    also have "\<dots> = k mod md_size b * md_stride b + c * t + blocks_sum bs (k div md_size b)"
      by (simp only: st)
    also have "\<dots> = off + c * t" using assms(1) by (simp add: merge_inv_def blocks_sum_Cons)
    finally show ?thesis .
  qed
  moreover have "block_ok \<lparr>md_size = md_size b * d, md_stride = t,
            md_real = (if merging then d else md_real b * d)\<rparr>"
    using assms b by (auto simp: merge_inv_def block_ok_def)
  ultimately show ?thesis using assms(1) by (simp add: merge_inv_def algebra_simps)
qed

lemma merge_inv_push:
  assumes "merge_inv ret k off P" and "0 < d" "0 \<le> c" "c < d" "0 \<le> k"
  shows "merge_inv (\<lparr>md_size = d, md_stride = t, md_real = d\<rparr> # ret) (k * d + c) (off + c * t) (P * d)"
  using assms by (simp add: merge_inv_def blocks_sum_Cons block_ok_def)

lemma merge_loop_sound:
  assumes "merge_inv ret k off P" and "merging \<Longrightarrow> md_size (hd ret) = 1"
    and "length ss = length ds" and "in_bounds ds cs" and "0 \<le> k"
    and "\<And>i. i < length ds \<Longrightarrow> ds ! i = 1 \<Longrightarrow> ss ! i = 0"
  shows "merge_inv (merge_loop (zip ds (zip ss (replicate (length ds) None))) ret merging)
           (k * prod_list ds + ravel ds cs) (off + dot cs ss) (P * prod_list ds)"
  using assms
proof (induction ds arbitrary: ret ss cs k off P merging)
  case Nil
  then show ?case by simp
next
  case (Cons d ds)
  from Cons.prems(3) obtain s ss' where ss: "ss = s # ss'" "length ss' = length ds"
    by (cases ss) auto
  from Cons.prems(4) obtain c cs' where cs: "cs = c # cs'" "0 \<le> c" "c < d" "in_bounds ds cs'" by auto
  obtain b bs where ret: "ret = b # bs" using Cons.prems(1) by (cases ret) (auto simp: merge_inv_def)
  have one: "ss' ! i = 0" if "i < length ds" "ds ! i = 1" for i
    using Cons.prems(6) [of "Suc i"] that ss(1) by simp
  note IH = Cons.IH [OF _ _ ss(2) cs(4) _ one]
  have k: "0 \<le> k * d + c" using Cons.prems(5) cs by simp
  have eqs: "(k * d + c) * prod_list ds + ravel ds cs' = k * prod_list (d # ds) + ravel (d # ds) cs"
    "off + c * s + dot cs' ss' = off + dot cs ss" "P * d * prod_list ds = P * prod_list (d # ds)"
    using cs ss by (simp_all add: algebra_simps)
  show ?case
  proof (cases "d = 1")
    case True
    then have "c = 0" "s = 0" using cs ss Cons.prems(6) [of 0] by auto
    moreover have "merge_inv (merge_loop (zip ds (zip ss' (replicate (length ds) None))) ret merging)
        (k * prod_list ds + ravel ds cs') (off + dot cs' ss') (P * prod_list ds)"
      by (rule IH) (fact Cons.prems)+
    ultimately show ?thesis using True ss(1) cs(1) by simp
  next
    case False
    then have after: "merging_after d None = False" by (simp add: merging_after_def)
    show ?thesis
    proof (cases "merging \<or> md_stride b = d * s")
      case True
      then have "merging \<and> md_size b = 1 \<or> \<not> merging \<and> md_stride b = d * s"
        using Cons.prems(2) ret by auto
      then have "merge_inv (\<lparr>md_size = md_size b * d, md_stride = s,
            md_real = (if merging then d else md_real b * d)\<rparr> # bs) (k * d + c) (off + c * s) (P * d)"
        using Cons.prems(1,5) cs ret by (intro merge_inv_join) auto
      from IH [OF this _ k] show ?thesis
        using True False ret ss after eqs by simp
    next
      case F: False
      have "merge_inv (\<lparr>md_size = d, md_stride = s, md_real = d\<rparr> # ret) (k * d + c) (off + c * s) (P * d)"
        using Cons.prems(1,5) cs by (intro merge_inv_push) auto
      from IH [OF this _ k] show ?thesis
        using F False ret ss after eqs by simp
    qed
  qed
qed

lemma mergeDims_sound:
  assumes "in_bounds sh cs" and "length ss = length sh" and "sh \<noteq> []"
    and "\<And>i. i < length sh \<Longrightarrow> sh ! i = 1 \<Longrightarrow> ss ! i = 0"
  shows "merge_inv (rev (mergeDims sh ss None)) (ravel sh cs) (dot cs ss) (prod_list sh)"
proof -
  from assms(1-3) obtain d ds s ss' c cs' where *: "sh = d # ds" "ss = s # ss'" "cs = c # cs'"
    "length ss' = length ds" "0 \<le> c" "c < d" "in_bounds ds cs'"
    by (cases sh; cases ss) auto
  let ?b = "\<lparr>md_size = d, md_stride = s, md_real = (if s = 0 then 0 else d)\<rparr>"
  have "merge_inv [?b] c (c * s) d"
    using * by (simp add: merge_inv_def blocks_sum_def block_ok_def)
  moreover have "ss' ! i = 0" if "i < length ds" "ds ! i = 1" for i
    using assms(4) [of "Suc i"] that *(1,2) by simp
  ultimately have "merge_inv (merge_loop (zip ds (zip ss' (replicate (length ds) None))) [?b] (merging_after d None))
      (c * prod_list ds + ravel ds cs') (c * s + dot cs' ss') (d * prod_list ds)"
    using * by (intro merge_loop_sound) (auto simp: merging_after_def)
  then show ?thesis using * by (simp add: mergeDims_def axis_masks_def)
qed

section \<open>Cutting the blocks\<close>

lemma fill_loop_sound:
  assumes "fill_loop B R st acc rNew rS = (B, rNew', rS')"
    and "s = 0 \<or> R = B" and "st = s \<or> R \<le> acc" and "0 < acc" and "acc \<le> B" and "s = 0 \<Longrightarrow> st = 0"
  shows "\<exists>ds ts. rNew = ds @ rNew' \<and> rS' = rS @ ts \<and> length ts = length ds \<and> list_all (\<lambda>d. 0 < d) ds \<and>
           acc * prod_list ds = B \<and>
           (\<forall>k \<ge> 0. digit_sum (zip ds ts) k = (k mod prod_list ds) * (s * acc))"
  using assms
proof (induction rNew arbitrary: st acc rS)
  case Nil
  then show ?case by (auto split: if_splits)
next
  case (Cons d rNew)
  show ?case
  proof (cases "acc = B")
    case True
    then show ?thesis using Cons.prems by (intro exI [of _ "[]"]) auto
  next
    case False
    then have st: "st = s" using Cons.prems by auto
    have d: "0 < d" and rec: "fill_loop B R (if acc * d \<ge> R then 0 else s) (acc * d) rNew (rS @ [s * acc]) = (B, rNew', rS')"
      using Cons.prems False st by (auto split: if_splits)
    have le: "acc * d \<le> B"
      using rec by (cases "acc * d \<le> B") (auto simp del: fill_loop.simps simp: fill_loop.simps [of B _ _ "acc * d"])
    let ?st = "if acc * d \<ge> R then 0 else s"
    have "?st = s \<or> R \<le> acc * d" "s = 0 \<Longrightarrow> ?st = 0" by simp_all
    from Cons.IH [OF rec Cons.prems(2) this(1) mult_pos_pos [OF Cons.prems(4) d] le this(2)]
    obtain ds ts where IH: "rNew = ds @ rNew'" "rS' = (rS @ [s * acc]) @ ts" "length ts = length ds"
      "list_all (\<lambda>d. 0 < d) ds" "acc * d * prod_list ds = B"
      "\<forall>k \<ge> 0. digit_sum (zip ds ts) k = (k mod prod_list ds) * (s * (acc * d))"
      by blast
    have "digit_sum (zip (d # ds) ((s * acc) # ts)) k = (k mod prod_list (d # ds)) * (s * acc)" if "0 \<le> k" for k
    proof -
      have "k mod (d * prod_list ds) = d * (k div d mod prod_list ds) + k mod d"
        using IH(4) by (simp add: zmod_zmult2_eq prod_list_pos less_imp_le)
      then show ?thesis
        using IH(6) that d by (simp add: pos_imp_zdiv_nonneg_iff algebra_simps)
    qed
    then show ?thesis
      using IH d by (intro exI [of _ "d # ds"] exI [of _ "(s * acc) # ts"]) (auto simp: mult.assoc)
  qed
qed

lemma blocks_loop_sound:
  assumes "blocks_loop bs rNew rS = Some rS'" and "\<forall>b \<in> set bs. block_ok b"
  shows "\<exists>ds rest ts. rNew = ds @ rest \<and> rS' = rS @ ts \<and> length ts = length ds \<and>
           list_all (\<lambda>d. 0 < d) ds \<and> prod_list ds = prod_list (map md_size bs) \<and>
           (\<forall>k \<ge> 0. digit_sum (zip ds ts) k = blocks_sum bs k)"
  using assms
proof (induction bs arbitrary: rNew rS)
  case Nil
  then show ?case by (auto simp: blocks_sum_def)
next
  case (Cons b bs)
  let ?B = "md_size b"
  have b: "0 < ?B" "md_stride b = 0 \<or> md_real b = ?B" using Cons.prems by (auto simp: block_ok_def)
  from Cons.prems(1) obtain rNew1 rS1 where
    fl: "fill_loop ?B (md_real b) (md_stride b) 1 rNew rS = (?B, rNew1, rS1)"
    and bl: "blocks_loop bs rNew1 rS1 = Some rS'"
    by (auto simp del: fill_loop.simps split: prod.splits if_splits)
  from fill_loop_sound [OF fl b(2)] b(1) obtain ds1 ts1 where 1: "rNew = ds1 @ rNew1" "rS1 = rS @ ts1"
    "length ts1 = length ds1" "list_all (\<lambda>d. 0 < d) ds1" "prod_list ds1 = ?B"
    "\<forall>k \<ge> 0. digit_sum (zip ds1 ts1) k = (k mod prod_list ds1) * md_stride b"
    by auto
  from Cons.IH [OF bl] Cons.prems(2) obtain ds2 rest ts2 where 2: "rNew1 = ds2 @ rest" "rS' = rS1 @ ts2"
    "length ts2 = length ds2" "list_all (\<lambda>d. 0 < d) ds2" "prod_list ds2 = prod_list (map md_size bs)"
    "\<forall>k \<ge> 0. digit_sum (zip ds2 ts2) k = blocks_sum bs k"
    by auto
  have "digit_sum (zip (ds1 @ ds2) (ts1 @ ts2)) k = blocks_sum (b # bs) k" if "0 \<le> k" for k
  proof -
    have "\<And>p. p \<in> set (zip ds1 ts1) \<Longrightarrow> 0 < fst p"
      using 1(4) by (auto simp: list_all_iff dest: set_zip_leftD)
    from digit_sum_append [where ys = "zip ds2 ts2", OF this that]
    have "digit_sum (zip (ds1 @ ds2) (ts1 @ ts2)) k = digit_sum (zip ds1 ts1) k + digit_sum (zip ds2 ts2) (k div ?B)"
      using 1(3,5) by simp
    then show ?thesis using 1(5,6) 2(6) that b(1) by (simp add: blocks_sum_Cons pos_imp_zdiv_nonneg_iff)
  qed
  then show ?case
    using 1 2 by (intro exI [of _ "ds1 @ ds2"] exI [of _ rest] exI [of _ "ts1 @ ts2"]) auto
qed

text \<open>
  The strides of an unmasked reshape: a new cell gets the offset of the old cell with the
  same row-major number.
\<close>

lemma reshape_strides_sound:
  assumes wf: "wf_view v" and "v_mask v = None" and st: "reshape_strides v new = Some ss"
    and "prod_list new = prod_list (v_shape v)" and ib: "in_bounds new cs'"
    and cs: "cs = unravel (v_shape v) (ravel new cs')"
  shows "length ss = length new" and "dot cs' ss = dot cs (v_strides v)"
proof -
  let ?sh = "v_shape v" and ?k = "ravel new cs'"
  have k: "0 \<le> ?k" "?k < prod_list ?sh" using ravel_bounds [OF ib] assms(4) by auto
  then have "0 \<notin> set ?sh" by (metis leD prod_list_zero_iff)
  then have pos: "list_all (\<lambda>d. 0 < d) ?sh"
    using wf live_nonzero_pos [of ?sh] by (simp add: wf_view_def)
  have cs_ib: "in_bounds ?sh cs" and cs_k: "ravel ?sh cs = ?k"
    using cs k pos by (simp_all add: unravel_in_bounds ravel_unravel)
  have inv: "(\<forall>b \<in> set (rev (mergeDims ?sh (v_strides v) None)). block_ok b) \<and>
    prod_list (map md_size (rev (mergeDims ?sh (v_strides v) None))) = prod_list ?sh \<and>
    blocks_sum (rev (mergeDims ?sh (v_strides v) None)) ?k = dot cs (v_strides v)"
  proof (cases "?sh = []")
    case True
    then show ?thesis using wf by (simp add: mergeDims_def blocks_sum_def wf_view_def)
  next
    case False
    then have "merge_inv (rev (mergeDims ?sh (v_strides v) None)) ?k (dot cs (v_strides v)) (prod_list ?sh)"
      using wf cs_k [symmetric] mergeDims_sound [OF cs_ib, of "v_strides v"] by (simp add: wf_view_def)
    then show ?thesis by (simp add: merge_inv_def)
  qed
  from st obtain rS where rS: "blocks_loop (rev (mergeDims ?sh (v_strides v) None)) (rev new) [] = Some rS"
    "ss = replicate (length new - length rS) 0 @ rev rS"
    using assms(2) by (auto simp: reshape_strides_def reversed_def)
  from blocks_loop_sound [OF rS(1)] inv obtain ds rest where d: "rev new = ds @ rest" "length rS = length ds"
    "list_all (\<lambda>d. 0 < d) ds" "prod_list ds = prod_list ?sh"
    "digit_sum (zip ds rS) ?k = dot cs (v_strides v)"
    using k by auto
  have len: "length new = length ds + length rest" using d(1) by (metis length_append length_rev)
  then show lss: "length ss = length new" using rS(2) d(2) by simp
  have "digit_sum (zip (rev new) (rev ss)) ?k = digit_sum (zip ds rS @ zip rest (replicate (length rest) 0)) ?k"
    using d(1,2) rS(2) len by simp
  also have "\<dots> = digit_sum (zip ds rS) ?k + digit_sum (zip rest (replicate (length rest) 0))
      (?k div prod_list (map fst (zip ds rS)))"
    using d(3) k by (intro digit_sum_append) (auto simp: list_all_iff dest: set_zip_leftD)
  also have "digit_sum (zip rest (replicate (length rest) 0)) (?k div prod_list (map fst (zip ds rS))) = 0"
    by (intro digit_sum_zero) (auto simp: list_all_length)
  finally show "dot cs' ss = dot cs (v_strides v)"
    using digit_sum_dot [OF ib lss] d(5) by simp
qed

section \<open>Reshaping\<close>

text \<open>The specification: the cell with the same row-major number.\<close>

definition same_cell :: "shape \<Rightarrow> shape \<Rightarrow> int list \<Rightarrow> int list" where
  "same_cell old new cs = unravel old (ravel new cs)"

lemma same_cell_in_bounds:
  assumes "live old" and "in_bounds new cs" and "prod_list new = prod_list old"
  shows "in_bounds old (same_cell old new cs)"
proof -
  have k: "0 \<le> ravel new cs" "ravel new cs < prod_list old" using ravel_bounds [OF assms(2)] assms(3) by auto
  then have "0 \<notin> set old" by (metis leD prod_list_zero_iff)
  then show ?thesis
    using k live_nonzero_pos [OF assms(1)] by (simp add: same_cell_def unravel_in_bounds)
qed

lemma zip_full_mask: "(\<Sum>(m, s) \<leftarrow> zip (map (\<lambda>d. (0, d)) sh) ss. fst m * (s :: int)) = 0"
proof (induction sh arbitrary: ss)
  case (Cons d sh)
  then show ?case by (cases ss) auto
qed simp

lemma create_full_mask: "create sh (Some ss) off (Some (map (\<lambda>d. (0, d)) sh)) = create sh (Some ss) off None"
  by (simp add: create_def create_mask_def)

lemma contiguous_addr:
  assumes "wf_view v" and "contiguous v" and ib: "in_bounds (v_shape v) cs"
  shows "addr v cs = Some (ravel (v_shape v) cs)"
proof -
  have "v_offset v = 0" "v_mask v = None" "v_strides v = stridesFor (v_shape v)"
    using assms(2) in_bounds_no_zero [OF ib] by (auto simp: contiguous_def split: if_splits)
  then show ?thesis
    using assms(1) ib by (simp add: wf_addr in_bounds_length affine_def dot_stridesFor)
qed

lemma of_result_Some [simp]: "of_result r = Some x \<longleftrightarrow> r = Inr x"
  by (cases r) (auto simp: of_result_def)

lemma reshape_unmasked_cases:
  assumes "reshape v new = Some (Some v')" and "v_mask v = None"
  obtains (same) "v_shape v = new" "v' = v"
  | (zero) "HasZero (v_shape v)" "create new None 0 None = Inr v'"
  | (contiguous) "contiguous v" "create new None 0 None = Inr v'"
  | (strides) ss where "\<not> HasZero (v_shape v)" "\<not> contiguous v" "reshape_strides v new = Some ss"
      "create new (Some ss) (v_offset v) None = Inr v'"
  using assms
  by (auto simp: reshape_def reshapeMask_def zip_full_mask create_full_mask split: if_splits option.splits)

lemma reshape_shape:
  assumes "reshape v new = Some (Some v')"
  shows "v_shape v' = new"
  using assms create_Some(3) [of new] create_None [of new]
  by (auto simp: reshape_def Let_def split: if_splits option.splits)

lemma reshape_addr:
  assumes wf: "wf_view v" and nm: "v_mask v = None" and rs: "reshape v new = Some (Some v')"
    and sz: "prod_list new = prod_list (v_shape v)" and ib: "in_bounds new cs"
  shows "addr v' cs = addr v (same_cell (v_shape v) new cs)"
proof -
  let ?sh = "v_shape v"
  have lv: "live ?sh" using wf by (simp add: wf_view_def)
  note sib = same_cell_in_bounds [OF lv ib sz]
  have nz: "0 \<notin> set ?sh" using in_bounds_no_zero [OF sib] .
  have rav: "ravel ?sh (same_cell ?sh new cs) = ravel new cs"
    using ravel_bounds [OF ib] sz live_nonzero_pos [OF lv] nz by (simp add: same_cell_def ravel_unravel)
  from rs nm show ?thesis
  proof (cases rule: reshape_unmasked_cases)
    case same
    then show ?thesis using ib by (simp add: same_cell_def unravel_ravel)
  next
    case zero
    then show ?thesis using nz by simp
  next
    case contiguous
    then show ?thesis
      using create_contiguous_addr [OF _ ib] contiguous_addr [OF wf _ sib] rav by simp
  next
    case (strides ss)
    note s = reshape_strides_sound [OF wf nm strides(3) sz ib refl]
    have "addr v' cs = Some (v_offset v + dot cs ss)"
      using create_affine [OF strides(4) ib] by (simp add: affine_def)
    also have "\<dots> = addr v (same_cell ?sh new cs)"
      using s(2) nm wf sib by (simp add: same_cell_def wf_addr in_bounds_length affine_def)
    finally show ?thesis .
  qed
qed

lemma reshape_wf:
  assumes "wf_view v" and "v_mask v = None" and "reshape v new = Some (Some v')"
  shows "wf_view v'"
  using assms(3,2)
proof (cases rule: reshape_unmasked_cases)
  case (strides ss)
  then show ?thesis using create_wf [OF strides(4)] by (simp add: mask_within_def)
qed (use assms(1) create_contiguous_wf in auto)

section \<open>The mask loop returns\<close>

text \<open>
  The loop pops a default when a shape runs out, so it does not end on shapes of different
  sizes. On equal sizes the products still to be read stay equal, which is what keeps the
  old shape from running out first.
\<close>

definition pending :: "nat \<Rightarrow> int list \<Rightarrow> int list \<Rightarrow> int \<Rightarrow> int \<Rightarrow> int \<Rightarrow> bool" where
  "pending need rShape rNew cur oldDim newDim \<longleftrightarrow>
     need = 0 \<or>
     need = Suc (length rNew) \<and> 0 < cur \<and> 0 < oldDim \<and> 0 < newDim \<and>
     list_all (\<lambda>d. 0 < d) rShape \<and> list_all (\<lambda>d. 0 < d) rNew \<and>
     oldDim * prod_list rShape = newDim * cur * prod_list rNew"

lemma pending_start:
  assumes "list_all (\<lambda>d. 0 < d) rShape" "list_all (\<lambda>d. 0 < d) rNew" "0 < c"
    and "a * prod_list rShape = c * prod_list rNew" "0 < a"
  shows "pending (length rNew) rShape (snd (pop rNew 1)) c a (fst (pop rNew 1))"
  using assms by (cases rNew) (auto simp: pending_def pop_def algebra_simps)

lemma pending_eq:
  assumes "pending (Suc n) rShape rNew cur (newDim * cur) newDim"
  shows "pending n (snd (pop rShape 1)) (snd (pop rNew 1)) 1 (fst (pop rShape 1)) (fst (pop rNew 1))"
proof -
  have "prod_list rShape = prod_list rNew" "n = length rNew" "list_all (\<lambda>d. 0 < d) rShape" "list_all (\<lambda>d. 0 < d) rNew"
    using assms by (auto simp: pending_def)
  moreover from this have "pending (length rNew) (snd (pop rShape 1)) (snd (pop rNew 1)) 1 (fst (pop rShape 1)) (fst (pop rNew 1))"
    by (intro pending_start) (cases rShape; simp add: pop_def; fail)+
  ultimately show ?thesis by simp
qed

lemma pending_split:
  assumes "pending (Suc n) rShape rNew cur oldDim newDim"
  shows "pending n rShape (snd (pop rNew 1)) (newDim * cur) oldDim (fst (pop rNew 1))"
  using assms pending_start [of rShape rNew "newDim * cur" oldDim] by (auto simp: pending_def)

lemma pending_join:
  assumes "pending (Suc n) rShape rNew cur oldDim newDim" and "oldDim < newDim * cur"
  shows "rShape \<noteq> []" and "pending (Suc n) (snd (pop rShape 1)) rNew cur (oldDim * fst (pop rShape 1)) newDim"
proof -
  have "newDim * cur * 1 \<le> newDim * cur * prod_list rNew"
    using assms prod_list_pos [of rNew] by (intro mult_left_mono) (auto simp: pending_def)
  then show ne: "rShape \<noteq> []" using assms by (auto simp: pending_def)
  then show "pending (Suc n) (snd (pop rShape 1)) rNew cur (oldDim * fst (pop rShape 1)) newDim"
    using assms by (cases rShape) (auto simp: pending_def pop_def algebra_simps)
qed

lemma length_snd_pop: "length (snd (pop xs d)) = length xs - 1"
  by (cases xs) (auto simp: pop_def)

lemma reshapeMask_loop_returns:
  assumes "pending need rShape rNew cur oldDim newDim"
  shows "\<exists>r. reshapeMask_loop need out rShape rNew rMasks cur oldDim newDim m = Some r"
  using assms
proof (induction "need + length rShape" arbitrary: need out rShape rNew rMasks cur oldDim newDim m
    rule: less_induct)
  case less
  show ?case
  proof (cases need)
    case 0
    then show ?thesis by (subst reshapeMask_loop.simps) simp
  next
    case (Suc n)
    note p = less.prems [unfolded Suc]
    consider (eq) "oldDim = newDim * cur" | (gt) "oldDim > newDim * cur" | (lt) "oldDim < newDim * cur"
      by linarith
    then show ?thesis
    proof cases
      case eq
      have "n + length (snd (pop rShape 1)) < need + length rShape"
        using Suc by (simp add: length_snd_pop)
      from less.hyps [OF this pending_eq [OF p [unfolded eq]]] show ?thesis
        using eq Suc by (subst reshapeMask_loop.simps) (simp add: split_beta Let_def)
    next
      case gt
      have "n + length rShape < need + length rShape" using Suc by simp
      from less.hyps [OF this pending_split [OF p]] show ?thesis
        using gt Suc by (subst reshapeMask_loop.simps) (simp add: split_beta Let_def)
    next
      case lt
      have "need + length (snd (pop rShape 1)) < need + length rShape"
        using pending_join(1) [OF p lt] by (cases rShape) (auto simp: length_snd_pop)
      from less.hyps [OF this pending_join(2) [OF p lt, folded Suc]] show ?thesis
        using lt Suc by (subst reshapeMask_loop.simps) (simp add: split_beta Let_def)
    qed
  qed
qed

lemma reshape_returns:
  assumes wf: "wf_view v" and "live new" and "prod_list new = prod_list (v_shape v)"
  shows "\<exists>r. reshape v new = Some r"
proof -
  have "\<exists>r. reshapeMask (v_mask v) (v_shape v) new = Some r" if nz: "\<not> HasZero (v_shape v)"
  proof (cases "v_mask v")
    case None
    then show ?thesis by (simp add: reshapeMask_def)
  next
    case (Some ms)
    let ?s = "rev (v_shape v)" and ?n = "rev new"
    have pos: "list_all (\<lambda>d. 0 < d) (v_shape v)" using wf nz live_nonzero_pos by (simp add: wf_view_def)
    have "0 \<notin> set new" using assms(3) nz by (metis HasZero_iff prod_list_zero_iff)
    then have posn: "list_all (\<lambda>d. 0 < d) new" using assms(2) live_nonzero_pos by simp
    have "pending (length ?n) (snd (pop ?s 1)) (snd (pop ?n 1)) 1 (fst (pop ?s 1)) (fst (pop ?n 1))"
    proof (rule pending_start)
      show "list_all (\<lambda>d. 0 < d) (snd (pop ?s 1))" "0 < fst (pop ?s 1)"
        using pos by (cases ?s; fastforce simp: pop_def list_all_iff)+
      show "fst (pop ?s 1) * prod_list (snd (pop ?s 1)) = 1 * prod_list ?n"
        using assms(3) by (cases ?s) (auto simp: pop_def prod_list.rev simp flip: prod_list.rev [of "v_shape v"])
    qed (use posn in \<open>simp_all add: list_all_rev\<close>)
    from reshapeMask_loop_returns [OF this] show ?thesis
      using Some by (auto simp: reshapeMask_def split_beta Let_def)
  qed
  then show ?thesis
    by (auto simp: reshape_def Let_def split: option.splits)
qed

end
