(* ===== verification/NdTracker.thy ===== *)
theory NdTracker
  imports NdReshape
begin

text \<open>
  Trackers, \<open>x/ndarray/tracker.go\<close>: a stack of views from a contiguous buffer (the first
  view) to a logical tensor (the last one). The offset one view computes is a cell number
  of the view below it.

  A tracker denotes the partial function \<open>t_addr\<close> from the coordinates of its shape to
  buffer offsets. The locale \<open>movement\<close> is the contract of a movement operation on a view;
  what the tracker operations do is proved once in it and interpreted for \<open>permute\<close>,
  \<open>expand\<close>, \<open>pad\<close>, \<open>shrink\<close> and \<open>flip\<close>.
\<close>

section \<open>The model\<close>

record tracker =
  views :: "view list"

definition Of :: "shape \<Rightarrow> tracker nd_result" where
  "Of shape = bind_result (create shape None 0 None) (\<lambda>v. Inr \<lparr>views = [v]\<rparr>)"

definition last_view :: "tracker \<Rightarrow> view" where
  "last_view t = last (views t)"

definition tracker_check :: "tracker \<Rightarrow> unit nd_result" where
  "tracker_check t = (if views t = [] then Inl ErrShape else Inr ())"

definition replace :: "tracker \<Rightarrow> view \<Rightarrow> tracker" where
  "replace t v = \<lparr>views = (views t)[length (views t) - 1 := v]\<rparr>"

definition tracker_Shape :: "tracker \<Rightarrow> shape" where
  "tracker_Shape t = (if views t = [] then [] else v_shape (last_view t))"

definition tracker_Size :: "tracker \<Rightarrow> int" where
  "tracker_Size t = (if views t = [] then 0 else view_size (last_view t))"

definition Contiguous :: "tracker \<Rightarrow> bool" where
  "Contiguous t \<longleftrightarrow> length (views t) = 1 \<and> contiguous (views t ! 0)"

text \<open>One round per axis; \<^const>\<open>None\<close> is the early \<open>return 0\<close> on an empty span.\<close>

fun real_loop :: "shape \<Rightarrow> int list \<Rightarrow> span option list \<Rightarrow> int \<Rightarrow> int option" where
  "real_loop (s # sh) (stride # ss) (m # ms) maxOff =
     (let (lo, hi) = (case m of None \<Rightarrow> (0, s) | Some p \<Rightarrow> p) in
      if hi \<le> lo then None
      else (let a = lo * stride; b = (hi - 1) * stride
            in real_loop sh ss ms (maxOff + (if a > b then a else b))))"
| "real_loop _ _ _ maxOff = Some maxOff"

definition RealSize :: "tracker \<Rightarrow> int" where
  "RealSize t =
     (if views t = [] \<or> HasZero (v_shape (views t ! 0)) then 0
      else (let v = views t ! 0 in
            case real_loop (v_shape v) (v_strides v) (axis_masks (v_mask v) (length (v_shape v))) (v_offset v)
            of None \<Rightarrow> 0 | Some maxOff \<Rightarrow> max 0 (maxOff + 1)))"

text \<open>The loop of \<open>Index\<close> over the lower views, from the top one down.\<close>

fun index_views :: "view list \<Rightarrow> int \<Rightarrow> bool \<Rightarrow> int \<times> bool" where
  "index_views [] off ok = (off, ok)"
| "index_views (v # vs) off ok =
     (if view_size v = 0 then (0, False)
      else (let (off', viewOK) = index v (unravel (v_shape v) off)
            in index_views vs off' (ok \<and> viewOK)))"

definition Index :: "tracker \<Rightarrow> int list \<Rightarrow> (int \<times> bool) nd_result" where
  "Index t coords =
     bind_result (tracker_check t) (\<lambda>_.
       (let shape = v_shape (last_view t) in
        if length coords \<noteq> length shape then Inl ErrIndex
        else if list_ex (\<lambda>(c, d). c < 0 \<or> c \<ge> d) (zip coords shape) then Inl ErrIndex
        else (let (off, ok) = index (last_view t) coords
              in Inr (index_views (rev (butlast (views t))) off ok))))"

definition At :: "tracker \<Rightarrow> int \<Rightarrow> (int \<times> bool) nd_result" where
  "At t i =
     bind_result (tracker_check t) (\<lambda>_.
       (let n = tracker_Size t in
        if i < 0 \<or> (n > 0 \<and> i \<ge> n) \<or> n = 0 then Inl ErrIndex
        else Index t (unravel (v_shape (last_view t)) i)))"

text \<open>\<^const>\<open>None\<close>: the mask loop of the view's reshape does not end.\<close>

definition Reshape :: "tracker \<Rightarrow> shape \<Rightarrow> tracker nd_result option" where
  "Reshape t shape =
     (case bind_result (tracker_check t) (\<lambda>_. Infer shape (tracker_Size t)) of
        Inl e \<Rightarrow> Some (Inl e)
      | Inr shape' \<Rightarrow>
          (case reshape (last_view t) shape' of
             None \<Rightarrow> None
           | Some (Some newView) \<Rightarrow> Some (Inr (replace t newView))
           | Some None \<Rightarrow>
               Some (bind_result (create shape' None 0 None)
                       (\<lambda>newView. Inr \<lparr>views = views t @ [newView]\<rparr>))))"

definition mapView :: "tracker \<Rightarrow> (view \<Rightarrow> view nd_result) \<Rightarrow> tracker nd_result" where
  "mapView t fn =
     bind_result (tracker_check t) (\<lambda>_.
     bind_result (fn (last_view t)) (\<lambda>v. Inr (replace t v)))"

fun normalize_loop :: "int list \<Rightarrow> int \<Rightarrow> int list nd_result" where
  "normalize_loop [] rank = Inr []"
| "normalize_loop (a # as) rank =
     (let a' = (if a < 0 then a + rank else a) in
      if a' < 0 \<or> a' \<ge> rank then Inl ErrAxis
      else bind_result (normalize_loop as rank) (\<lambda>out. Inr (a' # out)))"

definition normalizeAxes :: "int list \<Rightarrow> nat \<Rightarrow> bool \<Rightarrow> int list nd_result" where
  "normalizeAxes axes rank perm =
     bind_result (normalize_loop axes (int rank)) (\<lambda>out.
       if perm \<and> \<not> isPermutation out rank then Inl ErrAxis else Inr out)"

definition Permute :: "tracker \<Rightarrow> int list \<Rightarrow> tracker nd_result" where
  "Permute t axes =
     bind_result (tracker_check t) (\<lambda>_.
     bind_result (normalizeAxes axes (length (v_shape (last_view t))) True) (\<lambda>norm.
     bind_result (permute (last_view t) norm) (\<lambda>v. Inr (replace t v))))"

definition Expand :: "tracker \<Rightarrow> shape \<Rightarrow> tracker nd_result" where
  "Expand t shape = mapView t (\<lambda>v. expand v shape)"

definition Pad :: "tracker \<Rightarrow> span list \<Rightarrow> tracker nd_result" where
  "Pad t arg = mapView t (\<lambda>v. pad v arg)"

definition Shrink :: "tracker \<Rightarrow> span list \<Rightarrow> tracker nd_result" where
  "Shrink t arg = mapView t (\<lambda>v. shrink v arg)"

definition Splat :: "tracker \<Rightarrow> tracker nd_result" where
  "Splat t =
     bind_result (tracker_check t) (\<lambda>_.
     if tracker_Size t \<noteq> 1 then Inl ErrShape
     else bind_result (At t 0) (\<lambda>(off, ok).
       if \<not> ok then Inl ErrIndex
       else bind_result (create [] None off None) (\<lambda>v. Inr \<lparr>views = [v]\<rparr>)))"

definition Flip :: "tracker \<Rightarrow> int list \<Rightarrow> tracker nd_result" where
  "Flip t axes =
     bind_result (tracker_check t) (\<lambda>_.
     (let rank = length (v_shape (last_view t)) in
      if axes = [] then Inr t
      else bind_result (normalizeAxes axes rank False) (\<lambda>norm.
           bind_result (flip (last_view t) (fold (\<lambda>a w. w[nat a := True]) norm (replicate rank False)))
             (\<lambda>v. Inr (replace t v)))))"

section \<open>What a tracker denotes\<close>

text \<open>The lower views, top one first, applied to an offset.\<close>

fun through :: "view list \<Rightarrow> int \<Rightarrow> int option" where
  "through [] off = Some off"
| "through (v # vs) off = Option.bind (addr v (unravel (v_shape v) off)) (through vs)"

definition t_addr :: "tracker \<Rightarrow> int list \<Rightarrow> int option" where
  "t_addr t cs = Option.bind (addr (last_view t) cs) (through (rev (butlast (views t))))"

text \<open>Every valid offset of \<open>v\<close> is below \<open>n\<close>.\<close>

definition range_ok :: "view \<Rightarrow> int \<Rightarrow> bool" where
  "range_ok v n \<longleftrightarrow> (\<forall>cs off. in_bounds (v_shape v) cs \<and> addr v cs = Some off \<longrightarrow> 0 \<le> off \<and> off < n)"

text \<open>
  The invariant, top view first: every view is well formed and its offsets are cell numbers
  of the view below, the lowest one's those of a buffer of \<open>n\<close> cells.
\<close>

fun stack_ok :: "int \<Rightarrow> view list \<Rightarrow> bool" where
  "stack_ok n [] \<longleftrightarrow> False"
| "stack_ok n [v] \<longleftrightarrow> wf_view v \<and> range_ok v n"
| "stack_ok n (v # w # vs) \<longleftrightarrow> wf_view v \<and> range_ok v (view_size w) \<and> stack_ok n (w # vs)"

definition wf_tracker :: "int \<Rightarrow> tracker \<Rightarrow> bool" where
  "wf_tracker n t \<longleftrightarrow> stack_ok n (rev (views t))"

lemma wf_tracker_nonempty: "wf_tracker n t \<Longrightarrow> views t \<noteq> []"
  by (auto simp: wf_tracker_def)

lemma tracker_check_ok [simp]: "wf_tracker n t \<Longrightarrow> tracker_check t = Inr ()"
  by (simp add: tracker_check_def wf_tracker_nonempty)

lemma tracker_split:
  assumes "views t \<noteq> []"
  shows "rev (views t) = last_view t # rev (butlast (views t))"
  using assms by (cases "views t" rule: rev_cases) (auto simp: last_view_def)

lemma replace_parts [simp]:
  assumes "views t \<noteq> []"
  shows "views (replace t v) = butlast (views t) @ [v]" "last_view (replace t v) = v"
    "butlast (views (replace t v)) = butlast (views t)"
  using assms by (cases "views t" rule: rev_cases; auto simp: replace_def last_view_def list_update_append)+

lemma wf_tracker_last: "wf_tracker n t \<Longrightarrow> wf_view (last_view t)"
  using tracker_split [of t] wf_tracker_nonempty [of n t]
  by (cases "rev (butlast (views t))") (auto simp: wf_tracker_def)

lemma range_ok_mono:
  assumes "range_ok v n"
    and "\<And>cs off. in_bounds (v_shape v') cs \<Longrightarrow> addr v' cs = Some off \<Longrightarrow>
           \<exists>cs'. in_bounds (v_shape v) cs' \<and> addr v cs' = Some off"
  shows "range_ok v' n"
  using assms unfolding range_ok_def by metis

lemma stack_ok_replace:
  assumes "stack_ok n (v # vs)" and "wf_view v'"
    and "\<And>m. range_ok v m \<Longrightarrow> range_ok v' m"
  shows "stack_ok n (v' # vs)"
  using assms by (cases vs) auto

text \<open>Offsets stay inside the buffer.\<close>

lemma through_range:
  assumes "stack_ok n (v # vs)" and "in_bounds (v_shape v) cs" and "addr v cs = Some off"
    and "through vs off = Some off'"
  shows "0 \<le> off' \<and> off' < n"
  using assms
proof (induction vs arbitrary: v cs off)
  case Nil
  then show ?case by (auto simp: range_ok_def)
next
  case (Cons w vs)
  have r: "0 \<le> off" "off < view_size w"
    using Cons.prems by (auto simp: range_ok_def)
  have "live (v_shape w)" using Cons.prems(1) by (cases vs) (auto simp: wf_view_def)
  moreover have "\<not> HasZero (v_shape w)"
    using r by (metis HasZero_iff Size_prod leD prod_list_zero_iff view_size_def)
  ultimately have "in_bounds (v_shape w) (unravel (v_shape w) off)"
    using live_nonzero_pos r(1) by (intro unravel_in_bounds) auto
  then show ?case using Cons by (auto simp: bind_eq_Some_conv)
qed

lemma wf_tracker_stack: "wf_tracker n t \<Longrightarrow> stack_ok n (last_view t # rev (butlast (views t)))"
  using tracker_split [of t] wf_tracker_nonempty [of n t] by (metis wf_tracker_def)

lemma t_addr_range:
  assumes "wf_tracker n t" and "in_bounds (tracker_Shape t) cs" and "t_addr t cs = Some off"
  shows "0 \<le> off \<and> off < n"
proof -
  have ne: "views t \<noteq> []" using assms(1) by (rule wf_tracker_nonempty)
  from assms(3) obtain o1 where "addr (last_view t) cs = Some o1" "through (rev (butlast (views t))) o1 = Some off"
    by (auto simp: t_addr_def bind_eq_Some_conv)
  with through_range [OF wf_tracker_stack [OF assms(1)]] show ?thesis
    using assms(2) ne by (simp add: tracker_Shape_def)
qed

section \<open>Indexing\<close>

lemma index_views_invalid: "\<not> snd (index_views vs off False)"
  by (induction vs arbitrary: off) (auto simp: split_beta)

lemma index_views_through:
  assumes "stack_ok n (v # vs)" and "in_bounds (v_shape v) cs" and "addr v cs = Some off"
  shows "through vs off = (let (off', ok) = index_views vs off True in if ok then Some off' else None)"
  using assms
proof (induction vs arbitrary: v cs off)
  case Nil
  then show ?case by simp
next
  case (Cons w vs)
  have r: "0 \<le> off" "off < view_size w"
    using Cons.prems by (auto simp: range_ok_def)
  have "live (v_shape w)" using Cons.prems(1) by (cases vs) (auto simp: wf_view_def)
  moreover have "\<not> HasZero (v_shape w)"
    using r by (metis HasZero_iff Size_prod leD prod_list_zero_iff view_size_def)
  ultimately have ib: "in_bounds (v_shape w) (unravel (v_shape w) off)"
    using live_nonzero_pos r(1) by (intro unravel_in_bounds) auto
  obtain o1 ok1 where i: "index w (unravel (v_shape w) off) = (o1, ok1)" by fastforce
  show ?case
  proof (cases ok1)
    case True
    then have "addr w (unravel (v_shape w) off) = Some o1" using i by (simp add: addr_def)
    then show ?thesis using Cons.IH [OF _ ib] Cons.prems(1) r i True by simp
  next
    case False
    then show ?thesis using i r index_views_invalid [of vs o1] by (simp add: addr_def split_beta)
  qed
qed

lemma Index_correct:
  assumes "wf_tracker n t"
  shows "if in_bounds (tracker_Shape t) cs
         then \<exists>off ok. Index t cs = Inr (off, ok) \<and> t_addr t cs = (if ok then Some off else None)
         else Index t cs = Inl ErrIndex"
proof -
  have ne: "views t \<noteq> []" using assms by (rule wf_tracker_nonempty)
  note st = wf_tracker_stack [OF assms]
  let ?sh = "v_shape (last_view t)" and ?vs = "rev (butlast (views t))"
  have ib: "in_bounds ?sh cs \<longleftrightarrow> length cs = length ?sh \<and> \<not> list_ex (\<lambda>(c, d). c < 0 \<or> c \<ge> d) (zip cs ?sh)"
    by (auto simp: in_bounds_def not_list_ex not_less not_le)
  show ?thesis
  proof (cases "in_bounds ?sh cs")
    case False
    then show ?thesis using ib ne assms by (auto simp: Index_def tracker_Shape_def Let_def)
  next
    case True
    obtain o1 ok1 where i: "index (last_view t) cs = (o1, ok1)" by fastforce
    have I: "Index t cs = Inr (index_views ?vs o1 ok1)"
      using True ib assms i by (simp add: Index_def Let_def)
    obtain o2 ok2 where i2: "index_views ?vs o1 ok1 = (o2, ok2)" by fastforce
    have "t_addr t cs = (if ok2 then Some o2 else None)"
    proof (cases ok1)
      case T: True
      then have "addr (last_view t) cs = Some o1" using i by (simp add: addr_def)
      then show ?thesis
        using index_views_through [OF st True] T i2 by (simp add: t_addr_def)
    next
      case False
      then show ?thesis using i i2 index_views_invalid [of ?vs o1] by (simp add: t_addr_def addr_def)
    qed
    then show ?thesis using True ne I i2 by (simp add: tracker_Shape_def)
  qed
qed

lemma Index_valid_iff:
  assumes "wf_tracker n t"
  shows "Index t cs = Inr (off, True) \<longleftrightarrow> in_bounds (tracker_Shape t) cs \<and> t_addr t cs = Some off"
  using Index_correct [OF assms, of cs] by (auto split: if_splits)

lemma At_correct:
  assumes "wf_tracker n t" and "0 \<le> i" and "i < tracker_Size t"
  shows "At t i = Index t (unravel (tracker_Shape t) i)"
    and "in_bounds (tracker_Shape t) (unravel (tracker_Shape t) i)"
proof -
  have ne: "views t \<noteq> []" using assms(1) by (rule wf_tracker_nonempty)
  then show "At t i = Index t (unravel (tracker_Shape t) i)"
    using assms by (simp add: At_def tracker_Shape_def)
  have "live (tracker_Shape t)" using wf_tracker_last [OF assms(1)] ne by (simp add: tracker_Shape_def wf_view_def)
  moreover have "\<not> HasZero (tracker_Shape t)"
    using assms(2,3) ne by (metis HasZero_iff Size_prod leD prod_list_zero_iff tracker_Shape_def tracker_Size_def view_size_def)
  ultimately show "in_bounds (tracker_Shape t) (unravel (tracker_Shape t) i)"
    using live_nonzero_pos assms(2) by (intro unravel_in_bounds) auto
qed

lemma At_out_of_range:
  assumes "wf_tracker n t" and "i < 0 \<or> i \<ge> tracker_Size t"
  shows "At t i = Inl ErrIndex"
proof -
  have "0 \<le> tracker_Size t"
    using wf_tracker_last [OF assms(1)] live_Size_nonneg
    by (auto simp: tracker_Size_def view_size_def wf_view_def simp del: Size_prod)
  then show ?thesis using assms by (auto simp: At_def Let_def)
qed

section \<open>The contract of a movement operation\<close>

text \<open>
  \<open>src x sh cs\<close> is the cell of the old tensor that the cell \<open>cs\<close> of the new one shows, and
  \<^const>\<open>None\<close> where it shows padding.
\<close>

locale movement =
  fixes mv :: "'x \<Rightarrow> view \<Rightarrow> view nd_result"
    and out_shape :: "'x \<Rightarrow> shape \<Rightarrow> shape"
    and src :: "'x \<Rightarrow> shape \<Rightarrow> int list \<Rightarrow> int list option"
  assumes mv_wf: "wf_view v \<Longrightarrow> mv x v = Inr v' \<Longrightarrow> wf_view v'"
    and mv_shape: "mv x v = Inr v' \<Longrightarrow> v_shape v' = out_shape x (v_shape v)"
    and mv_src: "wf_view v \<Longrightarrow> mv x v = Inr v' \<Longrightarrow> in_bounds (out_shape x (v_shape v)) cs \<Longrightarrow>
      src x (v_shape v) cs = Some cs' \<Longrightarrow> in_bounds (v_shape v) cs'"
    and mv_addr: "wf_view v \<Longrightarrow> mv x v = Inr v' \<Longrightarrow> in_bounds (out_shape x (v_shape v)) cs \<Longrightarrow>
      addr v' cs = Option.bind (src x (v_shape v) cs) (addr v)"
begin

lemma mv_range:
  assumes "wf_view v" and "mv x v = Inr v'" and "range_ok v n"
  shows "range_ok v' n"
proof (rule range_ok_mono [OF assms(3)])
  fix cs off assume ib: "in_bounds (v_shape v') cs" and a: "addr v' cs = Some off"
  then have "Option.bind (src x (v_shape v) cs) (addr v) = Some off"
    using mv_addr assms mv_shape [OF assms(2)] by simp
  then show "\<exists>cs'. in_bounds (v_shape v) cs' \<and> addr v cs' = Some off"
    using mv_src [OF assms(1,2)] ib mv_shape [OF assms(2)] by (fastforce simp: bind_eq_Some_conv)
qed

lemma tracker_wf:
  assumes "wf_tracker n t" and "mv x (last_view t) = Inr v'"
  shows "wf_tracker n (replace t v')"
proof -
  note wf = wf_tracker_last [OF assms(1)]
  have "stack_ok n (v' # rev (butlast (views t)))"
    using stack_ok_replace [OF wf_tracker_stack [OF assms(1)] mv_wf [OF wf assms(2)]] mv_range [OF wf assms(2)]
    by blast
  then show ?thesis using wf_tracker_nonempty [OF assms(1)] by (simp add: wf_tracker_def)
qed

lemma tracker_shape:
  assumes "wf_tracker n t" and "mv x (last_view t) = Inr v'"
  shows "tracker_Shape (replace t v') = out_shape x (tracker_Shape t)"
  using wf_tracker_nonempty [OF assms(1)] mv_shape [OF assms(2)] by (simp add: tracker_Shape_def)

lemma tracker_addr:
  assumes "wf_tracker n t" and "mv x (last_view t) = Inr v'"
    and "in_bounds (out_shape x (tracker_Shape t)) cs"
  shows "t_addr (replace t v') cs = Option.bind (src x (tracker_Shape t) cs) (t_addr t)"
  using mv_addr [OF wf_tracker_last [OF assms(1)] assms(2)] wf_tracker_nonempty [OF assms(1)] assms(3)
  by (cases "src x (tracker_Shape t) cs") (simp_all add: tracker_Shape_def t_addr_def)

text \<open>The tracker method \<open>mapView t (mv x)\<close>.\<close>

lemma mapView_refines:
  assumes "wf_tracker n t" and "mapView t (mv x) = Inr t'"
  shows "wf_tracker n t'" and "tracker_Shape t' = out_shape x (tracker_Shape t)"
    and "in_bounds (tracker_Shape t') cs \<Longrightarrow> t_addr t' cs = Option.bind (src x (tracker_Shape t) cs) (t_addr t)"
proof -
  from assms obtain v' where v: "mv x (last_view t) = Inr v'" "t' = replace t v'"
    by (auto simp: mapView_def)
  show "wf_tracker n t'" "tracker_Shape t' = out_shape x (tracker_Shape t)"
    using tracker_wf [OF assms(1) v(1)] tracker_shape [OF assms(1) v(1)] v(2) by simp_all
  then show "in_bounds (tracker_Shape t') cs \<Longrightarrow> t_addr t' cs = Option.bind (src x (tracker_Shape t) cs) (t_addr t)"
    using tracker_addr [OF assms(1) v(1)] v(2) by simp
qed

end

section \<open>The movement operations meet the contract\<close>

text \<open>The inverse of \<open>gather\<close>: coordinate \<open>axes ! i\<close> of the old cell is coordinate \<open>i\<close> of the new one.\<close>

definition scatter :: "int list \<Rightarrow> int list \<Rightarrow> int list" where
  "scatter axes cs = map (\<lambda>j. the (map_of (zip axes cs) (int j))) [0..<length axes]"

lemma gather_scatter:
  assumes "isPermutation axes n" and "length cs = n"
  shows "gather axes (scatter axes cs) = cs"
proof (rule nth_equalityI)
  have n: "length axes = n" using assms(1) by (rule isPermutation_length)
  have ax: "distinct axes" "set axes = {0..<int n}" using assms(1) by (simp_all add: isPermutation_iff)
  then show "length (gather axes (scatter axes cs)) = length cs" using n assms(2) by simp
  fix i assume "i < length (gather axes (scatter axes cs))"
  then have i: "i < n" using n by simp
  then have a: "0 \<le> axes ! i" "axes ! i < int n" using ax(2) n nth_mem [of i axes] by auto
  have "map_of (zip axes cs) (axes ! i) = Some (cs ! i)"
    using i n assms(2) ax(1) by (simp add: map_of_zip_nth)
  then show "gather axes (scatter axes cs) ! i = cs ! i"
    using i a n by (simp add: gather_def scatter_def nat_less_iff)
qed

lemma length_scatter [simp]: "length (scatter axes cs) = length axes"
  by (simp add: scatter_def)

interpretation permuting: movement "\<lambda>axes v. permute v axes" gather "\<lambda>axes sh cs. Some (scatter axes cs)"
proof
  fix v v' axes cs cs'
  assume wf: "wf_view v" and p: "permute v axes = Inr v'"
    and ib: "in_bounds (gather axes (v_shape v)) cs"
  note pm = permute_unfold(1) [OF p]
  have g: "gather axes (scatter axes cs) = cs"
    using gather_scatter [OF pm] in_bounds_length [OF ib] isPermutation_length [OF pm] by simp
  have s: "in_bounds (v_shape v) (scatter axes cs)"
    using gather_in_bounds [OF pm, of "scatter axes cs"] ib g isPermutation_length [OF pm] by simp
  then show "in_bounds (v_shape v) cs'" if "Some (scatter axes cs) = Some cs'" using that by simp
  show "addr v' cs = Option.bind (Some (scatter axes cs)) (addr v)"
    using permute_addr [OF wf p s] g by simp
qed (use permute_wf permute_shape in blast)+

interpretation expanding: movement "\<lambda>sh v. expand v sh" "\<lambda>sh _. sh" "\<lambda>sh old cs. Some (unexpand old sh cs)"
  by unfold_locales (auto simp: expand_wf expand_shape expand_addr unexpand_in_bounds)

interpretation flipping: movement "\<lambda>which v. flip v which" "\<lambda>_ sh. sh" "\<lambda>which sh cs. Some (flip_coords sh which cs)"
  by unfold_locales (auto simp: flip_wf flip_shape flip_addr intro: flip_coords_in_bounds dest: flip_unfold(1))

interpretation padding: movement "\<lambda>arg v. pad v arg" padded_shape
    "\<lambda>arg sh cs. if in_bounds sh (unpad arg cs) then Some (unpad arg cs) else None"
  by unfold_locales (auto simp: pad_wf pad_shape pad_addr split: if_splits)

interpretation shrinking: movement "\<lambda>arg v. shrink v arg" "\<lambda>arg _. window_shape arg"
    "\<lambda>arg sh cs. Some (shift arg cs)"
  by unfold_locales (auto simp: shrink_wf shrink_shape shrink_addr shift_in_bounds)

section \<open>The tracker operations\<close>

lemma create_contiguous_fields:
  assumes "create sh None 0 None = Inr v"
  shows "v = \<lparr>v_shape = sh, v_strides = (if HasZero sh then zeros (length sh) else stridesFor sh),
              v_offset = 0, v_mask = None\<rparr>"
  using assms by (auto simp: create_def create_mask_def)

lemma wf_tracker_Size:
  assumes "wf_tracker n t"
  shows "tracker_Size t = prod_list (tracker_Shape t)" and "0 \<le> tracker_Size t"
  using wf_tracker_last [OF assms] live_Size_nonneg [of "v_shape (last_view t)"] wf_tracker_nonempty [OF assms]
  by (simp_all add: tracker_Size_def tracker_Shape_def view_size_def wf_view_def)

lemma Of_correct:
  assumes "Of sh = Inr t"
  shows "wf_tracker (Size sh) t" and "tracker_Shape t = sh" and "Contiguous t"
    and "in_bounds sh cs \<Longrightarrow> t_addr t cs = Some (ravel sh cs)"
proof -
  from assms obtain v where v: "create sh None 0 None = Inr v" "t = \<lparr>views = [v]\<rparr>"
    by (auto simp: Of_def)
  have sh: "v_shape v = sh" using v(1) create_None create_Some(3) by metis
  note a = create_contiguous_addr [OF v(1)]
  have "range_ok v (Size sh)" using a ravel_bounds sh by (auto simp: range_ok_def)
  then show "wf_tracker (Size sh) t"
    using v create_contiguous_wf by (simp add: wf_tracker_def)
  show "tracker_Shape t = sh" using v sh by (simp add: tracker_Shape_def last_view_def)
  show "Contiguous t"
    using v(2) by (simp add: create_contiguous_fields [OF v(1)] Contiguous_def contiguous_def)
  show "in_bounds sh cs \<Longrightarrow> t_addr t cs = Some (ravel sh cs)"
    using a v(2) by (simp add: t_addr_def last_view_def)
qed

lemma Of_ok: "(\<exists>t. Of sh = Inr t) \<longleftrightarrow> live sh"
  using create_contiguous_ok [of sh] create_None [of sh 0 None] create_Some(1) [of sh "stridesFor sh" 0 None]
  by (auto simp: Of_def bind_result_eq_Inr)

text \<open>Negative axes count from the last one.\<close>

definition norm_axis :: "nat \<Rightarrow> int \<Rightarrow> int" where
  "norm_axis rank a = (if a < 0 then a + int rank else a)"

lemma normalize_loop_eq:
  "normalize_loop axes (int rank) =
     (if \<forall>a \<in> set axes. - int rank \<le> a \<and> a < int rank then Inr (map (norm_axis rank) axes) else Inl ErrAxis)"
  by (induction axes) (auto simp: norm_axis_def Let_def)

lemma normalizeAxes_eq:
  "normalizeAxes axes rank perm =
     (if (\<forall>a \<in> set axes. - int rank \<le> a \<and> a < int rank) \<and>
         (perm \<longrightarrow> isPermutation (map (norm_axis rank) axes) rank)
      then Inr (map (norm_axis rank) axes) else Inl ErrAxis)"
  by (auto simp: normalizeAxes_def normalize_loop_eq)

lemma Permute_refines:
  assumes wf: "wf_tracker n t" and p: "Permute t axes = Inr t'"
  defines "ax \<equiv> map (norm_axis (length (tracker_Shape t))) axes"
  shows "wf_tracker n t'" and "tracker_Shape t' = gather ax (tracker_Shape t)"
    and "in_bounds (tracker_Shape t) cs \<Longrightarrow> t_addr t' (gather ax cs) = t_addr t cs"
proof -
  have ne: "views t \<noteq> []" using wf by (rule wf_tracker_nonempty)
  then have ax: "ax = map (norm_axis (length (v_shape (last_view t)))) axes"
    by (simp add: ax_def tracker_Shape_def)
  from p wf obtain v' where v: "permute (last_view t) ax = Inr v'" "t' = replace t v'"
    by (auto simp: Permute_def normalizeAxes_eq ax split: if_splits)
  show "wf_tracker n t'" "tracker_Shape t' = gather ax (tracker_Shape t)"
    using permuting.tracker_wf [OF wf v(1)] permuting.tracker_shape [OF wf v(1)] v(2) by simp_all
  show "t_addr t' (gather ax cs) = t_addr t cs" if "in_bounds (tracker_Shape t) cs"
    using permute_addr [OF wf_tracker_last [OF wf] v(1)] that ne v(2)
    by (simp add: t_addr_def tracker_Shape_def)
qed

lemma fold_flags:
  assumes "\<And>a. a \<in> set as \<Longrightarrow> 0 \<le> a \<and> a < int n" and "length w = n"
  shows "length (fold (\<lambda>a w. w[nat a := True]) as w) = n"
    and "i < n \<Longrightarrow> fold (\<lambda>a w. w[nat a := True]) as w ! i \<longleftrightarrow> w ! i \<or> int i \<in> set as"
proof -
  show "length (fold (\<lambda>a w. w[nat a := True]) as w) = n"
    using assms by (induction as arbitrary: w) auto
  assume i: "i < n"
  show "fold (\<lambda>a w. w[nat a := True]) as w ! i \<longleftrightarrow> w ! i \<or> int i \<in> set as"
    using assms
  proof (induction as arbitrary: w)
    case (Cons a as)
    have "w[nat a := True] ! i \<longleftrightarrow> w ! i \<or> int i = a"
      using Cons.prems(1) [of a] Cons.prems(2) i by (auto simp: nth_list_update)
    then show ?case using Cons.IH [of "w[nat a := True]"] Cons.prems by auto
  qed simp
qed

text \<open>The coordinates a flip reads: mirrored on the axes named, once each.\<close>

definition mirror :: "shape \<Rightarrow> int set \<Rightarrow> int list \<Rightarrow> int list" where
  "mirror sh A cs = map (\<lambda>i. if int i \<in> A then sh ! i - 1 - cs ! i else cs ! i) [0..<length cs]"

lemma Flip_refines:
  assumes wf: "wf_tracker n t" and f: "Flip t axes = Inr t'"
  shows "wf_tracker n t'" and "tracker_Shape t' = tracker_Shape t"
    and "in_bounds (tracker_Shape t) cs \<Longrightarrow>
      t_addr t' cs = t_addr t (mirror (tracker_Shape t) (norm_axis (length (tracker_Shape t)) ` set axes) cs)"
proof -
  let ?sh = "tracker_Shape t" let ?A = "norm_axis (length ?sh) ` set axes"
  have ne: "views t \<noteq> []" using wf by (rule wf_tracker_nonempty)
  have sh: "v_shape (last_view t) = ?sh" using ne by (simp add: tracker_Shape_def)
  define w where "w = fold (\<lambda>a w. w[nat a := True]) (map (norm_axis (length ?sh)) axes) (replicate (length ?sh) False)"
  consider (same) "axes = []" "t' = t"
    | (flip) v' where "flip (last_view t) w = Inr v'" "t' = replace t v'"
        "\<forall>a \<in> set axes. - int (length ?sh) \<le> a \<and> a < int (length ?sh)"
  proof (cases "axes = []")
    case False
    have "bind_result (normalizeAxes axes (length ?sh) False) (\<lambda>norm.
        bind_result (flip (last_view t) (fold (\<lambda>a w. w[nat a := True]) norm (replicate (length ?sh) False)))
          (\<lambda>v. Inr (replace t v))) = Inr t'"
      using f wf False by (simp add: Flip_def sh Let_def)
    then obtain norm v' where nv: "normalizeAxes axes (length ?sh) False = Inr norm"
      "flip (last_view t) (fold (\<lambda>a w. w[nat a := True]) norm (replicate (length ?sh) False)) = Inr v'"
      "t' = replace t v'"
      by blast
    from nv(1) have "norm = map (norm_axis (length ?sh)) axes"
      "\<forall>a \<in> set axes. - int (length ?sh) \<le> a \<and> a < int (length ?sh)"
      by (simp_all add: normalizeAxes_eq split: if_splits)
    then show ?thesis using flip nv by (simp add: w_def)
  next
    case True
    then have "t' = t" using f wf by (simp add: Flip_def Let_def)
    with True show ?thesis by (rule same)
  qed
  then have "wf_tracker n t' \<and> tracker_Shape t' = ?sh \<and>
    (in_bounds ?sh cs \<longrightarrow> t_addr t' cs = t_addr t (mirror ?sh ?A cs))"
  proof cases
    case same
    then show ?thesis using wf by (simp add: mirror_def map_nth)
  next
    case flip
    have r: "0 \<le> a \<and> a < int (length ?sh)" if "a \<in> set (map (norm_axis (length ?sh)) axes)" for a
      using flip(3) that by (auto simp: norm_axis_def)
    have lw: "length w = length ?sh" unfolding w_def by (rule fold_flags(1) [OF r]) simp_all
    have nw: "w ! i \<longleftrightarrow> int i \<in> ?A" if "i < length ?sh" for i
      using fold_flags(2) [where w = "replicate (length ?sh) False" and as = "map (norm_axis (length ?sh)) axes", OF r _ that] that by (simp add: w_def)
    have "flip_coords ?sh w cs = mirror ?sh ?A cs" if "in_bounds ?sh cs"
      using lw nw in_bounds_length [OF that]
      by (intro nth_equalityI) (simp_all add: flip_coords_def mirror_def)
    then show ?thesis
      using flipping.tracker_wf [OF wf flip(1)] flipping.tracker_shape [OF wf flip(1)]
        flipping.tracker_addr [OF wf flip(1)] flip(2) by auto
  qed
  then show "wf_tracker n t'" "tracker_Shape t' = ?sh"
    "in_bounds ?sh cs \<Longrightarrow> t_addr t' cs = t_addr t (mirror ?sh ?A cs)" by auto
qed

lemma Reshape_cases:
  assumes "wf_tracker n t" and "Reshape t sh = Some (Inr t')"
  obtains (view) sh' v' where "Infer sh (tracker_Size t) = Inr sh'" "reshape (last_view t) sh' = Some (Some v')" "t' = replace t v'"
  | (stack) sh' v' where "Infer sh (tracker_Size t) = Inr sh'" "create sh' None 0 None = Inr v'" "t' = \<lparr>views = views t @ [v']\<rparr>"
  using assms by (auto simp: Reshape_def bind_result_eq_Inr split: sum.splits option.splits)

text \<open>Stacking a contiguous view renumbers the cells of the one below.\<close>

lemma stack_refines:
  assumes wf: "wf_tracker n t" and v: "create sh None 0 None = Inr v'" and sz: "prod_list sh = tracker_Size t"
  shows "wf_tracker n \<lparr>views = views t @ [v']\<rparr>" and "tracker_Shape \<lparr>views = views t @ [v']\<rparr> = sh"
    and "in_bounds sh cs \<Longrightarrow> t_addr \<lparr>views = views t @ [v']\<rparr> cs = t_addr t (same_cell (tracker_Shape t) sh cs)"
proof -
  have ne: "views t \<noteq> []" using wf by (rule wf_tracker_nonempty)
  have sh: "v_shape v' = sh" using v create_None create_Some(3) by metis
  have "range_ok v' (view_size (last_view t))"
    using create_contiguous_addr [OF v] ravel_bounds [of sh] sh sz ne by (auto simp: range_ok_def tracker_Size_def)
  then have "stack_ok n (v' # rev (views t))"
    unfolding tracker_split [OF ne] using wf_tracker_stack [OF wf] create_contiguous_wf [OF v] by simp
  then show "wf_tracker n \<lparr>views = views t @ [v']\<rparr>" by (simp add: wf_tracker_def)
  show "tracker_Shape \<lparr>views = views t @ [v']\<rparr> = sh" using sh by (simp add: tracker_Shape_def last_view_def)
  show "t_addr \<lparr>views = views t @ [v']\<rparr> cs = t_addr t (same_cell (tracker_Shape t) sh cs)" if "in_bounds sh cs"
  proof -
    have "t_addr \<lparr>views = views t @ [v']\<rparr> cs = through (rev (views t)) (ravel sh cs)"
      using create_contiguous_addr [OF v that] by (simp add: t_addr_def last_view_def)
    also have "\<dots> = t_addr t (same_cell (tracker_Shape t) sh cs)"
      unfolding tracker_split [OF ne] using ne by (simp add: t_addr_def same_cell_def tracker_Shape_def)
    finally show ?thesis .
  qed
qed

lemma Reshape_returns:
  assumes "wf_tracker n t"
  shows "\<exists>r. Reshape t sh = Some r"
proof (cases "Infer sh (tracker_Size t)")
  case (Inr sh')
  have "tracker_Size t = prod_list (v_shape (last_view t))"
    using wf_tracker_nonempty [OF assms] by (simp add: tracker_Size_def view_size_def)
  moreover have "live sh'" "Size sh' = tracker_Size t"
    using Infer_sound [OF Inr wf_tracker_Size(2) [OF assms]] by simp_all
  ultimately obtain r where "reshape (last_view t) sh' = Some r"
    using reshape_returns [OF wf_tracker_last [OF assms]] by auto
  then show ?thesis using Inr assms by (cases r) (simp_all add: Reshape_def)
qed (use assms in \<open>simp add: Reshape_def\<close>)

section \<open>The host buffer\<close>

text \<open>Both loops run over the axes together: the largest reachable offset, axis by axis.\<close>

definition axis_span :: "int \<Rightarrow> span option \<Rightarrow> span" where
  "axis_span s m = (case m of None \<Rightarrow> (0, s) | Some p \<Rightarrow> p)"

lemma real_loop_covers:
  assumes "length ss = length sh" and "length ms = length sh" and "length cs = length sh"
    and "\<And>i. i < length sh \<Longrightarrow> fst (axis_span (sh ! i) (ms ! i)) \<le> cs ! i \<and> cs ! i < snd (axis_span (sh ! i) (ms ! i))"
  shows "\<exists>m. real_loop sh ss ms off = Some m \<and> off + dot cs ss \<le> m"
  using assms
proof (induction sh arbitrary: ss ms cs off)
  case Nil
  then show ?case by simp
next
  case (Cons s sh)
  then obtain st ss' m ms' c cs' where l: "ss = st # ss'" "ms = m # ms'" "cs = c # cs'"
    by (cases ss; cases ms; cases cs) auto
  obtain lo hi where sp: "axis_span s m = (lo, hi)" by fastforce
  have c: "lo \<le> c" "c < hi" using Cons.prems(4) [of 0] l sp by auto
  have "c * st \<le> (if lo * st > (hi - 1) * st then lo * st else (hi - 1) * st)" (is "_ \<le> ?b")
  proof (cases "0 \<le> st")
    case True
    then have "c * st \<le> (hi - 1) * st" using c by (intro mult_right_mono) auto
    then show ?thesis by simp
  next
    case False
    then have "c * st \<le> lo * st" using c by (intro mult_right_mono_neg) auto
    then show ?thesis by simp
  qed
  moreover obtain mx where "real_loop sh ss' ms' (off + ?b) = Some mx" "off + ?b + dot cs' ss' \<le> mx"
    using Cons.IH [of ss' ms' cs' "off + ?b"] Cons.prems(1-3) Cons.prems(4) [of "Suc _"] l by auto
  moreover have "real_loop (s # sh) ss ms off = real_loop sh ss' ms' (off + ?b)"
    using l sp c by (simp add: axis_span_def Let_def)
  ultimately show ?case using l by (intro exI [of _ mx]) auto
qed

lemma mask_ok_spans:
  assumes "wf_view v" and ib: "in_bounds (v_shape v) cs" and "mask_ok (v_mask v) cs" and i: "i < length (v_shape v)"
  shows "fst (axis_span (v_shape v ! i) (axis_masks (v_mask v) (length (v_shape v)) ! i)) \<le> cs ! i \<and>
         cs ! i < snd (axis_span (v_shape v ! i) (axis_masks (v_mask v) (length (v_shape v)) ! i))"
  using assms wf_lengths(2) [OF assms(1)] in_bounds_nth [OF ib i]
  by (cases "v_mask v") (auto simp: axis_span_def axis_masks_def mask_ok_def)

lemma view_offset_below_real:
  assumes wf: "wf_view v" and ib: "in_bounds (v_shape v) cs" and a: "addr v cs = Some off"
  shows "\<exists>m. real_loop (v_shape v) (v_strides v) (axis_masks (v_mask v) (length (v_shape v))) (v_offset v) = Some m \<and> off \<le> m"
proof -
  have "affine (v_strides v) (v_offset v) (v_mask v) cs = Some off"
    using wf_addr [OF wf] a in_bounds_length [OF ib] by simp
  then have ok: "mask_ok (v_mask v) cs" "off = v_offset v + dot cs (v_strides v)"
    by (auto simp: affine_def split: if_splits)
  have "length (axis_masks (v_mask v) (length (v_shape v))) = length (v_shape v)"
    using wf_lengths(2) [OF wf] by (cases "v_mask v") (auto simp: axis_masks_def)
  from real_loop_covers [OF wf_lengths(1) [OF wf] this in_bounds_length [OF ib] mask_ok_spans [OF wf ib ok(1)]]
  show ?thesis using ok(2) by simp
qed

lemma through_bottom:
  assumes "stack_ok n (v # vs)" and "in_bounds (v_shape v) cs" and "addr v cs = Some o1"
    and "through vs o1 = Some off"
  shows "\<exists>cs'. in_bounds (v_shape (last (v # vs))) cs' \<and> addr (last (v # vs)) cs' = Some off"
  using assms
proof (induction vs arbitrary: v cs o1)
  case Nil
  then show ?case by auto
next
  case (Cons w vs)
  have r: "0 \<le> o1" "o1 < view_size w" using Cons.prems by (auto simp: range_ok_def)
  have "live (v_shape w)" using Cons.prems(1) by (cases vs) (auto simp: wf_view_def)
  moreover have "\<not> HasZero (v_shape w)"
    using r by (metis HasZero_iff Size_prod leD prod_list_zero_iff view_size_def)
  ultimately have "in_bounds (v_shape w) (unravel (v_shape w) o1)"
    using live_nonzero_pos r(1) by (intro unravel_in_bounds) auto
  then show ?case using Cons by (auto simp: bind_eq_Some_conv)
qed

lemma stack_ok_bottom: "stack_ok n (v # vs) \<Longrightarrow> wf_view (last (v # vs)) \<and> range_ok (last (v # vs)) n"
  by (induction vs arbitrary: v) auto

lemma RealSize_covers:
  assumes wf: "wf_tracker n t" and ib: "in_bounds (tracker_Shape t) cs" and a: "t_addr t cs = Some off"
  shows "0 \<le> off \<and> off < RealSize t"
proof -
  have ne: "views t \<noteq> []" using wf by (rule wf_tracker_nonempty)
  let ?st = "last_view t # rev (butlast (views t))"
  have bot: "last ?st = views t ! 0"
    using ne tracker_split [OF ne] by (metis hd_conv_nth hd_rev rev_rev_ident last_rev)
  from a obtain o1 where "addr (last_view t) cs = Some o1" "through (rev (butlast (views t))) o1 = Some off"
    by (auto simp: t_addr_def bind_eq_Some_conv)
  moreover have "in_bounds (v_shape (last_view t)) cs" using ib ne by (simp add: tracker_Shape_def)
  ultimately obtain cs' where cs': "in_bounds (v_shape (views t ! 0)) cs'" "addr (views t ! 0) cs' = Some off"
    using through_bottom [OF wf_tracker_stack [OF wf]] unfolding bot by blast
  have "wf_view (views t ! 0)" using stack_ok_bottom [OF wf_tracker_stack [OF wf]] bot by simp
  from view_offset_below_real [OF this cs'] show ?thesis
    using in_bounds_no_zero [OF cs'(1)] ne t_addr_range [OF wf ib a] by (auto simp: RealSize_def Let_def)
qed

text \<open>A splat keeps the one cell's offset and has rank zero.\<close>

lemma Splat_correct:
  assumes wf: "wf_tracker n t" and "Splat t = Inr t'"
  shows "tracker_Size t = 1 \<and> wf_tracker n t' \<and> tracker_Shape t' = [] \<and>
         t_addr t' [] = t_addr t (unravel (tracker_Shape t) 0) \<and> t_addr t' [] \<noteq> None"
proof -
  from assms obtain off v where v: "tracker_Size t = 1" "At t 0 = Inr (off, True)"
    "create [] None off None = Inr v" "t' = \<lparr>views = [v]\<rparr>"
    by (auto simp: Splat_def split: if_splits)
  have "Index t (unravel (tracker_Shape t) 0) = Inr (off, True)"
    using At_correct(1) [OF wf, of 0] v(1,2) by simp
  then have i: "in_bounds (tracker_Shape t) (unravel (tracker_Shape t) 0)" "t_addr t (unravel (tracker_Shape t) 0) = Some off"
    using Index_valid_iff [OF wf] by simp_all
  have vf: "v = \<lparr>v_shape = [], v_strides = [], v_offset = off, v_mask = None\<rparr>"
    using v(3) by (auto simp: create_def create_mask_def shape_check_err live_def)
  have "wf_tracker n t'"
    using t_addr_range [OF wf i]
    by (simp add: v(4) vf wf_tracker_def wf_view_def live_def mask_wf_def range_ok_def addr_def index_def)
  then show ?thesis
    using v(1) i(2) by (simp add: v(4) vf tracker_Shape_def last_view_def t_addr_def addr_def index_def)
qed


section \<open>Reshaping a tracker\<close>

text \<open>The reshape of an unmasked view, as a movement.\<close>

definition reshape_plain :: "shape \<Rightarrow> view \<Rightarrow> view nd_result" where
  "reshape_plain sh v =
     (if v_mask v = None \<and> prod_list sh = prod_list (v_shape v)
      then (case reshape v sh of Some (Some v') \<Rightarrow> Inr v' | _ \<Rightarrow> Inl ErrShape) else Inl ErrShape)"

lemma reshape_plain_Inr:
  "reshape_plain sh v = Inr v' \<longleftrightarrow>
     v_mask v = None \<and> prod_list sh = prod_list (v_shape v) \<and> reshape v sh = Some (Some v')"
  by (auto simp: reshape_plain_def split: if_splits option.splits)

lemma wf_view_live: "wf_view v \<Longrightarrow> live (v_shape v)"
  by (simp add: wf_view_def)

interpretation reshaping: movement reshape_plain "\<lambda>sh _. sh" "\<lambda>sh old cs. Some (same_cell old sh cs)"
  by unfold_locales
     (auto simp: reshape_plain_Inr reshape_wf reshape_shape reshape_addr same_cell_in_bounds wf_view_live)

lemma Reshape_refines:
  assumes wf: "wf_tracker n t" and nm: "v_mask (last_view t) = None" and r: "Reshape t sh = Some (Inr t')"
  shows "wf_tracker n t'" and "Infer sh (tracker_Size t) = Inr (tracker_Shape t')"
    and "in_bounds (tracker_Shape t') cs \<Longrightarrow>
      t_addr t' cs = t_addr t (same_cell (tracker_Shape t) (tracker_Shape t') cs)"
proof -
  have sz: "prod_list sh' = tracker_Size t" if "Infer sh (tracker_Size t) = Inr sh'" for sh'
    using Infer_sound [OF that] wf_tracker_Size(2) [OF wf] by (simp add: Size_def)
  have "wf_tracker n t' \<and> Infer sh (tracker_Size t) = Inr (tracker_Shape t') \<and>
    (in_bounds (tracker_Shape t') cs \<longrightarrow> t_addr t' cs = t_addr t (same_cell (tracker_Shape t) (tracker_Shape t') cs))"
    using wf r
  proof (cases rule: Reshape_cases)
    case (view sh' v')
    have "reshape_plain sh' (last_view t) = Inr v'"
      using view nm sz wf by (simp add: reshape_plain_Inr tracker_Size_def tracker_Shape_def Size_def view_size_def wf_tracker_nonempty)
    note r = this
    show ?thesis
      using reshaping.tracker_wf [OF wf r] reshaping.tracker_shape [OF wf r] reshaping.tracker_addr [OF wf r] view
      by simp
  next
    case (stack sh' v')
    show ?thesis using stack stack_refines [OF wf stack(2) sz [OF stack(1)]] by simp
  qed
  then show "wf_tracker n t'" "Infer sh (tracker_Size t) = Inr (tracker_Shape t')"
    "in_bounds (tracker_Shape t') cs \<Longrightarrow> t_addr t' cs = t_addr t (same_cell (tracker_Shape t) (tracker_Shape t') cs)"
    by blast+
qed

lemma Reshape_succeeds_iff:
  assumes wf: "wf_tracker n t"
  shows "(\<exists>t'. Reshape t sh = Some (Inr t')) \<longleftrightarrow> (\<exists>sh'. Infer sh (tracker_Size t) = Inr sh')"
proof
  assume "\<exists>sh'. Infer sh (tracker_Size t) = Inr sh'"
  then obtain sh' where sh': "Infer sh (tracker_Size t) = Inr sh'" ..
  then have "live sh'" using Infer_sound [OF sh'] wf_tracker_Size(2) [OF wf] by simp
  moreover obtain r where "Reshape t sh = Some r" using Reshape_returns [OF wf] by blast
  ultimately show "\<exists>t'. Reshape t sh = Some (Inr t')"
    using sh' wf create_contiguous_ok [of sh']
    by (auto simp: Reshape_def split: option.splits)
qed (use wf in \<open>auto elim: Reshape_cases\<close>)

end
