(* ===== verification/WorldCore.thy ===== *)
theory WorldCore
  imports LewPrelude "HOL-Library.Word"
begin

text \<open>
  The entity store of \<open>x/ui/world\<close>: generational entities and the deferred queue
  (\<open>world.go\<close>), typed columns (\<open>column.go\<close>), change detection (\<open>change.go\<close>), resources
  (\<open>resource.go\<close>) and the spawn helpers (\<open>spawn.go\<close>).

  A Go type used as a column, resource or message key is a \<open>key\<close>; the values of all keys
  live in one type \<open>'v\<close>. A \<open>*row[T]\<close> is a row number of the heap \<open>rows\<close>, so that a pointer
  from \<open>Mut\<close> or a watch still refers to the row after the column drops it. The closures the
  package queues are the constructors of \<open>deferred\<close>; \<open>UserFn n\<close> is a closure of the caller,
  whose effect is the parameter \<open>code n\<close>. Generations are \<open>32 word\<close>s and wrap; the
  \<open>uint64\<close> counters (frames, clocks, stamps) and entity indices are \<^typ>\<open>nat\<close>, since they
  only count up. A nil \<open>*World\<close> is not modelled.
\<close>

section \<open>State\<close>

type_synonym key = nat

record entity =
  e_index :: nat
  e_gen :: "32 word"

record slot =
  s_gen :: "32 word"
  s_alive :: bool

record 'v row =
  r_gen :: "32 word"
  r_stamp :: nat
  r_tick :: nat
  r_v :: 'v

record table =
  sparse :: "nat option list"
  ids :: "nat list"

record 'v cell =
  c_v :: 'v
  c_tick :: nat

record 'v messages =
  m_items :: "'v list"
  m_born :: "nat list"
  m_start :: nat
  m_next :: nat
  m_cursors :: "int \<Rightarrow> nat"

datatype deferred = DespawnNow entity | ClearStamp key entity nat | UserFn nat

datatype 'v watching = WatchRow nat 'v | WatchCell key 'v

record 'v world =
  frame :: nat
  clock :: nat
  seen :: nat
  sysLast :: nat
  reader :: int
  inFrame :: bool
  inSystem :: bool
  flushing :: bool
  queue :: "deferred list"
  watches :: "'v watching list"
  slots :: "slot list"
  free :: "nat list"
  cols :: "key \<rightharpoonup> table"
  clean :: "key list"
  res :: "key \<rightharpoonup> 'v cell"
  msgs :: "key \<rightharpoonup> 'v messages"
  rolls :: "key list"
  rows :: "'v row list"

definition outsideReader :: int where
  "outsideReader = -1"

definition newWorld :: "'v world" where
  "newWorld = \<lparr>frame = 0, clock = 0, seen = 0, sysLast = 0, reader = outsideReader,
     inFrame = False, inSystem = False, flushing = False, queue = [], watches = [],
     slots = [], free = [], cols = Map.empty, clean = [], res = Map.empty,
     msgs = Map.empty, rolls = [], rows = []\<rparr>"

section \<open>Entities\<close>

definition Spawn :: "'v world \<Rightarrow> entity \<times> 'v world" where
  "Spawn w =
     (if free w \<noteq> []
      then (let index = last (free w); s = slots w ! index
            in (\<lparr>e_index = index, e_gen = s_gen s\<rparr>,
                w\<lparr>free := butlast (free w), slots := (slots w)[index := s\<lparr>s_alive := True\<rparr>]\<rparr>))
      else (\<lparr>e_index = length (slots w), e_gen = 1\<rparr>,
            w\<lparr>slots := slots w @ [\<lparr>s_gen = 1, s_alive = True\<rparr>]\<rparr>))"

definition Alive :: "'v world \<Rightarrow> entity \<Rightarrow> bool" where
  "Alive w e \<longleftrightarrow>
     (if e_gen e = 0 \<or> e_index e \<ge> length (slots w) then False
      else s_alive (slots w ! e_index e) \<and> s_gen (slots w ! e_index e) = e_gen e)"

section \<open>Change marks\<close>

text \<open>\<open>same\<close> is \<open>==\<close> on comparable types and \<open>reflect.DeepEqual\<close> on the others.\<close>

definition same :: "'v \<Rightarrow> 'v \<Rightarrow> bool" where
  "same a b \<longleftrightarrow> a = b"

definition mark_row :: "nat \<Rightarrow> 'v world \<Rightarrow> 'v world" where
  "mark_row r w = (if clock w = 0 then w
     else w\<lparr>rows := (rows w)[r := (rows w ! r)\<lparr>r_tick := clock w\<rparr>]\<rparr>)"

definition mark_cell :: "key \<Rightarrow> 'v world \<Rightarrow> 'v world" where
  "mark_cell k w = (if clock w = 0 then w
     else w\<lparr>res := (res w)(k := map_option (\<lambda>c. c\<lparr>c_tick := clock w\<rparr>) (res w k))\<rparr>)"

definition watch :: "'v watching \<Rightarrow> 'v world \<Rightarrow> 'v world" where
  "watch f w = w\<lparr>watches := watches w @ [f]\<rparr>"

fun run_watch :: "'v watching \<Rightarrow> 'v world \<Rightarrow> 'v world" where
  "run_watch (WatchRow r before) w =
     (if \<not> same before (r_v (rows w ! r)) then mark_row r w else w)"
| "run_watch (WatchCell k before) w =
     (case res w k of
        None \<Rightarrow> w
      | Some c \<Rightarrow> if \<not> same before (c_v c) then mark_cell k w else w)"

definition evalWatches :: "'v world \<Rightarrow> 'v world" where
  "evalWatches w = fold run_watch (watches w) w"

definition settle :: "'v world \<Rightarrow> 'v world" where
  "settle w = (evalWatches w)\<lparr>watches := []\<rparr>"

text \<open>The comparison of \<open>changed\<close>, on the tick read after the watches ran.\<close>

definition newer :: "'v world \<Rightarrow> nat \<Rightarrow> bool" where
  "newer w tick =
     (if tick = 0 then False else if inSystem w then tick > sysLast w else tick > seen w)"

definition changed_row :: "nat \<Rightarrow> 'v world \<Rightarrow> bool \<times> 'v world" where
  "changed_row r w = (let w' = evalWatches w in (newer w' (r_tick (rows w' ! r)), w'))"

definition changed_cell :: "key \<Rightarrow> 'v world \<Rightarrow> bool \<times> 'v world" where
  "changed_cell k w = (let w' = evalWatches w in
     ((case res w' k of None \<Rightarrow> False | Some c \<Rightarrow> newer w' (c_tick c)), w'))"

section \<open>Columns\<close>

definition Column :: "key \<Rightarrow> 'v world \<Rightarrow> 'v world" where
  "Column k w =
     (case cols w k of
        Some _ \<Rightarrow> w
      | None \<Rightarrow> w\<lparr>cols := (cols w)(k \<mapsto> \<lparr>sparse = [], ids = []\<rparr>), clean := clean w @ [k]\<rparr>)"

definition Len :: "key \<Rightarrow> 'v world \<Rightarrow> nat" where
  "Len k w = (case cols w k of None \<Rightarrow> 0 | Some t \<Rightarrow> length (ids t))"

definition grow :: "nat \<Rightarrow> table \<Rightarrow> table" where
  "grow index t =
     (if index < length (sparse t) then t
      else t\<lparr>sparse := sparse t @ replicate (index + 1 - length (sparse t)) None\<rparr>)"

definition lookup :: "'v world \<Rightarrow> key \<Rightarrow> entity \<Rightarrow> nat option" where
  "lookup w k e =
     (case cols w k of
        None \<Rightarrow> None
      | Some t \<Rightarrow>
          if \<not> Alive w e \<or> e_index e \<ge> length (sparse t) then None
          else (case sparse t ! e_index e of
                  None \<Rightarrow> None
                | Some r \<Rightarrow> if r_gen (rows w ! r) \<noteq> e_gen e then None else Some r))"

definition Insert :: "key \<Rightarrow> entity \<Rightarrow> 'v \<Rightarrow> 'v world \<Rightarrow> 'v world" where
  "Insert k e v w =
     (case cols w k of
        None \<Rightarrow> w
      | Some t0 \<Rightarrow>
          if \<not> Alive w e then w
          else
            (let t = grow (e_index e) t0 in
             case sparse t ! e_index e of
               None \<Rightarrow>
                 (let r = length (rows w)
                  in mark_row r (w\<lparr>
                       rows := rows w @ [\<lparr>r_gen = e_gen e, r_stamp = 1, r_tick = 0, r_v = v\<rparr>],
                       cols := (cols w)(k \<mapsto> t\<lparr>sparse := (sparse t)[e_index e := Some r],
                                                 ids := ids t @ [e_index e]\<rparr>)\<rparr>))
             | Some r \<Rightarrow>
                 (let entry = rows w ! r;
                      w' = w\<lparr>cols := (cols w)(k \<mapsto> t),
                             rows := (rows w)[r := entry\<lparr>r_gen := e_gen e, r_v := v,
                                                          r_stamp := r_stamp entry + 1\<rparr>]\<rparr>
                  in if r_gen entry \<noteq> e_gen e \<or> \<not> same (r_v entry) v then mark_row r w' else w')))"

definition Get :: "'v world \<Rightarrow> key \<Rightarrow> entity \<Rightarrow> 'v option" where
  "Get w k e = map_option (\<lambda>r. r_v (rows w ! r)) (lookup w k e)"

text \<open>\<open>Mut\<close> returns the row; \<open>poke\<close> is a write of the caller through the pointer.\<close>

definition Mut :: "key \<Rightarrow> entity \<Rightarrow> 'v world \<Rightarrow> nat option \<times> 'v world" where
  "Mut k e w =
     (case lookup w k e of
        None \<Rightarrow> (None, w)
      | Some r \<Rightarrow> (Some r, watch (WatchRow r (r_v (rows w ! r))) w))"

definition poke :: "nat \<Rightarrow> 'v \<Rightarrow> 'v world \<Rightarrow> 'v world" where
  "poke r v w = w\<lparr>rows := (rows w)[r := (rows w ! r)\<lparr>r_v := v\<rparr>]\<rparr>"

definition Changed :: "key \<Rightarrow> entity \<Rightarrow> 'v world \<Rightarrow> bool \<times> 'v world" where
  "Changed k e w =
     (case lookup w k e of None \<Rightarrow> (False, w) | Some r \<Rightarrow> changed_row r w)"

text \<open>The first occurrence of \<open>index\<close> is overwritten by the last one.\<close>

fun swap_remove :: "nat \<Rightarrow> nat list \<Rightarrow> nat list" where
  "swap_remove index [] = []"
| "swap_remove index (x # xs) =
     (if x = index then (if xs = [] then [] else last xs # butlast xs)
      else x # swap_remove index xs)"

definition drop_row :: "key \<Rightarrow> entity \<Rightarrow> nat \<Rightarrow> bool \<Rightarrow> 'v world \<Rightarrow> 'v world" where
  "drop_row k e stamp checkStamp w =
     (case cols w k of
        None \<Rightarrow> w
      | Some t \<Rightarrow>
          if e_index e \<ge> length (sparse t) then w
          else
            (case sparse t ! e_index e of
               None \<Rightarrow> w
             | Some r \<Rightarrow>
                 if r_gen (rows w ! r) \<noteq> e_gen e then w
                 else if checkStamp \<and> r_stamp (rows w ! r) \<noteq> stamp then w
                 else w\<lparr>cols := (cols w)(k \<mapsto>
                          \<lparr>sparse = (sparse t)[e_index e := None],
                           ids = swap_remove (e_index e) (ids t)\<rparr>)\<rparr>))"

definition clear :: "key \<Rightarrow> entity \<Rightarrow> 'v world \<Rightarrow> 'v world" where
  "clear k e w = drop_row k e 0 False w"

definition clearStamp :: "key \<Rightarrow> entity \<Rightarrow> nat \<Rightarrow> 'v world \<Rightarrow> 'v world" where
  "clearStamp k e stamp w = drop_row k e stamp True w"

section \<open>Deferred edits\<close>

definition despawnNow :: "entity \<Rightarrow> 'v world \<Rightarrow> 'v world" where
  "despawnNow e w =
     (if \<not> Alive w e then w
      else
        (let w' = fold (\<lambda>k. clear k e) (clean w) w;
             s = slots w' ! e_index e;
             gen = s_gen s + 1
         in w'\<lparr>slots := (slots w')[e_index e := \<lparr>s_gen = (if gen = 0 then 1 else gen), s_alive = False\<rparr>],
               free := free w' @ [e_index e]\<rparr>))"

fun exec :: "(nat \<Rightarrow> 'v world \<Rightarrow> 'v world) \<Rightarrow> deferred \<Rightarrow> 'v world \<Rightarrow> 'v world" where
  "exec code (DespawnNow e) w = despawnNow e w"
| "exec code (ClearStamp k e stamp) w = clearStamp k e stamp w"
| "exec code (UserFn n) w = code n w"

definition Defer :: "(nat \<Rightarrow> 'v world \<Rightarrow> 'v world) \<Rightarrow> deferred \<Rightarrow> 'v world \<Rightarrow> 'v world" where
  "Defer code fn w =
     (if inSystem w \<or> flushing w then w\<lparr>queue := queue w @ [fn]\<rparr> else exec code fn w)"

definition Despawn :: "(nat \<Rightarrow> 'v world \<Rightarrow> 'v world) \<Rightarrow> entity \<Rightarrow> 'v world \<Rightarrow> 'v world" where
  "Despawn code e w = Defer code (DespawnNow e) w"

definition Remove :: "(nat \<Rightarrow> 'v world \<Rightarrow> 'v world) \<Rightarrow> key \<Rightarrow> entity \<Rightarrow> 'v world \<Rightarrow> 'v world" where
  "Remove code k e w =
     (case lookup w k e of
        None \<Rightarrow> w
      | Some r \<Rightarrow> Defer code (ClearStamp k e (r_stamp (rows w ! r))) w)"

text \<open>The caller's closures may queue more work for ever: \<^const>\<open>None\<close> is a flush that does not return.\<close>

partial_function (option) flush_loop ::
  "(nat \<Rightarrow> 'v world \<Rightarrow> 'v world) \<Rightarrow> 'v world \<Rightarrow> 'v world option" where
  "flush_loop code w =
     (if queue w = [] then Some w
      else flush_loop code (fold (exec code) (queue w) (w\<lparr>queue := []\<rparr>)))"

declare flush_loop.simps [code]

definition flush :: "(nat \<Rightarrow> 'v world \<Rightarrow> 'v world) \<Rightarrow> 'v world \<Rightarrow> 'v world option" where
  "flush code w =
     (if flushing w then Some w
      else map_option (\<lambda>w'. settle (w'\<lparr>flushing := False\<rparr>)) (flush_loop code (w\<lparr>flushing := True\<rparr>)))"

section \<open>Walking a column\<close>

text \<open>
  The loop reads \<open>t.ids[i]\<close> of the live table for \<open>i < n\<close>, with \<open>n\<close> taken at the start;
  \<^const>\<open>None\<close> is the index panic when the callback made the table shorter. The callback gets
  the entity and the row its pointer refers to.
\<close>

fun each_loop :: "nat list \<Rightarrow> key \<Rightarrow> (entity \<Rightarrow> nat \<Rightarrow> 'v world \<Rightarrow> 'v world) \<Rightarrow> 'v world \<Rightarrow> 'v world option" where
  "each_loop [] k fn w = Some w"
| "each_loop (i # is) k fn w =
     (case cols w k of
        None \<Rightarrow> None
      | Some t \<Rightarrow>
          if i \<ge> length (ids t) \<or> ids t ! i \<ge> length (sparse t) then None
          else
            (case sparse t ! (ids t ! i) of
               None \<Rightarrow> each_loop is k fn w
             | Some r \<Rightarrow>
                 (let e = \<lparr>e_index = ids t ! i, e_gen = r_gen (rows w ! r)\<rparr> in
                  if \<not> Alive w e then each_loop is k fn w
                  else
                    (let before = r_v (rows w ! r);
                         w' = fn e r w
                     in each_loop is k fn
                          (if \<not> same before (r_v (rows w' ! r)) then mark_row r w' else w')))))"

definition Each :: "key \<Rightarrow> (entity \<Rightarrow> nat \<Rightarrow> 'v world \<Rightarrow> 'v world) \<Rightarrow> 'v world \<Rightarrow> 'v world option" where
  "Each k fn w = each_loop [0..<Len k w] k fn w"

fun read_loop :: "nat list \<Rightarrow> key \<Rightarrow> (entity \<Rightarrow> 'v \<Rightarrow> 'v world \<Rightarrow> 'v world) \<Rightarrow> 'v world \<Rightarrow> 'v world option" where
  "read_loop [] k fn w = Some w"
| "read_loop (i # is) k fn w =
     (case cols w k of
        None \<Rightarrow> None
      | Some t \<Rightarrow>
          if i \<ge> length (ids t) \<or> ids t ! i \<ge> length (sparse t) then None
          else
            (case sparse t ! (ids t ! i) of
               None \<Rightarrow> read_loop is k fn w
             | Some r \<Rightarrow>
                 (let e = \<lparr>e_index = ids t ! i, e_gen = r_gen (rows w ! r)\<rparr> in
                  if \<not> Alive w e then read_loop is k fn w
                  else read_loop is k fn (fn e (r_v (rows w ! r)) w))))"

definition Table_Read :: "key \<Rightarrow> (entity \<Rightarrow> 'v \<Rightarrow> 'v world \<Rightarrow> 'v world) \<Rightarrow> 'v world \<Rightarrow> 'v world option" where
  "Table_Read k fn w = read_loop [0..<Len k w] k fn w"

fun join_loop :: "nat list \<Rightarrow> key \<Rightarrow> key \<Rightarrow> (entity \<Rightarrow> nat \<Rightarrow> nat \<Rightarrow> 'v world \<Rightarrow> 'v world)
    \<Rightarrow> 'v world \<Rightarrow> 'v world option" where
  "join_loop [] a b fn w = Some w"
| "join_loop (i # is) a b fn w =
     (case (cols w a, cols w b) of
        (Some ta, Some tb) \<Rightarrow>
          if i \<ge> length (ids ta) \<or> ids ta ! i \<ge> length (sparse ta) then None
          else
            (let index = ids ta ! i in
             case sparse ta ! index of
               None \<Rightarrow> join_loop is a b fn w
             | Some left \<Rightarrow>
                 if index \<ge> length (sparse tb) then join_loop is a b fn w
                 else
                   (case sparse tb ! index of
                      None \<Rightarrow> join_loop is a b fn w
                    | Some right \<Rightarrow>
                        (let e = \<lparr>e_index = index, e_gen = r_gen (rows w ! left)\<rparr> in
                         if r_gen (rows w ! right) \<noteq> r_gen (rows w ! left) \<or> \<not> Alive w e
                         then join_loop is a b fn w
                         else
                           (let beforeA = r_v (rows w ! left); beforeB = r_v (rows w ! right);
                                w1 = fn e left right w;
                                w2 = (if \<not> same beforeA (r_v (rows w1 ! left)) then mark_row left w1 else w1);
                                w3 = (if \<not> same beforeB (r_v (rows w2 ! right)) then mark_row right w2 else w2)
                            in join_loop is a b fn w3))))
      | _ \<Rightarrow> None)"

definition Join :: "key \<Rightarrow> key \<Rightarrow> (entity \<Rightarrow> nat \<Rightarrow> nat \<Rightarrow> 'v world \<Rightarrow> 'v world) \<Rightarrow> 'v world \<Rightarrow> 'v world option" where
  "Join a b fn w =
     (if cols w a = None \<or> cols w b = None then Some w else join_loop [0..<Len a w] a b fn w)"

section \<open>Resources and spawn helpers\<close>

definition Put :: "key \<Rightarrow> 'v \<Rightarrow> 'v world \<Rightarrow> 'v world" where
  "Put k v w =
     (case res w k of
        Some c \<Rightarrow>
          if same (c_v c) v then w
          else mark_cell k (w\<lparr>res := (res w)(k \<mapsto> c\<lparr>c_v := v\<rparr>)\<rparr>)
      | None \<Rightarrow> mark_cell k (w\<lparr>res := (res w)(k \<mapsto> \<lparr>c_v = v, c_tick = 0\<rparr>)\<rparr>))"

definition Res_Read :: "'v world \<Rightarrow> key \<Rightarrow> 'v option" where
  "Res_Read w k = map_option c_v (res w k)"

definition Res_Mut :: "key \<Rightarrow> 'v world \<Rightarrow> bool \<times> 'v world" where
  "Res_Mut k w =
     (case res w k of None \<Rightarrow> (False, w) | Some c \<Rightarrow> (True, watch (WatchCell k (c_v c)) w))"

definition poke_cell :: "key \<Rightarrow> 'v \<Rightarrow> 'v world \<Rightarrow> 'v world" where
  "poke_cell k v w = w\<lparr>res := (res w)(k := map_option (\<lambda>c. c\<lparr>c_v := v\<rparr>) (res w k))\<rparr>"

definition Written :: "key \<Rightarrow> 'v world \<Rightarrow> bool \<times> 'v world" where
  "Written k w = (case res w k of None \<Rightarrow> (False, w) | Some _ \<Rightarrow> changed_cell k w)"

definition Insert_on :: "key \<Rightarrow> entity \<Rightarrow> 'v \<Rightarrow> 'v world \<Rightarrow> 'v world" where
  "Insert_on k e v w = Insert k e v (Column k w)"

definition Spawn1 :: "key \<Rightarrow> 'v \<Rightarrow> 'v world \<Rightarrow> entity \<times> 'v world" where
  "Spawn1 k v w = (let (e, w') = Spawn w in (e, Insert k e v (Column k w')))"

definition Spawn2 :: "key \<Rightarrow> 'v \<Rightarrow> key \<Rightarrow> 'v \<Rightarrow> 'v world \<Rightarrow> entity \<times> 'v world" where
  "Spawn2 ka a kb b w = (let (e, w') = Spawn1 ka a w in (e, Insert_on kb e b w'))"

definition Init :: "key \<Rightarrow> 'v \<Rightarrow> 'v world \<Rightarrow> 'v world" where
  "Init k v w = (case Res_Read w k of Some _ \<Rightarrow> w | None \<Rightarrow> Put k v w)"

end
