(* ===== verification/WorldStore.thy ===== *)
theory WorldStore
  imports WorldCore
begin

text \<open>
  The entity store keeps its invariant and refines its specification: a set of live entities
  and, for each key, a partial function from live entities to values.
\<close>

section \<open>The invariant\<close>

text \<open>The row stored for key \<open>k\<close> at entity index \<open>i\<close>.\<close>

definition slot_row :: "'v world \<Rightarrow> key \<Rightarrow> nat \<Rightarrow> nat option" where
  "slot_row w k i =
     (case cols w k of None \<Rightarrow> None
      | Some t \<Rightarrow> if i < length (sparse t) then sparse t ! i else None)"

definition slots_ok :: "'v world \<Rightarrow> bool" where
  "slots_ok w \<longleftrightarrow>
     distinct (free w) \<and>
     (\<forall>i. i \<in> set (free w) \<longleftrightarrow> i < length (slots w) \<and> \<not> s_alive (slots w ! i)) \<and>
     (\<forall>s \<in> set (slots w). s_gen s \<noteq> 0)"

text \<open>A row belongs to one key and one live entity, and has its generation.\<close>

definition rows_ok :: "'v world \<Rightarrow> bool" where
  "rows_ok w \<longleftrightarrow>
     (\<forall>k i r. slot_row w k i = Some r \<longrightarrow>
        r < length (rows w) \<and> i < length (slots w) \<and> s_alive (slots w ! i) \<and>
        r_gen (rows w ! r) = s_gen (slots w ! i) \<and>
        (\<forall>k' i'. slot_row w k' i' = Some r \<longrightarrow> k' = k \<and> i' = i))"

definition cols_ok :: "'v world \<Rightarrow> bool" where
  "cols_ok w \<longleftrightarrow>
     distinct (clean w) \<and> dom (cols w) = set (clean w) \<and>
     (\<forall>k t. cols w k = Some t \<longrightarrow> distinct (ids t) \<and> (\<forall>i. i \<in> set (ids t) \<longleftrightarrow> slot_row w k i \<noteq> None))"

definition watches_ok :: "'v world \<Rightarrow> bool" where
  "watches_ok w \<longleftrightarrow> (\<forall>r b. WatchRow r b \<in> set (watches w) \<longrightarrow> r < length (rows w))"

definition world_ok :: "'v world \<Rightarrow> bool" where
  "world_ok w \<longleftrightarrow> slots_ok w \<and> rows_ok w \<and> cols_ok w \<and> watches_ok w"

lemmas world_ok_defs = world_ok_def slots_ok_def rows_ok_def cols_ok_def watches_ok_def

lemma world_okE:
  assumes "world_ok w"
  obtains "slots_ok w" "rows_ok w" "cols_ok w" "watches_ok w"
  using assms by (simp add: world_ok_def)

lemma newWorld_ok [inv_intros]: "world_ok newWorld"
  by (simp add: world_ok_defs newWorld_def slot_row_def)

section \<open>Liveness and lookup\<close>

lemma Alive_iff:
  assumes "slots_ok w"
  shows "Alive w e \<longleftrightarrow>
    e_index e < length (slots w) \<and> s_alive (slots w ! e_index e) \<and> s_gen (slots w ! e_index e) = e_gen e"
  using assms by (auto simp: Alive_def slots_ok_def)

lemma entity_eq_iff: "e = e' \<longleftrightarrow> e_index e = e_index e' \<and> e_gen e = e_gen (e' :: entity)"
  by (cases e; cases e') auto

text \<open>Two live entities with one index are the same entity.\<close>

lemma Alive_inj: "world_ok w \<Longrightarrow> Alive w e \<Longrightarrow> Alive w e' \<Longrightarrow> e_index e' = e_index e \<Longrightarrow> e' = e"
  by (simp add: Alive_iff world_ok_def entity_eq_iff)

lemma Alive_cong: "slots w' = slots w \<Longrightarrow> Alive w' e = Alive w e"
  by (simp add: Alive_def)

lemma lookup_rows:
  assumes "slots_ok w" and "rows_ok w"
  shows "lookup w k e = (if Alive w e then slot_row w k (e_index e) else None)"
proof -
  have "r_gen (rows w ! r) = e_gen e" if "slot_row w k (e_index e) = Some r" "Alive w e" for r
    using assms that by (auto simp: rows_ok_def Alive_iff)
  then show ?thesis
    by (auto simp: lookup_def slot_row_def split: option.splits)
qed

lemma lookup_eq:
  "world_ok w \<Longrightarrow> lookup w k e = (if Alive w e then slot_row w k (e_index e) else None)"
  by (simp add: world_ok_def lookup_rows)

lemma lookup_Some:
  assumes "world_ok w" and "lookup w k e = Some r"
  shows "Alive w e" and "slot_row w k (e_index e) = Some r" and "r < length (rows w)"
    and "r_gen (rows w ! r) = e_gen e"
  using assms by (auto simp: lookup_eq world_ok_def rows_ok_def Alive_iff split: if_splits)

section \<open>Marks and watches\<close>

text \<open>A world that differs only in ticks and resources, as far as the store is concerned.\<close>

definition same_store :: "'v world \<Rightarrow> 'v world \<Rightarrow> bool" where
  "same_store w w' \<longleftrightarrow>
     slots w' = slots w \<and> free w' = free w \<and> cols w' = cols w \<and> clean w' = clean w \<and>
     length (rows w') = length (rows w) \<and>
     (\<forall>r < length (rows w). r_gen (rows w' ! r) = r_gen (rows w ! r) \<and>
        r_stamp (rows w' ! r) = r_stamp (rows w ! r) \<and> r_v (rows w' ! r) = r_v (rows w ! r))"

lemma same_store_refl [simp]: "same_store w w"
  by (simp add: same_store_def)

lemma same_store_trans [trans]: "same_store w w' \<Longrightarrow> same_store w' w'' \<Longrightarrow> same_store w w''"
  by (auto simp: same_store_def)

lemma same_store_slot_row: "same_store w w' \<Longrightarrow> slot_row w' k i = slot_row w k i"
  by (simp add: same_store_def slot_row_def)

lemma same_store_parts:
  assumes "same_store w w'"
  shows "slots_ok w \<Longrightarrow> slots_ok w'" and "rows_ok w \<Longrightarrow> rows_ok w'" and "cols_ok w \<Longrightarrow> cols_ok w'"
  using assms same_store_slot_row [OF assms]
  by (auto simp: slots_ok_def rows_ok_def cols_ok_def same_store_def)

lemma same_store_ok:
  "same_store w w' \<Longrightarrow> world_ok w \<Longrightarrow> watches_ok w' \<Longrightarrow> world_ok w'"
  by (simp add: world_ok_def same_store_parts)

lemma same_store_Get:
  assumes "same_store w w'" and "world_ok w"
  shows "Get w' k e = Get w k e" and "Alive w' e = Alive w e" and "lookup w' k e = lookup w k e"
proof -
  show a: "Alive w' e = Alive w e" using assms(1) by (simp add: same_store_def Alive_def)
  show l: "lookup w' k e = lookup w k e"
    using assms same_store_parts [OF assms(1)] a
    by (simp add: lookup_rows world_ok_def same_store_slot_row)
  show "Get w' k e = Get w k e"
    using assms(1) lookup_Some(3) [OF assms(2)] l
    by (cases "lookup w k e") (auto simp: Get_def same_store_def)
qed

lemma nth_update_if: "i < length xs \<Longrightarrow> xs[j := y] ! i = (if i = j then y else xs ! i)"
  by (simp add: nth_list_update)

lemma mark_row_store: "same_store w (mark_row r w)"
  by (auto simp: same_store_def mark_row_def nth_update_if)

lemma mark_cell_store: "same_store w (mark_cell k w)"
  by (auto simp: same_store_def mark_cell_def)

lemma mark_watches [simp]:
  "watches (mark_row r w) = watches w" "watches (mark_cell k w) = watches w"
  by (auto simp: mark_row_def mark_cell_def)

lemma mark_fields [simp]:
  "queue (mark_row r w) = queue w" "queue (mark_cell k w) = queue w"
  "clock (mark_row r w) = clock w" "clock (mark_cell k w) = clock w"
  "inSystem (mark_row r w) = inSystem w" "inSystem (mark_cell k w) = inSystem w"
  "flushing (mark_row r w) = flushing w" "flushing (mark_cell k w) = flushing w"
  "sysLast (mark_row r w) = sysLast w" "sysLast (mark_cell k w) = sysLast w"
  "seen (mark_row r w) = seen w" "seen (mark_cell k w) = seen w"
  by (simp_all add: mark_row_def mark_cell_def)

lemma run_watch_store: "same_store w (run_watch f w)"
  by (cases f) (auto simp: mark_row_store mark_cell_store split: option.splits)

lemma run_watch_watches [simp]: "watches (run_watch f w) = watches w"
  by (cases f) (auto split: option.splits)

lemma fold_run_watch_store: "same_store w (fold run_watch fs w) \<and> watches (fold run_watch fs w) = watches w"
  by (induction fs arbitrary: w) (auto intro: same_store_trans [OF run_watch_store])

lemma evalWatches_store: "same_store w (evalWatches w)"
  using fold_run_watch_store [of w "watches w"] by (simp add: evalWatches_def)

lemma settle_store: "same_store w (settle w)"
  using evalWatches_store [of w] by (simp add: settle_def same_store_def)

lemma mark_row_ok [inv_intros]: "world_ok w \<Longrightarrow> world_ok (mark_row r w)"
  using same_store_ok [OF mark_row_store] mark_row_store [of w r]
  by (metis mark_watches(1) same_store_def watches_ok_def world_ok_def)

lemma mark_cell_ok [inv_intros]: "world_ok w \<Longrightarrow> world_ok (mark_cell k w)"
  using same_store_ok [OF mark_cell_store] mark_cell_store [of w k]
  by (metis mark_watches(2) same_store_def watches_ok_def world_ok_def)

lemma evalWatches_ok [inv_intros]: "world_ok w \<Longrightarrow> world_ok (evalWatches w)"
  using same_store_ok [OF evalWatches_store] evalWatches_store [of w] fold_run_watch_store [of w]
  by (metis evalWatches_def same_store_def watches_ok_def world_ok_def)

lemma settle_ok [inv_intros]: "world_ok w \<Longrightarrow> world_ok (settle w)"
  by (rule same_store_ok [OF settle_store]) (simp_all add: watches_ok_def settle_def)

section \<open>Spawning\<close>

lemma Column_slot_row [simp]: "slot_row (Column k w) k' i = slot_row w k' i"
  by (simp add: Column_def slot_row_def split: option.splits)

lemma Column_fields [simp]:
  "slots (Column k w) = slots w" "free (Column k w) = free w" "rows (Column k w) = rows w"
  "watches (Column k w) = watches w" "cols (Column k w) k \<noteq> None"
  by (simp_all add: Column_def split: option.splits)

lemma Column_ok [inv_intros]:
  assumes "world_ok w"
  shows "world_ok (Column k w)"
proof -
  have "cols_ok (Column k w)"
    using assms Column_slot_row [of k w]
    by (auto simp: world_ok_def cols_ok_def Column_def slot_row_def split: option.splits if_splits)
  then show ?thesis using assms by (simp add: world_ok_def slots_ok_def rows_ok_def watches_ok_def)
qed

lemma Column_Get [simp]: "Alive (Column k w) e = Alive w e"
  "world_ok w \<Longrightarrow> lookup (Column k w) k' e = lookup w k' e"
  "world_ok w \<Longrightarrow> Get (Column k w) k' e = Get w k' e"
proof -
  show a: "Alive (Column k w) e = Alive w e" by (simp add: Alive_def)
  assume "world_ok w"
  then show "lookup (Column k w) k' e = lookup w k' e" by (simp add: lookup_eq Column_ok a)
  then show "Get (Column k w) k' e = Get w k' e" by (simp add: Get_def)
qed

lemma Spawn_fields:
  assumes "Spawn w = (e, w')"
  shows "cols w' = cols w" "clean w' = clean w" "rows w' = rows w" "watches w' = watches w" "slot_row w' = slot_row w"
  using assms by (auto simp: Spawn_def Let_def slot_row_def fun_eq_iff split: if_splits)

text \<open>What \<open>Spawn\<close> does to the slots: one slot that was free becomes live.\<close>

lemma Spawn_slots:
  assumes ok: "slots_ok w" and sp: "Spawn w = (e, w')"
  shows "slots_ok w' \<and> e_gen e \<noteq> 0 \<and> e_index e < length (slots w') \<and>
     slots w' ! e_index e = \<lparr>s_gen = e_gen e, s_alive = True\<rparr> \<and>
     (\<forall>i. i \<noteq> e_index e \<longrightarrow> (i < length (slots w') \<longleftrightarrow> i < length (slots w)) \<and>
          (i < length (slots w) \<longrightarrow> slots w' ! i = slots w ! i)) \<and>
     (e_index e < length (slots w) \<longrightarrow> \<not> s_alive (slots w ! e_index e))"
proof (cases "free w" rule: rev_cases)
  case Nil
  then have "e = \<lparr>e_index = length (slots w), e_gen = 1\<rparr>"
    "w' = w\<lparr>slots := slots w @ [\<lparr>s_gen = 1, s_alive = True\<rparr>]\<rparr>"
    using sp by (auto simp: Spawn_def)
  then show ?thesis using ok Nil by (auto simp: slots_ok_def nth_append)
next
  case (snoc fs i)
  then have e: "e = \<lparr>e_index = i, e_gen = s_gen (slots w ! i)\<rparr>"
    and w': "w' = w\<lparr>free := fs, slots := (slots w)[i := (slots w ! i)\<lparr>s_alive := True\<rparr>]\<rparr>"
    using sp by (auto simp: Spawn_def Let_def)
  have fr: "i < length (slots w)" "\<not> s_alive (slots w ! i)" "i \<notin> set fs"
    using ok snoc by (auto simp: slots_ok_def)
  have sl: "\<forall>j. (j = i \<or> j \<in> set fs) = (j < length (slots w) \<and> \<not> s_alive (slots w ! j))"
    using ok snoc by (auto simp: slots_ok_def)
  have "j \<in> set fs \<longleftrightarrow> j < length (slots w) \<and> \<not> s_alive (slots w' ! j)" for j
    using sl fr by (cases "j = i") (auto simp: w')
  moreover have "\<forall>s \<in> set (slots w'). s_gen s \<noteq> 0"
    using ok fr(1) by (auto simp: w' slots_ok_def dest!: set_update_subset_insert [THEN subsetD])
  moreover have "free w' = fs" "length (slots w') = length (slots w)" "distinct fs"
    using ok snoc by (simp_all add: w' slots_ok_def)
  ultimately have "slots_ok w'" by (simp add: slots_ok_def)
  moreover have "s_gen (slots w ! i) \<noteq> 0" using ok fr(1) by (simp add: slots_ok_def)
  ultimately show ?thesis using fr by (auto simp: e w')
qed

lemma Spawn_Alive:
  assumes ok: "slots_ok w" and sp: "Spawn w = (e, w')"
  shows "\<not> Alive w e" and "Alive w' e' \<longleftrightarrow> e' = e \<or> Alive w e'"
proof -
  note s = Spawn_slots [OF ok sp]
  then have ok': "slots_ok w'" by blast
  show na: "\<not> Alive w e" using s ok by (auto simp: Alive_iff)
  show "Alive w' e' \<longleftrightarrow> e' = e \<or> Alive w e'"
  proof (cases "e_index e' = e_index e")
    case True
    then show ?thesis using s ok ok' by (cases e; cases e') (auto simp: Alive_iff)
  next
    case False
    then show ?thesis using s ok ok' by (auto simp: Alive_iff)
  qed
qed

lemma Spawn_ok [inv_intros]:
  assumes ok: "world_ok w" and sp: "Spawn w = (e, w')"
  shows "world_ok w'"
proof -
  note s = Spawn_slots [OF _ sp] and f = Spawn_fields [OF sp]
  have "slots_ok w" "rows_ok w" using ok by (simp_all add: world_ok_def)
  note s = s [OF this(1)]
  have "rows_ok w'"
    unfolding rows_ok_def f
  proof (intro allI impI)
    fix k i r assume "slot_row w k i = Some r"
    then have r: "r < length (rows w)" "i < length (slots w)" "s_alive (slots w ! i)"
      "r_gen (rows w ! r) = s_gen (slots w ! i)" "\<forall>k' i'. slot_row w k' i' = Some r \<longrightarrow> k' = k \<and> i' = i"
      using \<open>rows_ok w\<close> by (auto simp: rows_ok_def)
    then have "i \<noteq> e_index e" using s by auto
    then show "r < length (rows w) \<and> i < length (slots w') \<and> s_alive (slots w' ! i) \<and>
       r_gen (rows w ! r) = s_gen (slots w' ! i) \<and> (\<forall>k' i'. slot_row w k' i' = Some r \<longrightarrow> k' = k \<and> i' = i)"
      using r s by auto
  qed
  then show ?thesis using ok s f by (simp add: world_ok_def cols_ok_def watches_ok_def)
qed

lemma Spawn_Get:
  assumes ok: "world_ok w" and sp: "Spawn w = (e, w')"
  shows "Get w' k e' = Get w k e'"
proof -
  note f = Spawn_fields [OF sp]
  have so: "slots_ok w" "rows_ok w" using ok by (simp_all add: world_ok_def)
  have "slot_row w k (e_index e) = None"
  proof (rule ccontr)
    assume "slot_row w k (e_index e) \<noteq> None"
    then obtain r where "slot_row w k (e_index e) = Some r" by auto
    then show False using so(2) Spawn_slots [OF so(1) sp] by (auto simp: rows_ok_def)
  qed
  then have "lookup w' k e' = lookup w k e'"
    using Spawn_Alive(2) [OF so(1) sp, of e'] ok Spawn_ok [OF ok sp] f by (auto simp: lookup_eq)
  then show ?thesis using f by (simp add: Get_def)
qed

section \<open>Inserting\<close>

lemma grow_sparse:
  "index < length (sparse (grow index t))"
  "length (sparse t) \<le> length (sparse (grow index t))"
  "i < length (sparse (grow index t)) \<Longrightarrow>
     sparse (grow index t) ! i = (if i < length (sparse t) then sparse t ! i else None)"
  "ids (grow index t) = ids t"
  by (auto simp: grow_def nth_append)

text \<open>The row an insert writes, and the store it leaves, up to ticks.\<close>

definition insert_row :: "'v world \<Rightarrow> key \<Rightarrow> entity \<Rightarrow> nat" where
  "insert_row w k e = (case slot_row w k (e_index e) of None \<Rightarrow> length (rows w) | Some r \<Rightarrow> r)"

lemma Insert_dead: "\<not> Alive w e \<Longrightarrow> Insert k e v w = w"
  by (simp add: Insert_def split: option.splits)

lemma mark_row_same [simp]:
  "slots (mark_row r w) = slots w" "free (mark_row r w) = free w" "clean (mark_row r w) = clean w"
  "cols (mark_row r w) = cols w" "length (rows (mark_row r w)) = length (rows w)"
  "slot_row (mark_row r w) = slot_row w"
  by (simp_all add: mark_row_def slot_row_def fun_eq_iff)

lemma mark_row_nth:
  "r' \<noteq> r \<Longrightarrow> rows (mark_row r w) ! r' = rows w ! r'"
  "r' < length (rows w) \<Longrightarrow> r_gen (rows (mark_row r w) ! r') = r_gen (rows w ! r')"
  "r' < length (rows w) \<Longrightarrow> r_v (rows (mark_row r w) ! r') = r_v (rows w ! r')"
  by (auto simp: mark_row_def nth_update_if)

text \<open>The table after the row \<open>r\<close> is put at an index.\<close>

lemma slot_row_put:
  assumes "cols w k = Some t" and "i < length (sparse t')"
    and "\<And>j. j \<noteq> i \<Longrightarrow> (if j < length (sparse t') then sparse t' ! j else None)
                     = (if j < length (sparse t) then sparse t ! j else None)"
    and "sparse t' ! i = x" and "cols w' = (cols w)(k \<mapsto> t')"
  shows "slot_row w' = (slot_row w)(k := (slot_row w k)(i := x))"
  using assms by (auto simp: slot_row_def fun_eq_iff)

lemma Insert_cases:
  assumes "cols w k = Some t" and "Alive w e"
  obtains (fresh) w1 t1 where "slot_row w k (e_index e) = None" "Insert k e v w = mark_row (length (rows w)) w1"
      "w1 = w\<lparr>rows := rows w @ [\<lparr>r_gen = e_gen e, r_stamp = 1, r_tick = 0, r_v = v\<rparr>], cols := (cols w)(k \<mapsto> t1)\<rparr>"
      "ids t1 = ids t @ [e_index e]"
      "slot_row w1 = (slot_row w)(k := (slot_row w k)(e_index e \<mapsto> length (rows w)))"
  | (old) r w1 t1 where "slot_row w k (e_index e) = Some r" "Insert k e v w \<in> {w1, mark_row r w1}"
      "r_gen (rows w ! r) \<noteq> e_gen e \<or> \<not> same (r_v (rows w ! r)) v \<Longrightarrow> Insert k e v w = mark_row r w1"
      "w1 = w\<lparr>cols := (cols w)(k \<mapsto> t1), rows := (rows w)[r := (rows w ! r)\<lparr>r_gen := e_gen e, r_v := v,
                  r_stamp := r_stamp (rows w ! r) + 1\<rparr>]\<rparr>"
      "ids t1 = ids t" "slot_row w1 = (slot_row w)(k := (slot_row w k)(e_index e \<mapsto> r))"
proof -
  let ?i = "e_index e" and ?t = "grow (e_index e) t"
  have at: "sparse ?t ! ?i = slot_row w k ?i"
    using grow_sparse(1) [of ?i t] assms(1) by (simp add: grow_sparse(3) slot_row_def)
  have other: "(if j < length (sparse ?t) then sparse ?t ! j else None)
      = (if j < length (sparse t) then sparse t ! j else None)" for j
    by (auto simp: grow_def nth_append)
  show ?thesis
  proof (cases "slot_row w k ?i")
    case None
    let ?t1 = "?t\<lparr>sparse := (sparse ?t)[?i := Some (length (rows w))], ids := ids ?t @ [?i]\<rparr>"
    let ?w1 = "w\<lparr>rows := rows w @ [\<lparr>r_gen = e_gen e, r_stamp = 1, r_tick = 0, r_v = v\<rparr>], cols := (cols w)(k \<mapsto> ?t1)\<rparr>"
    have "slot_row ?w1 = (slot_row w)(k := (slot_row w k)(?i \<mapsto> length (rows w)))"
      using grow_sparse(1) [of ?i t] grow_sparse(2) [of t ?i]
      by (intro slot_row_put [OF assms(1)]) (auto simp: grow_sparse(3))
    then show ?thesis
      using None assms at by (intro fresh [of ?w1 ?t1]) (simp_all add: Insert_def Let_def grow_sparse(4))
  next
    case (Some r)
    let ?w1 = "w\<lparr>cols := (cols w)(k \<mapsto> ?t), rows := (rows w)[r := (rows w ! r)\<lparr>r_gen := e_gen e, r_v := v,
                  r_stamp := r_stamp (rows w ! r) + 1\<rparr>]\<rparr>"
    have "slot_row ?w1 = (slot_row w)(k := (slot_row w k)(?i \<mapsto> r))"
      using other grow_sparse(1) [of ?i t] at Some by (intro slot_row_put [OF assms(1)]) auto
    then show ?thesis
      using Some assms at by (intro old [of r ?w1 ?t]) (simp_all add: Insert_def Let_def grow_sparse(4))
  qed
qed

lemma Insert_ok [inv_intros]:
  assumes ok: "world_ok w"
  shows "world_ok (Insert k e v w)"
proof (cases "cols w k = None \<or> \<not> Alive w e")
  case True
  then show ?thesis using ok by (auto simp: Insert_def split: option.splits)
next
  case False
  then obtain t where t: "cols w k = Some t" and al: "Alive w e" by auto
  have a: "e_index e < length (slots w)" "s_alive (slots w ! e_index e)" "s_gen (slots w ! e_index e) = e_gen e"
    using al ok by (simp_all add: Alive_iff world_ok_def)
  from t al show ?thesis
  proof (cases rule: Insert_cases [where v = v])
    case (fresh w1 t1)
    have "rows_ok w1"
      using ok a fresh(3) unfolding rows_ok_def fresh(5)
      by (auto simp: world_ok_def rows_ok_def nth_append less_Suc_eq)
    moreover have "cols_ok w1"
      using ok t fresh(1,4) fresh(3) unfolding cols_ok_def fresh(5) by (auto simp: world_ok_def cols_ok_def)
    moreover have "slots_ok w1" "watches_ok w1"
      using ok by (auto simp: fresh(3) world_ok_def slots_ok_def watches_ok_def)
    ultimately show ?thesis unfolding fresh(2) by (intro mark_row_ok) (simp add: world_ok_def)
  next
    case (old r w1 t1)
    have sr: "slot_row w1 = slot_row w" using old(1,6) by (simp add: fun_eq_iff)
    have r: "r < length (rows w)" "r_gen (rows w ! r) = e_gen e"
      using ok old(1) a by (auto simp: world_ok_def rows_ok_def)
    have "rows_ok w1"
      using ok r old(4) unfolding rows_ok_def sr by (auto simp: world_ok_def rows_ok_def nth_update_if)
    moreover have "cols_ok w1"
      using ok t old(4,5) unfolding cols_ok_def sr by (auto simp: world_ok_def cols_ok_def)
    moreover have "slots_ok w1" "watches_ok w1"
      using ok by (auto simp: old(4) world_ok_def slots_ok_def watches_ok_def)
    ultimately have "world_ok w1" by (simp add: world_ok_def)
    then show ?thesis using old(2) mark_row_ok by auto
  qed
qed

lemma Insert_slots [simp]: "slots (Insert k e v w) = slots w"
  by (simp add: Insert_def Let_def split: option.splits)

lemma Insert_Alive [simp]: "Alive (Insert k e v w) e' = Alive w e'"
  by (simp add: Alive_def)

lemma Insert_lookup:
  assumes ok: "world_ok w" and t: "cols w k \<noteq> None" and al: "Alive w e"
  shows "lookup (Insert k e v w) k' e' = (if k' = k \<and> e' = e then Some (insert_row w k e) else lookup w k' e')"
proof -
  have "slot_row (Insert k e v w) = (slot_row w)(k := (slot_row w k)(e_index e \<mapsto> insert_row w k e))"
    using t al by (auto elim!: Insert_cases [where v = v] simp: insert_row_def)
  moreover have "e' = e" if "Alive w e'" "e_index e' = e_index e"
    using that al ok by (blast intro: Alive_inj)
  ultimately show ?thesis
    using ok Insert_ok [OF ok] al by (auto simp: lookup_eq)
qed

lemma Insert_values:
  assumes ok: "world_ok w" and t: "cols w k = Some t" and al: "Alive w e"
  shows "r_v (rows (Insert k e v w) ! insert_row w k e) = v"
    and "r' < length (rows w) \<Longrightarrow> r' \<noteq> insert_row w k e \<Longrightarrow> rows (Insert k e v w) ! r' = rows w ! r'"
proof -
  have "r_v (rows (Insert k e v w) ! insert_row w k e) = v \<and>
    (r' < length (rows w) \<longrightarrow> r' \<noteq> insert_row w k e \<longrightarrow> rows (Insert k e v w) ! r' = rows w ! r')"
    using t al
  proof (cases rule: Insert_cases [where v = v])
    case (fresh w1 t1)
    then show ?thesis by (simp add: insert_row_def mark_row_nth nth_append)
  next
    case (old r w1 t1)
    then have "r < length (rows w)" using ok by (auto simp: world_ok_def rows_ok_def)
    then show ?thesis using old(1,2,4) by (auto simp: insert_row_def mark_row_nth)
  qed
  then show "r_v (rows (Insert k e v w) ! insert_row w k e) = v"
    "r' < length (rows w) \<Longrightarrow> r' \<noteq> insert_row w k e \<Longrightarrow> rows (Insert k e v w) ! r' = rows w ! r'" by auto
qed

lemma Insert_Get:
  assumes ok: "world_ok w" and t: "cols w k \<noteq> None" and al: "Alive w e"
  shows "Get (Insert k e v w) k' e' = (if k' = k \<and> e' = e then Some v else Get w k' e')"
proof (cases "k' = k \<and> e' = e")
  case True
  then show ?thesis using Insert_lookup [OF assms] Insert_values(1) [OF ok _ al] t by (auto simp: Get_def)
next
  case False
  have "rows (Insert k e v w) ! r = rows w ! r" if "lookup w k' e' = Some r" for r
  proof -
    note l = lookup_Some [OF ok that]
    have "e' = e" if "e_index e' = e_index e"
      using that al l(1) ok by (blast intro: Alive_inj)
    then have "r \<noteq> insert_row w k e"
      using l(2,3) False ok by (auto simp: insert_row_def world_ok_def rows_ok_def split: option.splits)
    then show ?thesis using Insert_values(2) [OF ok _ al l(3)] t by auto
  qed
  then show ?thesis using False Insert_lookup [OF assms] by (cases "lookup w k' e'") (auto simp: Get_def)
qed

section \<open>Dropping rows\<close>

lemma swap_remove_set:
  "distinct xs \<Longrightarrow> distinct (swap_remove i xs) \<and> set (swap_remove i xs) = set xs - {i}"
proof (induction xs)
  case (Cons x xs)
  show ?case
  proof (cases "x = i \<and> xs \<noteq> []")
    case True
    then have "xs = butlast xs @ [last xs]" by simp
    then have "distinct (last xs # butlast xs) \<and> set (last xs # butlast xs) = set xs"
      using Cons.prems by (metis Un_commute distinct.simps(2) distinct1_rotate list.simps(15) rotate1.simps(2) set_rotate1 append_Cons append_Nil distinct_append)
    then show ?thesis using True Cons.prems by auto
  next
    case False
    then show ?thesis using Cons by auto
  qed
qed simp

definition drops :: "'v world \<Rightarrow> key \<Rightarrow> entity \<Rightarrow> nat \<Rightarrow> bool \<Rightarrow> bool" where
  "drops w k e stamp check \<longleftrightarrow>
     (case slot_row w k (e_index e) of None \<Rightarrow> False
      | Some r \<Rightarrow> r_gen (rows w ! r) = e_gen e \<and> (check \<longrightarrow> r_stamp (rows w ! r) = stamp))"

lemma drop_row_fields [simp]:
  "slots (drop_row k e st c w) = slots w" "free (drop_row k e st c w) = free w"
  "clean (drop_row k e st c w) = clean w" "rows (drop_row k e st c w) = rows w"
  "watches (drop_row k e st c w) = watches w" "queue (drop_row k e st c w) = queue w"
  "flushing (drop_row k e st c w) = flushing w" "inSystem (drop_row k e st c w) = inSystem w"
  by (auto simp: drop_row_def split: option.splits)

lemma drop_row_Alive [simp]: "Alive (drop_row k e st c w) e' = Alive w e'"
  by (simp add: Alive_def)

lemma drop_row_slot_row:
  "slot_row (drop_row k e st c w) =
     (if drops w k e st c then (slot_row w)(k := (slot_row w k)(e_index e := None)) else slot_row w)"
  by (auto simp: drop_row_def drops_def slot_row_def fun_eq_iff split: option.splits)

lemma drop_row_table:
  assumes "cols (drop_row k e st c w) k' = Some t'"
  shows "\<exists>t. cols w k' = Some t \<and>
    ids t' = (if k' = k \<and> drops w k e st c then swap_remove (e_index e) (ids t) else ids t)"
  using assms by (auto simp: drop_row_def drops_def slot_row_def split: option.splits if_splits)

lemma drop_row_dom: "dom (cols (drop_row k e st c w)) = dom (cols w)"
  by (auto simp: drop_row_def split: option.splits)

lemma drop_row_ok [inv_intros]:
  assumes ok: "world_ok w"
  shows "world_ok (drop_row k e st c w)"
proof -
  let ?w = "drop_row k e st c w"
  have "rows_ok ?w"
    using ok unfolding rows_ok_def drop_row_slot_row by (auto simp: world_ok_def rows_ok_def)
  moreover have "distinct (ids t') \<and> (\<forall>i. i \<in> set (ids t') \<longleftrightarrow> slot_row ?w k' i \<noteq> None)"
    if "cols ?w k' = Some t'" for k' t'
  proof -
    from drop_row_table [OF that] obtain t where t: "cols w k' = Some t"
      "ids t' = (if k' = k \<and> drops w k e st c then swap_remove (e_index e) (ids t) else ids t)" by blast
    have "distinct (ids t)" "\<forall>i. i \<in> set (ids t) \<longleftrightarrow> slot_row w k' i \<noteq> None"
      using ok t(1) by (auto simp: world_ok_def cols_ok_def)
    then show ?thesis
      using t(2) swap_remove_set [of "ids t" "e_index e"] by (auto simp: drop_row_slot_row)
  qed
  ultimately show ?thesis
    using ok drop_row_dom [of k e st c w] by (simp add: world_ok_def slots_ok_def cols_ok_def watches_ok_def)
qed

lemma drop_row_Get:
  assumes ok: "world_ok w" and "Alive w e'"
  shows "Get (drop_row k e st c w) k' e' =
    (if k' = k \<and> e' = e \<and> drops w k e st c then None else Get w k' e')"
proof -
  have "e' = e" if "drops w k e st c" "k' = k" "e_index e' = e_index e"
    using that assms
    by (cases e; cases e') (auto simp: drops_def Alive_iff world_ok_def rows_ok_def split: option.splits)
  then show ?thesis
    using assms drop_row_ok [OF ok] by (auto simp: Get_def lookup_eq drop_row_slot_row)
qed

lemma clear_drops: "world_ok w \<Longrightarrow> Alive w e \<Longrightarrow> drops w k e st False \<longleftrightarrow> slot_row w k (e_index e) \<noteq> None"
  by (auto simp: drops_def world_ok_def rows_ok_def Alive_iff split: option.splits)

section \<open>Despawning\<close>

lemma fold_clear:
  assumes "world_ok w" and "Alive w e" and "w' = fold (\<lambda>k. clear k e) ks w"
  shows "world_ok w' \<and> slots w' = slots w \<and> free w' = free w \<and> rows w' = rows w \<and> clean w' = clean w \<and>
    watches w' = watches w \<and> queue w' = queue w \<and> flushing w' = flushing w \<and> inSystem w' = inSystem w \<and>
    (\<forall>k i. slot_row w' k i = (if k \<in> set ks \<and> i = e_index e then None else slot_row w k i))"
  using assms(1,2) unfolding assms(3)
proof (induction ks arbitrary: w)
  case (Cons k ks)
  have "world_ok (clear k e w)" "Alive (clear k e w) e" using Cons.prems by (simp_all add: clear_def drop_row_ok)
  from Cons.IH [OF this] show ?case
    using clear_drops [OF Cons.prems, of k 0] by (auto simp: clear_def drop_row_slot_row)
qed simp

lemma despawnNow_dead: "\<not> Alive w e \<Longrightarrow> despawnNow e w = w"
  by (simp add: despawnNow_def)

text \<open>The generation after a despawn: one more, and never zero.\<close>

definition next_gen :: "32 word \<Rightarrow> 32 word" where
  "next_gen g = (if g + 1 = 0 then 1 else g + 1)"

lemma next_gen_neq: "next_gen g \<noteq> 0" "g \<noteq> 0 \<Longrightarrow> next_gen g \<noteq> g"
proof -
  show "next_gen g \<noteq> 0" by (simp add: next_gen_def)
  have "(1 :: 32 word) + 1 \<noteq> 0" by simp
  then show "next_gen g \<noteq> g" if "g \<noteq> 0" using that by (auto simp: next_gen_def)
qed

lemma despawnNow_effect:
  assumes ok: "world_ok w" and al: "Alive w e"
  defines "w' \<equiv> despawnNow e w"
  shows "slots w' = (slots w)[e_index e := \<lparr>s_gen = next_gen (e_gen e), s_alive = False\<rparr>]"
    and "free w' = free w @ [e_index e]" and "rows w' = rows w" and "clean w' = clean w"
    and "watches w' = watches w" and "queue w' = queue w" and "flushing w' = flushing w" and "inSystem w' = inSystem w"
    and "slot_row w' k i = (if i = e_index e then None else slot_row w k i)"
    and "cols w' = cols (fold (\<lambda>k. clear k e) (clean w) w)"
proof -
  note f = fold_clear [OF ok al refl, of "clean w"]
  have g: "s_gen (slots w ! e_index e) = e_gen e" using ok al by (simp add: Alive_iff world_ok_def)
  have w': "w' = (fold (\<lambda>k. clear k e) (clean w) w)\<lparr>
      slots := (slots w)[e_index e := \<lparr>s_gen = next_gen (e_gen e), s_alive = False\<rparr>],
      free := free w @ [e_index e]\<rparr>"
    using f al g by (simp add: w'_def despawnNow_def Let_def next_gen_def)
  have "slot_row w k i = None" if "k \<notin> set (clean w)"
    using that ok by (auto simp: slot_row_def world_ok_def cols_ok_def split: option.splits)
  then show "slot_row w' k i = (if i = e_index e then None else slot_row w k i)"
    using f by (auto simp: w' slot_row_def)
  show "slots w' = (slots w)[e_index e := \<lparr>s_gen = next_gen (e_gen e), s_alive = False\<rparr>]"
    "free w' = free w @ [e_index e]" "rows w' = rows w" "clean w' = clean w" "watches w' = watches w"
    "queue w' = queue w" "flushing w' = flushing w" "inSystem w' = inSystem w"
    "cols w' = cols (fold (\<lambda>k. clear k e) (clean w) w)"
    using f by (simp_all add: w')
qed

lemma despawnNow_slots_ok:
  assumes ok: "world_ok w" and al: "Alive w e"
  shows "slots_ok (despawnNow e w)"
proof -
  note d = despawnNow_effect [OF ok al]
  have s: "slots_ok w" using ok by (simp add: world_ok_def)
  have a: "e_index e < length (slots w)" "s_alive (slots w ! e_index e)" using al s by (simp_all add: Alive_iff)
  have fr: "e_index e \<notin> set (free w)" using s a by (auto simp: slots_ok_def)
  have "(i = e_index e \<or> i \<in> set (free w)) \<longleftrightarrow> i < length (slots w) \<and>
      \<not> s_alive ((slots w)[e_index e := \<lparr>s_gen = next_gen (e_gen e), s_alive = False\<rparr>] ! i)" for i
    using s a by (cases "i = e_index e") (auto simp: slots_ok_def)
  moreover have "\<forall>x \<in> set ((slots w)[e_index e := \<lparr>s_gen = next_gen (e_gen e), s_alive = False\<rparr>]). s_gen x \<noteq> 0"
    using s next_gen_neq(1) by (auto simp: slots_ok_def dest!: set_update_subset_insert [THEN subsetD])
  ultimately show ?thesis using s fr by (simp add: slots_ok_def d(1,2))
qed

lemma despawnNow_ok [inv_intros]:
  assumes ok: "world_ok w"
  shows "world_ok (despawnNow e w)"
proof (cases "Alive w e")
  case True
  note d = despawnNow_effect [OF ok True] and f = fold_clear [OF ok True refl, of "clean w"]
  let ?w = "despawnNow e w" and ?c = "fold (\<lambda>k. clear k e) (clean w) w"
  have "rows_ok ?w"
    using ok unfolding rows_ok_def d by (auto simp: world_ok_def rows_ok_def)
  moreover have "cols_ok ?w"
  proof -
    have "slot_row ?w = slot_row ?c" using d(10) by (simp add: slot_row_def fun_eq_iff)
    moreover have "cols_ok ?c" "clean ?c = clean w" using f by (auto simp: world_ok_def)
    ultimately show ?thesis by (simp add: cols_ok_def d)
  qed
  moreover have "watches_ok ?w" using ok by (simp add: world_ok_def watches_ok_def d)
  ultimately show ?thesis using despawnNow_slots_ok [OF ok True] by (simp add: world_ok_def)
qed (simp add: despawnNow_dead ok)

lemma despawnNow_Alive:
  assumes ok: "world_ok w" and al: "Alive w e"
  shows "Alive (despawnNow e w) e' \<longleftrightarrow> Alive w e' \<and> e' \<noteq> e"
proof -
  note d = despawnNow_effect(1) [OF ok al]
  have s: "slots_ok w" "slots_ok (despawnNow e w)" using ok despawnNow_slots_ok [OF ok al] by (simp_all add: world_ok_def)
  show ?thesis
    using al s by (cases "e_index e' = e_index e") (auto simp: Alive_iff d entity_eq_iff)
qed

lemma despawnNow_Get:
  assumes ok: "world_ok w" and al: "Alive w e"
  shows "Get (despawnNow e w) k e' = (if e' = e then None else Get w k e')"
proof -
  have "e' = e" if "Alive w e'" "e_index e' = e_index e"
    using that al ok by (blast intro: Alive_inj)
  then show ?thesis
    using ok al despawnNow_ok [OF ok] despawnNow_Alive [OF ok al] despawnNow_effect(3,9) [OF ok al]
    by (auto simp: Get_def lookup_eq)
qed

section \<open>The interface of the store\<close>

text \<open>
  What the rest of the package relies on: a set of live entities and, for each key, a partial
  function on them. The laws are stated on any state type; the lemmas of the block are the
  ones the spawn helpers and the deferred edits need.
\<close>

locale entity_store =
  fixes ok :: "'s \<Rightarrow> bool"
    and alive :: "'s \<Rightarrow> entity \<Rightarrow> bool"
    and get :: "'s \<Rightarrow> key \<Rightarrow> entity \<Rightarrow> 'v option"
    and spawn :: "'s \<Rightarrow> entity \<times> 's"
    and put :: "key \<Rightarrow> entity \<Rightarrow> 'v \<Rightarrow> 's \<Rightarrow> 's"
    and kill :: "entity \<Rightarrow> 's \<Rightarrow> 's"
  assumes get_alive: "ok s \<Longrightarrow> get s k e \<noteq> None \<Longrightarrow> alive s e"
    and spawn_law: "ok s \<Longrightarrow> spawn s = (e, s') \<Longrightarrow>
      ok s' \<and> \<not> alive s e \<and> (\<forall>e'. alive s' e' \<longleftrightarrow> e' = e \<or> alive s e') \<and> get s' = get s"
    and put_law: "ok s \<Longrightarrow>
      ok (put k e v s) \<and> alive (put k e v s) = alive s \<and>
      get (put k e v s) = (if alive s e then (get s)(k := (get s k)(e \<mapsto> v)) else get s)"
    and kill_law: "ok s \<Longrightarrow>
      ok (kill e s) \<and> (\<forall>e'. alive (kill e s) e' \<longleftrightarrow> alive s e' \<and> e' \<noteq> e) \<and>
      (\<forall>k e'. get (kill e s) k e' = (if e' = e then None else get s k e'))"
begin

lemma spawned_empty:
  assumes "ok s" and "spawn s = (e, s')"
  shows "get s' k e = None"
  using spawn_law [OF assms] get_alive [OF assms(1), of k e] by (cases "get s k e") auto

text \<open>A bundle: the new entity has exactly the values put on it, the others keep theirs.\<close>

lemma spawn_bundle:
  assumes "ok s" and "spawn s = (e, s1)"
  shows "get (put kb e b (put ka e a s1)) k e' =
    (if e' = e then (if k = kb then Some b else if k = ka then Some a else None) else get s k e')"
    and "alive (put kb e b (put ka e a s1)) e' \<longleftrightarrow> e' = e \<or> alive s e'"
    and "ok (put kb e b (put ka e a s1))"
proof -
  note s1 = spawn_law [OF assms]
  then have 1: "ok s1" "alive s1 e" by auto
  note p1 = put_law [OF 1(1), of ka e a]
  then have 2: "ok (put ka e a s1)" by blast
  note p2 = put_law [OF 2, of kb e b]
  show "get (put kb e b (put ka e a s1)) k e' =
    (if e' = e then (if k = kb then Some b else if k = ka then Some a else None) else get s k e')"
    using s1 p1 p2 1 spawned_empty [OF assms, of k] by auto
  show "alive (put kb e b (put ka e a s1)) e' \<longleftrightarrow> e' = e \<or> alive s e'" "ok (put kb e b (put ka e a s1))"
    using s1 p1 p2 by auto
qed

text \<open>A dead handle stays dead until its index and generation are spawned again.\<close>

lemma killed_handle:
  assumes "ok s"
  shows "\<not> alive (kill e s) e" and "get (kill e s) k e = None"
    and "put k e v (kill e s) = s' \<Longrightarrow> get s' k e = None"
  using kill_law [OF assms, of e] put_law [of "kill e s" k e v] by auto

lemma kill_commute:
  assumes "ok s"
  shows "alive (kill a (kill b s)) = alive (kill b (kill a s))" and "get (kill a (kill b s)) = get (kill b (kill a s))"
  using kill_law [OF assms] kill_law [of "kill a s"] kill_law [of "kill b s"] by (auto simp: fun_eq_iff)

end

lemma Insert_on_law:
  assumes "world_ok w"
  shows "world_ok (Insert_on k e v w)" and "Alive (Insert_on k e v w) = Alive w"
    and "Get (Insert_on k e v w) = (if Alive w e then (Get w)(k := (Get w k)(e \<mapsto> v)) else Get w)"
proof -
  note c = Column_ok [OF assms, of k]
  show "world_ok (Insert_on k e v w)" using Insert_ok [OF c] by (simp add: Insert_on_def)
  show "Alive (Insert_on k e v w) = Alive w" by (simp add: Insert_on_def fun_eq_iff)
  show "Get (Insert_on k e v w) = (if Alive w e then (Get w)(k := (Get w k)(e \<mapsto> v)) else Get w)"
    using Insert_Get [OF c, of k e v] assms by (auto simp: Insert_on_def fun_eq_iff Insert_dead)
qed

interpretation world_store: entity_store world_ok Alive Get Spawn Insert_on despawnNow
proof
  fix w :: "'v world" and e :: entity and k :: key and v :: 'v
  assume ok: "world_ok w"
  show "Get w k e \<noteq> None \<Longrightarrow> Alive w e" using ok by (auto simp: Get_def lookup_eq split: if_splits)
  show "world_ok w' \<and> \<not> Alive w e \<and> (\<forall>e'. Alive w' e' \<longleftrightarrow> e' = e \<or> Alive w e') \<and> Get w' = Get w"
    if "Spawn w = (e, w')" for w'
    using Spawn_ok [OF ok that] Spawn_Alive [OF _ that] Spawn_Get [OF ok that] ok
    by (auto simp: fun_eq_iff world_ok_def)
  show "world_ok (Insert_on k e v w) \<and> Alive (Insert_on k e v w) = Alive w \<and>
      Get (Insert_on k e v w) = (if Alive w e then (Get w)(k := (Get w k)(e \<mapsto> v)) else Get w)"
    using Insert_on_law [OF ok] by blast
  show "world_ok (despawnNow e w) \<and> (\<forall>e'. Alive (despawnNow e w) e' \<longleftrightarrow> Alive w e' \<and> e' \<noteq> e) \<and>
      (\<forall>k e'. Get (despawnNow e w) k e' = (if e' = e then None else Get w k e'))"
  proof (cases "Alive w e")
    case True
    then show ?thesis using ok by (simp add: despawnNow_ok despawnNow_Alive despawnNow_Get)
  next
    case False
    then have "Get w k' e = None" for k' using ok by (simp add: Get_def lookup_eq)
    then show ?thesis using False ok by (auto simp: despawnNow_dead)
  qed
qed

section \<open>Deferred edits\<close>

text \<open>The package's own deferred edits neither queue more work nor touch the flags.\<close>

fun own_edit :: "deferred \<Rightarrow> bool" where
  "own_edit (UserFn n) \<longleftrightarrow> False"
| "own_edit _ \<longleftrightarrow> True"

lemma exec_own:
  assumes "own_edit d" and "world_ok w"
  shows "world_ok (exec code d w) \<and> queue (exec code d w) = queue w \<and>
    flushing (exec code d w) = flushing w \<and> inSystem (exec code d w) = inSystem w \<and> watches (exec code d w) = watches w"
proof (cases d)
  case (DespawnNow e)
  then show ?thesis
    using assms despawnNow_ok despawnNow_effect(5-8) [OF assms(2), of e] by (cases "Alive w e") (auto simp: despawnNow_dead)
qed (use assms drop_row_ok in \<open>auto simp: clearStamp_def\<close>)

lemma fold_exec_own:
  assumes "list_all own_edit ds" and "world_ok w"
  shows "world_ok (fold (exec code) ds w) \<and> queue (fold (exec code) ds w) = queue w \<and>
    flushing (fold (exec code) ds w) = flushing w"
  using assms exec_own by (induction ds arbitrary: w) auto

lemma queue_update_ok: "world_ok (w\<lparr>queue := q\<rparr>) = world_ok w" "world_ok (w\<lparr>flushing := b\<rparr>) = world_ok w"
  "world_ok (w\<lparr>inSystem := b\<rparr>) = world_ok w" "world_ok (w\<lparr>reader := rd\<rparr>) = world_ok w"
  "world_ok (w\<lparr>sysLast := n\<rparr>) = world_ok w" "world_ok (w\<lparr>clock := n\<rparr>) = world_ok w"
  "world_ok (w\<lparr>frame := n\<rparr>) = world_ok w" "world_ok (w\<lparr>inFrame := b\<rparr>) = world_ok w" "world_ok (w\<lparr>seen := n\<rparr>) = world_ok w"
  "world_ok (w\<lparr>msgs := m\<rparr>) = world_ok w" "world_ok (w\<lparr>rolls := rl\<rparr>) = world_ok w" "world_ok (w\<lparr>res := rs\<rparr>) = world_ok w"
  by (simp_all add: world_ok_defs slot_row_def)

text \<open>A flush of the package's own edits returns: it runs each once, in queue order.\<close>

lemma flush_own:
  assumes "list_all own_edit (queue w)" and "world_ok w" and "\<not> flushing w"
  shows "flush code w =
    Some (settle ((fold (exec code) (queue w) (w\<lparr>flushing := True, queue := []\<rparr>))\<lparr>flushing := False\<rparr>))"
proof -
  let ?w = "w\<lparr>flushing := True, queue := []\<rparr>"
  have "queue (fold (exec code) (queue w) ?w) = []"
    using fold_exec_own [OF assms(1), of ?w code] assms(2) by (simp add: queue_update_ok)
  then have "flush_loop code (w\<lparr>flushing := True\<rparr>) = Some (fold (exec code) (queue w) ?w)"
    by (subst flush_loop.simps, subst flush_loop.simps) simp
  then show ?thesis using assms(3) by (simp add: flush_def)
qed

text \<open>Any flush that returns keeps the invariant, if the caller's closures do.\<close>

lemma flush_loop_inv:
  assumes "flush_loop code w = Some w'" and "P w"
    and step: "\<And>w. P w \<Longrightarrow> P (fold (exec code) (queue w) (w\<lparr>queue := []\<rparr>))"
  shows "P w' \<and> queue w' = []"
proof -
  have "code = code \<longrightarrow> P w \<longrightarrow> P w' \<and> queue w' = []"
    by (rule flush_loop.raw_induct [where P = "\<lambda>c w y. c = code \<longrightarrow> P w \<longrightarrow> P y \<and> queue y = []", OF _ assms(1)])
       (auto simp: step split: if_splits)
  then show ?thesis using assms(2) by blast
qed

lemma exec_ok:
  assumes "\<And>n w. world_ok w \<Longrightarrow> world_ok (code n w)" and "world_ok w"
  shows "world_ok (exec code d w)"
  using assms by (cases d) (auto simp: despawnNow_ok clearStamp_def drop_row_ok)

lemma flush_ok:
  assumes code: "\<And>n w. world_ok w \<Longrightarrow> world_ok (code n w)" and "world_ok w" and "flush code w = Some w'"
  shows "world_ok w'" and "\<not> flushing w \<Longrightarrow> watches w' = []"
proof -
  have step: "world_ok (fold (exec code) ds w)" if "world_ok w" for ds w
    by (rule fold_inv [where P = world_ok, OF that]) (rule exec_ok [OF code])
  have "world_ok w' \<and> (\<not> flushing w \<longrightarrow> watches w' = [])"
  proof (cases "flushing w")
    case False
    then obtain w1 where w1: "flush_loop code (w\<lparr>flushing := True\<rparr>) = Some w1" "w' = settle (w1\<lparr>flushing := False\<rparr>)"
      using assms(3) by (auto simp: flush_def)
    have "world_ok w1"
    proof -
      have "world_ok w1 \<and> queue w1 = []"
        by (rule flush_loop_inv [OF w1(1)]) (simp_all add: queue_update_ok assms(2) step)
      then show ?thesis ..
    qed
    then show ?thesis
      using w1(2) settle_ok [of "w1\<lparr>flushing := False\<rparr>"] by (simp add: queue_update_ok settle_def)
  qed (use assms in \<open>simp add: flush_def\<close>)
  then show "world_ok w'" "\<not> flushing w \<Longrightarrow> watches w' = []" by auto
qed

section \<open>Removing and inserting in one system\<close>

lemma flag_update_Get [simp]:
  "Get (w\<lparr>queue := q\<rparr>) = Get w" "Alive (w\<lparr>queue := q\<rparr>) = Alive w" "lookup (w\<lparr>queue := q\<rparr>) = lookup w"
  "Get (w\<lparr>flushing := b\<rparr>) = Get w" "Alive (w\<lparr>flushing := b\<rparr>) = Alive w" "lookup (w\<lparr>flushing := b\<rparr>) = lookup w"
  by (simp_all add: fun_eq_iff Get_def Alive_def lookup_def split: option.splits)

lemma settle_Get: "world_ok w \<Longrightarrow> Get (settle w) = Get w \<and> Alive (settle w) = Alive w"
  by (simp add: fun_eq_iff same_store_Get [OF settle_store])

lemma Insert_fields [simp]:
  "queue (Insert k e v w) = queue w" "inSystem (Insert k e v w) = inSystem w" "flushing (Insert k e v w) = flushing w"
  "clock (Insert k e v w) = clock w"
  by (simp_all add: Insert_def Let_def split: option.splits)

lemma insert_stamp:
  assumes "world_ok w" and "lookup w k e = Some r"
  shows "r_stamp (rows (Insert k e v w) ! r) = Suc (r_stamp (rows w ! r))" and "insert_row w k e = r"
proof -
  note l = lookup_Some [OF assms]
  then obtain t where t: "cols w k = Some t" by (auto simp: slot_row_def split: option.splits)
  have "r_stamp (rows (Insert k e v w) ! r) = Suc (r_stamp (rows w ! r))"
    using t l(1)
  proof (cases rule: Insert_cases [where v = v])
    case (old r' w1 t1)
    then have "r' = r" using l by simp
    then have "r_stamp (rows w1 ! r) = Suc (r_stamp (rows w ! r))" using old(4) l(3) by simp
    moreover have "r_stamp (rows (mark_row r w1) ! r) = r_stamp (rows w1 ! r)"
      using mark_row_store [of w1 r] l(3) old(4) by (simp add: same_store_def)
    ultimately show ?thesis using old(2) \<open>r' = r\<close> by auto
  qed (use l in simp)
  then show "r_stamp (rows (Insert k e v w) ! r) = Suc (r_stamp (rows w ! r))" "insert_row w k e = r"
    using l(2) by (simp_all add: insert_row_def)
qed

lemma drop_row_noop: "\<not> drops w k e st c \<Longrightarrow> drop_row k e st c w = w"
  by (auto simp: drop_row_def drops_def slot_row_def split: option.splits)

lemma flush_one:
  assumes "world_ok w" and "own_edit d" and "queue w = [d]" and "\<not> flushing w"
  shows "\<exists>w'. flush code w = Some w' \<and> world_ok w' \<and> Get w' = Get (exec code d (w\<lparr>flushing := True, queue := []\<rparr>)) \<and>
    Alive w' = Alive (exec code d (w\<lparr>flushing := True, queue := []\<rparr>))"
proof -
  let ?w = "exec code d (w\<lparr>flushing := True, queue := []\<rparr>)"
  have ok: "world_ok ?w" using exec_own [OF assms(2), of "w\<lparr>flushing := True, queue := []\<rparr>" code] assms(1)
    by (simp add: queue_update_ok)
  have "flush code w = Some (settle (?w\<lparr>flushing := False\<rparr>))"
    using flush_own [of w code] assms by simp
  then show ?thesis
    using settle_Get [of "?w\<lparr>flushing := False\<rparr>"] settle_ok [of "?w\<lparr>flushing := False\<rparr>"] ok by (simp add: queue_update_ok)
qed

lemma Remove_in_system:
  assumes "world_ok w" and "inSystem w" and "lookup w k e = Some r"
  shows "Remove code k e w = w\<lparr>queue := queue w @ [ClearStamp k e (r_stamp (rows w ! r))]\<rparr>"
  using assms by (simp add: Remove_def Defer_def)

lemma remove_applies_at_flush:
  assumes ok: "world_ok w" and sys: "inSystem w" "queue w = []" "\<not> flushing w" and g: "Get w k e \<noteq> None"
  shows "\<exists>w'. flush code (Remove code k e w) = Some w' \<and> world_ok w' \<and> Get (Remove code k e w) = Get w \<and>
    Get w' = (Get w)(k := (Get w k)(e := None)) \<and> Alive w' = Alive w"
proof -
  from g obtain r where r: "lookup w k e = Some r" by (auto simp: Get_def)
  note l = lookup_Some [OF ok r]
  let ?s = "r_stamp (rows w ! r)" and ?w = "w\<lparr>queue := [ClearStamp k e (r_stamp (rows w ! r))]\<rparr>"
  let ?v = "w\<lparr>flushing := True, queue := []\<rparr>"
  have rm: "Remove code k e w = ?w" using Remove_in_system [OF ok sys(1) r] sys(2) by simp
  from flush_one [of ?w "ClearStamp k e ?s" code] ok sys
  obtain w' where w': "flush code ?w = Some w'" "world_ok w'" "Get w' = Get (clearStamp k e ?s ?v)"
    "Alive w' = Alive (clearStamp k e ?s ?v)" by (auto simp: queue_update_ok)
  have "drops ?v k e ?s True" using l by (simp add: drops_def slot_row_def)
  then have "Get (clearStamp k e ?s ?v) k' e' = ((Get w)(k := (Get w k)(e := None))) k' e'" for k' e'
    using drop_row_Get [of ?v e' k e ?s True k'] ok drop_row_ok [of ?v k e ?s True]
    by (cases "Alive w e'") (auto simp: clearStamp_def queue_update_ok Get_def lookup_eq)
  then show ?thesis using rm w' by (simp add: fun_eq_iff clearStamp_def)
qed

text \<open>An insert after the remove, in the same system, keeps the inserted value.\<close>

lemma insert_cancels_remove:
  assumes ok: "world_ok w" and sys: "inSystem w" "queue w = []" "\<not> flushing w" and g: "Get w k e \<noteq> None"
  shows "\<exists>w'. flush code (Insert k e v (Remove code k e w)) = Some w' \<and> world_ok w' \<and>
    Get w' = (Get w)(k := (Get w k)(e \<mapsto> v)) \<and> Alive w' = Alive w"
proof -
  from g obtain r where r: "lookup w k e = Some r" by (auto simp: Get_def)
  note l = lookup_Some [OF ok r]
  let ?s = "r_stamp (rows w ! r)" and ?w = "w\<lparr>queue := [ClearStamp k e (r_stamp (rows w ! r))]\<rparr>"
  let ?i = "Insert k e v ?w" let ?v = "?i\<lparr>flushing := True, queue := []\<rparr>"
  have rm: "Remove code k e w = ?w" using Remove_in_system [OF ok sys(1) r] sys(2) by simp
  have t: "cols ?w k \<noteq> None" using l(2) by (auto simp: slot_row_def split: option.splits)
  have okw: "world_ok ?w" "Alive ?w e" "lookup ?w k e = Some r" using ok l r by (simp_all add: queue_update_ok)
  have oki: "world_ok ?i" using Insert_ok [OF okw(1)] .
  from flush_one [of ?i "ClearStamp k e ?s" code] oki sys
  obtain w' where w': "flush code ?i = Some w'" "world_ok w'" "Get w' = Get (clearStamp k e ?s ?v)"
    "Alive w' = Alive (clearStamp k e ?s ?v)" by (auto simp: queue_update_ok)
  have "lookup ?i k e = Some r"
    using Insert_lookup [OF okw(1) t okw(2), of v k e] insert_stamp(2) [OF okw(1,3)] by simp
  then have sr: "slot_row ?i k (e_index e) = Some r" using lookup_Some(2) [OF oki] by blast
  have "\<not> drops ?v k e ?s True"
    using sr insert_stamp(1) [OF okw(1,3), of v] by (simp add: drops_def slot_row_def)
  then have "clearStamp k e ?s ?v = ?v"
    unfolding clearStamp_def by (rule drop_row_noop)
  then have "Get w' = Get ?i" "Alive w' = Alive ?i" using w'(3,4) by simp_all
  then show ?thesis
    using rm w'(1,2) Insert_Get [OF okw(1) t okw(2), of v] by (auto simp: fun_eq_iff)
qed

text \<open>A despawn in a system: the entity is live until the flush, then gone from every column.\<close>

lemma despawn_at_flush:
  assumes ok: "world_ok w" and sys: "inSystem w" "queue w = []" "\<not> flushing w" and al: "Alive w e"
  shows "Alive (Despawn code e w) = Alive w \<and> Get (Despawn code e w) = Get w \<and>
    (\<exists>w'. flush code (Despawn code e w) = Some w' \<and> world_ok w' \<and> (\<forall>e'. Alive w' e' \<longleftrightarrow> Alive w e' \<and> e' \<noteq> e) \<and>
       (\<forall>k e'. Get w' k e' = (if e' = e then None else Get w k e')))"
proof -
  let ?w = "w\<lparr>queue := [DespawnNow e]\<rparr>" and ?v = "w\<lparr>flushing := True, queue := []\<rparr>"
  have d: "Despawn code e w = ?w" using sys by (simp add: Despawn_def Defer_def)
  from flush_one [of ?w "DespawnNow e" code] ok sys
  obtain w' where w': "flush code ?w = Some w'" "world_ok w'" "Get w' = Get (despawnNow e ?v)"
    "Alive w' = Alive (despawnNow e ?v)" by (auto simp: queue_update_ok)
  have "world_ok ?v" "Alive ?v e" using ok al by (simp_all add: queue_update_ok)
  then show ?thesis
    using w' d despawnNow_Alive [of ?v e] despawnNow_Get [of ?v e] by simp
qed

end
