(* ===== verification/WorldMessages.thy ===== *)
theory WorldMessages
  imports WorldStore
begin

text \<open>
  The message logs of \<open>x/ui/world/message.go\<close>. A log keeps the messages of the last two
  frames and one cursor per reader (the registration number of a system, or \<open>outsideReader\<close>).

  The specification is the list of all messages ever sent: the log is a suffix of it, and a
  reader gets, in order and once, the messages it has not seen and the log still holds.
\<close>

section \<open>The model\<close>

definition new_box :: "'v messages" where
  "new_box = \<lparr>m_items = [], m_born = [], m_start = 0, m_next = 0, m_cursors = (\<lambda>_. 0)\<rparr>"

text \<open>\<open>roll\<close> of one log.\<close>

definition roll_box :: "nat \<Rightarrow> 'v messages \<Rightarrow> 'v messages" where
  "roll_box f m =
     (if f < 2 then m
      else
        (let keep = f - 1; d = length (takeWhile (\<lambda>b. b < keep) (m_born m)) in
         if d = 0 then m
         else m\<lparr>m_items := drop d (m_items m), m_born := drop d (m_born m), m_start := m_start m + d\<rparr>))"

definition roll :: "'v world \<Rightarrow> 'v world" where
  "roll w = fold (\<lambda>k w. w\<lparr>msgs := (msgs w)(k := map_option (roll_box (frame w)) (msgs w k))\<rparr>) (rolls w) w"

definition inbox :: "key \<Rightarrow> 'v world \<Rightarrow> 'v world" where
  "inbox k w =
     (case msgs w k of
        Some _ \<Rightarrow> w
      | None \<Rightarrow> w\<lparr>msgs := (msgs w)(k \<mapsto> new_box), rolls := rolls w @ [k]\<rparr>)"

definition send_box :: "nat \<Rightarrow> 'v \<Rightarrow> 'v messages \<Rightarrow> 'v messages" where
  "send_box b v m =
     m\<lparr>m_items := m_items m @ [v], m_born := m_born m @ [b],
       m_next := m_start m + length (m_items m @ [v])\<rparr>"

definition Send :: "key \<Rightarrow> 'v \<Rightarrow> 'v world \<Rightarrow> 'v world" where
  "Send k v w =
     (let w' = inbox k w;
          b = (if \<not> inFrame w' then frame w' + 1 else frame w')
      in w'\<lparr>msgs := (msgs w')(k := map_option (send_box b v) (msgs w' k))\<rparr>)"

text \<open>The items with an identifier at or after the cursor.\<close>

definition unread :: "nat \<Rightarrow> 'v messages \<Rightarrow> 'v list" where
  "unread cur m = map snd (filter (\<lambda>(i, _). \<not> m_start m + i < cur) (enumerate 0 (m_items m)))"

definition read_box :: "int \<Rightarrow> 'v messages \<Rightarrow> 'v list \<times> 'v messages" where
  "read_box rd m = (unread (m_cursors m rd) m, m\<lparr>m_cursors := (m_cursors m)(rd := m_next m)\<rparr>)"

definition Messages :: "key \<Rightarrow> 'v world \<Rightarrow> 'v list \<times> 'v world" where
  "Messages k w =
     (case msgs w k of
        None \<Rightarrow> ([], w)
      | Some m \<Rightarrow> (let (out, m') = read_box (reader w) m in (out, w\<lparr>msgs := (msgs w)(k \<mapsto> m')\<rparr>)))"

section \<open>One log\<close>

text \<open>
  A log \<open>m\<close> is the suffix of the sent messages \<open>L\<close> (each with the frame it belongs to);
  the births never decrease and no cursor is ahead of the log.
\<close>

definition box_ok :: "('v \<times> nat) list \<Rightarrow> 'v messages \<Rightarrow> bool" where
  "box_ok L m \<longleftrightarrow>
     m_items m = map fst (drop (m_start m) L) \<and> m_born m = map snd (drop (m_start m) L) \<and>
     m_start m \<le> length L \<and> m_next m = length L \<and> sorted (map snd L) \<and>
     (\<forall>rd. m_cursors m rd \<le> length L)"

lemma new_box_ok: "box_ok [] new_box"
  by (simp add: box_ok_def new_box_def)

lemma send_box_ok:
  assumes "box_ok L m" and "\<And>b'. b' \<in> snd ` set L \<Longrightarrow> b' \<le> b"
  shows "box_ok (L @ [(v, b)]) (send_box b v m)"
  using assms by (auto simp: box_ok_def send_box_def sorted_append le_SucI)

lemma unread_eq: "box_ok L m \<Longrightarrow> unread cur m = map fst (drop (max cur (m_start m)) L)"
proof -
  assume ok: "box_ok L m"
  have filter: "map snd (filter (\<lambda>(i, _). \<not> s + i < cur) (enumerate n xs)) = drop (cur - (s + n)) xs" for s n and xs :: "'v list"
  proof (induction xs arbitrary: n)
    case (Cons x xs)
    show ?case
    proof (cases "s + n < cur")
      case True
      then have "cur - (s + n) = Suc (cur - (s + Suc n))" by simp
      then show ?thesis using Cons.IH [of "Suc n"] True by simp
    next
      case False
      then show ?thesis using Cons.IH [of "Suc n"] by simp
    qed
  qed simp
  have "max cur (m_start m) = (cur - m_start m) + m_start m" by simp
  then show ?thesis
    using ok filter [of "m_start m" 0 "m_items m"] by (simp add: unread_def box_ok_def drop_map add.commute)
qed

lemma read_box_ok:
  assumes "box_ok L m"
  shows "box_ok L (snd (read_box rd m))"
    and "fst (read_box rd m) = map fst (drop (max (m_cursors m rd) (m_start m)) L)"
    and "m_cursors (snd (read_box rd m)) rd = length L"
    and "rd' \<noteq> rd \<Longrightarrow> m_cursors (snd (read_box rd m)) rd' = m_cursors m rd'"
    and "m_start (snd (read_box rd m)) = m_start m"
  using assms unread_eq [OF assms] by (auto simp: read_box_def box_ok_def)

lemma takeWhile_sorted: "sorted xs \<Longrightarrow> takeWhile (\<lambda>b. b < (c :: nat)) xs = filter (\<lambda>b. b < c) xs"
proof (induction xs)
  case (Cons x xs)
  then show ?case by (auto simp: filter_empty_conv [symmetric] intro!: filter_False [symmetric])
qed simp

lemma takeWhile_drop: "n \<le> length (takeWhile P xs) \<Longrightarrow> takeWhile P (drop n xs) = drop n (takeWhile P xs)"
proof (induction xs arbitrary: n)
  case (Cons x xs)
  then show ?case by (cases n) (auto split: if_splits)
qed simp

text \<open>A roll at frame \<open>f\<close> forgets exactly the messages that belong to a frame before \<open>f - 1\<close>.\<close>

lemma roll_box_ok:
  assumes ok: "box_ok L m" and st: "m_start m \<le> length (filter (\<lambda>(_, b). b + 1 < f) L)"
  shows "box_ok L (roll_box f m)" and "m_start (roll_box f m) = length (filter (\<lambda>(_, b). b + 1 < f) L)"
    and "m_cursors (roll_box f m) = m_cursors m"
proof -
  have srt: "sorted (map snd L)" and born: "m_born m = drop (m_start m) (map snd L)"
    using ok by (simp_all add: box_ok_def drop_map)
  have len: "length (filter (\<lambda>(_, b). b + 1 < f) L) = length (filter (\<lambda>b. b < f - 1) (map snd L))"
    by (simp add: filter_map o_def split_def less_diff_conv)
  have pre: "filter (\<lambda>b. b < f - 1) (map snd L) = takeWhile (\<lambda>b. b < f - 1) (map snd L)"
    using takeWhile_sorted [OF srt] by simp
  have n: "length (filter (\<lambda>(_, b). b + 1 < f) L) = length (takeWhile (\<lambda>b. b < f - 1) (map snd L))"
    by (simp only: len pre)
  have d: "length (takeWhile (\<lambda>b. b < f - 1) (m_born m)) =
      length (filter (\<lambda>(_, b). b + 1 < f) L) - m_start m"
    using takeWhile_drop [OF st [unfolded n]] by (simp only: born n length_drop)
  obtain k where k: "length (filter (\<lambda>(_, b). b + 1 < f) L) = m_start m + k"
    using st le_Suc_ex by blast
  have le: "m_start m + k \<le> length L" using k length_filter_le [of "\<lambda>(_, b). b + 1 < f" L] by simp
  have "k = 0" if "f < 2"
  proof -
    have "filter (\<lambda>(_, b). b + 1 < f) L = []" using that by (auto simp: filter_empty_conv)
    then show ?thesis using k by simp
  qed
  moreover have "length (takeWhile (\<lambda>b. b < f - 1) (m_born m)) = k" using d k by simp
  ultimately have r: "roll_box f m = (if k = 0 then m else
      m\<lparr>m_items := drop k (m_items m), m_born := drop k (m_born m), m_start := m_start m + k\<rparr>)"
    by (auto simp: roll_box_def Let_def)
  show "box_ok L (roll_box f m)"
    using ok le by (auto simp: r box_ok_def drop_map add.commute)
  show "m_cursors (roll_box f m) = m_cursors m" by (simp add: r)
  show "m_start (roll_box f m) = length (filter (\<lambda>(_, b). b + 1 < f) L)" unfolding k by (simp add: r)
qed

section \<open>A reader that runs every frame misses nothing\<close>

text \<open>
  The life of one log, seen by one reader \<open>rd\<close>: \<open>f\<close> is the frame, \<open>inF\<close> whether it is running,
  \<open>L\<close> the messages sent so far, \<open>got\<close> what \<open>rd\<close> has been given, \<open>r\<close> whether \<open>rd\<close> has read since
  frame \<open>f\<close> began. The next frame begins only after \<open>rd\<close> has read in this one.
\<close>

inductive log_reach :: "int \<Rightarrow> nat \<Rightarrow> bool \<Rightarrow> ('v \<times> nat) list \<Rightarrow> 'v messages \<Rightarrow> 'v list \<Rightarrow> bool \<Rightarrow> bool"
  for rd :: int where
  start: "log_reach rd 0 False [] new_box [] True"
| send: "log_reach rd f inF L m got r \<Longrightarrow> b = (if \<not> inF then f + 1 else f) \<Longrightarrow>
    log_reach rd f inF (L @ [(v, b)]) (send_box b v m) got r"
| read_self: "log_reach rd f inF L m got r \<Longrightarrow> read_box rd m = (out, m') \<Longrightarrow>
    log_reach rd f inF L m' (got @ out) True"
| read_other: "log_reach rd f inF L m got r \<Longrightarrow> rd' \<noteq> rd \<Longrightarrow>
    log_reach rd f inF L (snd (read_box rd' m)) got r"
| begin_frame: "log_reach rd f False L m got True \<Longrightarrow>
    log_reach rd (f + 1) True L (roll_box (f + 1) m) got False"
| end_frame: "log_reach rd f True L m got r \<Longrightarrow> log_reach rd f False L m got r"

definition born_before :: "nat \<Rightarrow> ('v \<times> nat) list \<Rightarrow> nat" where
  "born_before f L = length (filter (\<lambda>(_, b). b + 1 < f) L)"

definition log_inv :: "int \<Rightarrow> nat \<Rightarrow> bool \<Rightarrow> ('v \<times> nat) list \<Rightarrow> 'v messages \<Rightarrow> 'v list \<Rightarrow> bool \<Rightarrow> bool" where
  "log_inv rd f inF L m got r \<longleftrightarrow>
     box_ok L m \<and> (\<forall>(v, b) \<in> set L. b \<le> (if inF then f else f + 1)) \<and>
     m_start m = born_before f L \<and>
     born_before (if r then f + 1 else f) L \<le> m_cursors m rd \<and>
     got = map fst (take (m_cursors m rd) L)"

lemma born_before_le: "born_before f L \<le> length L"
  by (simp add: born_before_def)

lemma born_before_mono: "f \<le> f' \<Longrightarrow> born_before f L \<le> born_before f' L"
  unfolding born_before_def by (induction L) auto

lemma log_inv_reach: "log_reach rd f inF L m got r \<Longrightarrow> log_inv rd f inF L m got r"
proof (induction rule: log_reach.induct)
  case start
  then show ?case by (simp add: log_inv_def new_box_ok born_before_def) (simp add: new_box_def)
next
  case (send f inF L m got r b v)
  then have "box_ok (L @ [(v, b)]) (send_box b v m)"
    by (intro send_box_ok) (auto simp: log_inv_def split: if_splits)
  moreover have "born_before f (L @ [(v, b)]) = born_before f L" "born_before (f + 1) (L @ [(v, b)]) = born_before (f + 1) L"
    using send.hyps(2) by (auto simp: born_before_def)
  moreover have "m_cursors m rd \<le> length L" using send.IH by (simp add: log_inv_def box_ok_def)
  ultimately show ?case using send by (auto simp: log_inv_def send_box_def split: if_splits)
next
  case (read_self f inF L m got r out m')
  have ok: "box_ok L m" and st: "m_start m = born_before f L" "born_before (if r then f + 1 else f) L \<le> m_cursors m rd"
    and got: "got = map fst (take (m_cursors m rd) L)"
    using read_self.IH by (auto simp: log_inv_def)
  note rb = read_box_ok [OF ok, of rd]
  have "born_before f L \<le> m_cursors m rd"
    using st(2) born_before_mono [of f "f + 1" L] by (auto split: if_splits)
  then have "out = map fst (drop (m_cursors m rd) L)" using rb(2) read_self.hyps(2) st(1) by simp
  then have "got @ out = map fst L" using got by (metis append_take_drop_id map_append)
  then show ?case
    using read_self rb born_before_le [of "f + 1" L] by (auto simp: log_inv_def)
next
  case (read_other f inF L m got r rd')
  have "box_ok L m" using read_other.IH by (simp add: log_inv_def)
  note rb = read_box_ok [OF this, of rd']
  show ?case using read_other.IH rb(1,5) read_box_ok(4) [OF \<open>box_ok L m\<close> read_other.hyps(2) [symmetric]] by (simp add: log_inv_def)
next
  case (begin_frame f L m got)
  have ok: "box_ok L m" "m_start m \<le> length (filter (\<lambda>(_, b). b + 1 < f + 1) L)"
    using begin_frame.IH born_before_mono [of f "f + 1" L] by (auto simp: log_inv_def born_before_def)
  note rb = roll_box_ok [OF ok]
  show ?case using begin_frame.IH rb by (auto simp: log_inv_def born_before_def)
next
  case (end_frame f L m got r)
  then show ?case by (fastforce simp: log_inv_def)
qed

end
