(* ===== verification/WorldSchedule.thy ===== *)
theory WorldSchedule
  imports LewPrelude
begin

text \<open>
  The order of the systems of one set, \<open>order\<close> in \<open>x/ui/world/schedule.go\<close>: a topological
  sort of the \<open>After\<close> and \<open>Before\<close> edges that takes, among the systems whose predecessors
  have run, the one registered first. The panics are values.
\<close>

section \<open>The model\<close>

record placed =
  p_run :: nat
  p_name :: string
  p_after :: "string list"
  p_before :: "string list"
  p_seq :: nat
  p_lastRun :: nat

datatype sched_panic = SelfDependency | UnknownSystem | SystemCycle

record graph =
  g_indeg :: "nat list"
  g_next :: "nat list list"
  g_seen :: "(nat \<times> nat) list"

text \<open>\<open>index[node.name] = i\<close>, so a later node with the same name wins.\<close>

definition index_of :: "placed list \<Rightarrow> string \<rightharpoonup> nat" where
  "index_of nodes = map_of (rev (zip (map p_name nodes) [0..<length nodes]))"

definition add_edge :: "nat \<Rightarrow> nat \<Rightarrow> graph \<Rightarrow> sched_panic + graph" where
  "add_edge before after g =
     (if before = after then Inl SelfDependency
      else if (before, after) \<in> set (g_seen g) then Inr g
      else Inr (g\<lparr>g_seen := (before, after) # g_seen g,
                  g_next := (g_next g)[before := g_next g ! before @ [after]],
                  g_indeg := (g_indeg g)[after := g_indeg g ! after + 1]\<rparr>))"

fun add_all :: "(string \<rightharpoonup> nat) \<Rightarrow> (nat \<Rightarrow> nat \<times> nat) \<Rightarrow> string list \<Rightarrow> graph \<Rightarrow> sched_panic + graph" where
  "add_all index edge [] g = Inr g"
| "add_all index edge (name # names) g =
     (case index name of
        None \<Rightarrow> Inl UnknownSystem
      | Some j \<Rightarrow> bind_result (add_edge (fst (edge j)) (snd (edge j)) g) (add_all index edge names))"

fun build :: "(string \<rightharpoonup> nat) \<Rightarrow> nat \<Rightarrow> placed list \<Rightarrow> graph \<Rightarrow> sched_panic + graph" where
  "build index i [] g = Inr g"
| "build index i (node # nodes) g =
     bind_result (add_all index (\<lambda>j. (j, i)) (p_after node) g) (\<lambda>g.
     bind_result (add_all index (\<lambda>j. (i, j)) (p_before node) g) (\<lambda>g.
     build index (i + 1) nodes g))"

text \<open>The position of the first least \<open>seq\<close> in \<open>ready\<close>.\<close>

fun best_loop :: "(nat \<Rightarrow> nat) \<Rightarrow> nat list \<Rightarrow> nat \<Rightarrow> nat \<Rightarrow> nat \<Rightarrow> nat" where
  "best_loop sq [] k best bestSeq = best"
| "best_loop sq (i # is) k best bestSeq =
     (if sq i < bestSeq then best_loop sq is (k + 1) k (sq i) else best_loop sq is (k + 1) best bestSeq)"

definition best_of :: "(nat \<Rightarrow> nat) \<Rightarrow> nat list \<Rightarrow> nat" where
  "best_of sq ready = (case ready of [] \<Rightarrow> 0 | i # is \<Rightarrow> best_loop sq is 1 0 (sq i))"

definition release :: "nat \<Rightarrow> nat list \<times> nat list \<Rightarrow> nat list \<times> nat list" where
  "release j s =
     (let (indeg, ready) = s; indeg' = indeg[j := indeg ! j - 1]
      in (indeg', if indeg' ! j = 0 then ready @ [j] else ready))"

text \<open>\<open>todo\<close> is \<open>n - len(out)\<close>: every round emits one node.\<close>

fun order_loop :: "nat \<Rightarrow> (nat \<Rightarrow> nat) \<Rightarrow> nat list list \<Rightarrow> nat list \<Rightarrow> nat list \<Rightarrow> nat list \<Rightarrow> sched_panic + nat list" where
  "order_loop 0 sq nexts indeg ready out = Inr out"
| "order_loop (Suc todo) sq nexts indeg ready out =
     (if ready = [] then Inl SystemCycle
      else
        (let best = best_of sq ready; i = ready ! best;
             (indeg', ready') = fold release (nexts ! i) (indeg, take best ready @ drop (best + 1) ready)
         in order_loop todo sq nexts indeg' ready' (out @ [i])))"

definition order :: "placed list \<Rightarrow> sched_panic + nat list" where
  "order nodes =
     (let n = length nodes in
      if n = 0 then Inr []
      else
        bind_result (build (index_of nodes) 0 nodes
            \<lparr>g_indeg = replicate n 0, g_next = replicate n [], g_seen = []\<rparr>) (\<lambda>g.
          order_loop n (\<lambda>i. p_seq (nodes ! i)) (g_next g) (g_indeg g)
            (filter (\<lambda>i. g_indeg g ! i = 0) [0..<n]) []))"

section \<open>The edges\<close>

text \<open>The edges the nodes name: \<open>(a, b)\<close> when \<open>a\<close> must run before \<open>b\<close>.\<close>

definition edges :: "placed list \<Rightarrow> (nat \<times> nat) set" where
  "edges nodes =
     {(j, i). i < length nodes \<and> (\<exists>name \<in> set (p_after (nodes ! i)). index_of nodes name = Some j)} \<union>
     {(i, j). i < length nodes \<and> (\<exists>name \<in> set (p_before (nodes ! i)). index_of nodes name = Some j)}"

lemma index_of_less: "index_of nodes name = Some j \<Longrightarrow> j < length nodes"
  by (auto simp: index_of_def dest!: map_of_SomeD in_set_zipE)

lemma edges_bounds: "(a, b) \<in> edges nodes \<Longrightarrow> a < length nodes \<and> b < length nodes"
  by (auto simp: edges_def index_of_less)

text \<open>A graph over \<open>n\<close> nodes that holds the edge set \<open>E\<close>.\<close>

definition graph_of :: "nat \<Rightarrow> (nat \<times> nat) set \<Rightarrow> graph \<Rightarrow> bool" where
  "graph_of n E g \<longleftrightarrow>
     set (g_seen g) = E \<and> length (g_indeg g) = n \<and> length (g_next g) = n \<and>
     (\<forall>(a, b) \<in> E. a < n \<and> b < n \<and> a \<noteq> b) \<and>
     (\<forall>a < n. distinct (g_next g ! a) \<and> set (g_next g ! a) = {b. (a, b) \<in> E}) \<and>
     (\<forall>b < n. g_indeg g ! b = card {a. (a, b) \<in> E})"

lemma graph_of_finite: "graph_of n E g \<Longrightarrow> finite {a. (a, b) \<in> E}"
  by (rule finite_subset [of _ "{..<n}"]) (auto simp: graph_of_def)

lemma add_edge_graph:
  assumes g: "graph_of n E g" and "a < n" "b < n" and ad: "add_edge a b g = Inr g'"
  shows "graph_of n (insert (a, b) E) g'"
proof (cases "(a, b) \<in> E")
  case True
  then have "(a, b) \<in> set (g_seen g)" "insert (a, b) E = E" using g by (auto simp: graph_of_def)
  then show ?thesis using ad g by (simp add: add_edge_def split: if_splits)
next
  case False
  then have g': "g' = g\<lparr>g_seen := (a, b) # g_seen g, g_next := (g_next g)[a := g_next g ! a @ [b]],
      g_indeg := (g_indeg g)[b := g_indeg g ! b + 1]\<rparr>" and ne: "a \<noteq> b"
    using ad g by (auto simp: add_edge_def graph_of_def split: if_splits)
  have "{x. (x, y) \<in> insert (a, b) E} = (if y = b then insert a {x. (x, b) \<in> E} else {x. (x, y) \<in> E})" for y
    by auto
  moreover have "card (insert a {x. (x, b) \<in> E}) = Suc (card {x. (x, b) \<in> E})"
    using False graph_of_finite [OF g] by simp
  ultimately show ?thesis
    using g False ne assms(2,3) by (auto simp: g' graph_of_def nth_list_update)
qed

lemma add_all_graph:
  assumes "graph_of n E g" and "add_all index edge names g = Inr g'"
    and "\<And>name j. index name = Some j \<Longrightarrow> fst (edge j) < n \<and> snd (edge j) < n"
  shows "graph_of n (E \<union> {edge j |j name. name \<in> set names \<and> index name = Some j}) g'"
  using assms(1,2)
proof (induction names arbitrary: E g)
  case Nil
  then show ?case by simp
next
  case (Cons name names)
  then obtain j g1 where j: "index name = Some j" "add_edge (fst (edge j)) (snd (edge j)) g = Inr g1"
    "add_all index edge names g1 = Inr g'" by (auto split: option.splits)
  from add_edge_graph [OF Cons.prems(1) _ _ j(2)] assms(3) [OF j(1)]
  have "graph_of n (insert (edge j) E) g1" by simp
  note IH = Cons.IH [OF this j(3)]
  show ?case
    by (rule back_subst [where P = "\<lambda>X. graph_of n X g'", OF IH]) (use j(1) in auto)
qed

fun edge_set :: "(string \<rightharpoonup> nat) \<Rightarrow> nat \<Rightarrow> placed list \<Rightarrow> (nat \<times> nat) set" where
  "edge_set index i [] = {}"
| "edge_set index i (node # nodes) =
     {(j, i) |j name. name \<in> set (p_after node) \<and> index name = Some j} \<union>
     {(i, j) |j name. name \<in> set (p_before node) \<and> index name = Some j} \<union> edge_set index (Suc i) nodes"

lemma edge_set_iff:
  "(a, b) \<in> edge_set index i nodes \<longleftrightarrow> (\<exists>k < length nodes.
     b = i + k \<and> (\<exists>name \<in> set (p_after (nodes ! k)). index name = Some a) \<or>
     a = i + k \<and> (\<exists>name \<in> set (p_before (nodes ! k)). index name = Some b))"
  by (induction nodes arbitrary: i) (auto simp: Ex_less_Suc2)

lemma edges_edge_set: "edges nodes = edge_set (index_of nodes) 0 nodes"
  unfolding set_eq_iff split_paired_All edge_set_iff edges_def by auto

lemma build_graph:
  assumes "graph_of n E g" and "build index i nodes g = Inr g'" and "i + length nodes \<le> n"
    and "\<And>name j. index name = Some j \<Longrightarrow> j < n"
  shows "graph_of n (E \<union> edge_set index i nodes) g'"
  using assms(1-3)
proof (induction nodes arbitrary: i E g)
  case Nil
  then show ?case by simp
next
  case (Cons node nodes)
  then obtain g1 g2 where g: "add_all index (\<lambda>j. (j, i)) (p_after node) g = Inr g1"
    "add_all index (\<lambda>j. (i, j)) (p_before node) g1 = Inr g2" "build index (Suc i) nodes g2 = Inr g'"
    by auto
  have b: "i < n" using Cons.prems(3) by simp
  note g1 = add_all_graph [OF Cons.prems(1) g(1)]
  note g2 = add_all_graph [OF g1 g(2)]
  have "graph_of n (E \<union> {(j, i) |j name. name \<in> set (p_after node) \<and> index name = Some j}
      \<union> {(i, j) |j name. name \<in> set (p_before node) \<and> index name = Some j}) g2"
    using g2 b assms(4) by auto
  from Cons.IH [OF this g(3)] Cons.prems(3) show ?case by (simp add: Un_assoc)
qed

lemma empty_graph: "graph_of n {} \<lparr>g_indeg = replicate n 0, g_next = replicate n [], g_seen = []\<rparr>"
  by (simp add: graph_of_def)

text \<open>When the build fails: an unknown name or a system that names itself.\<close>

lemma add_all_error:
  assumes "add_all index edge names g = Inl p"
  shows "p = UnknownSystem \<and> (\<exists>name \<in> set names. index name = None) \<or>
    p = SelfDependency \<and> (\<exists>name \<in> set names. \<exists>j. index name = Some j \<and> fst (edge j) = snd (edge j))"
  using assms
proof (induction names arbitrary: g)
  case (Cons name names)
  then show ?case
    by (cases "index name") (auto simp: bind_result_eq_Inl add_edge_def split: if_splits)
qed simp

lemma build_error:
  assumes "build index i nodes g = Inl p"
  shows "p = UnknownSystem \<and> (\<exists>node \<in> set nodes. \<exists>name \<in> set (p_after node) \<union> set (p_before node). index name = None) \<or>
    p = SelfDependency \<and> (\<exists>a. (a, a) \<in> edge_set index i nodes)"
  using assms
proof (induction nodes arbitrary: i g)
  case (Cons node nodes)
  then consider "add_all index (\<lambda>j. (j, i)) (p_after node) g = Inl p"
    | g1 where "add_all index (\<lambda>j. (i, j)) (p_before node) g1 = Inl p"
    | g2 where "build index (Suc i) nodes g2 = Inl p"
    by (auto simp: bind_result_eq_Inl)
  then show ?case
  proof cases
    case 1
    then show ?thesis using add_all_error [OF 1] by auto
  next
    case 2
    then show ?thesis using add_all_error [OF 2] by auto
  next
    case 3
    show ?thesis
    proof (rule disjE [OF Cons.IH [OF 3]])
      assume "p = UnknownSystem \<and> (\<exists>node \<in> set nodes. \<exists>name \<in> set (p_after node) \<union> set (p_before node). index name = None)"
      then show ?thesis by (intro disjI1) simp
    next
      assume "p = SelfDependency \<and> (\<exists>a. (a, a) \<in> edge_set index (Suc i) nodes)"
      then show ?thesis by (intro disjI2) (simp, blast)
    qed
  qed
qed simp

section \<open>The least ready node\<close>

lemma best_loop_min:
  assumes "best < k" and "bestSeq = sq (rs ! best)" and "\<And>j. j < k \<Longrightarrow> bestSeq \<le> sq (rs ! j)"
    and "drop k rs = is" and "k \<le> length rs"
  shows "best_loop sq is k best bestSeq < length rs \<and>
    (\<forall>j < length rs. sq (rs ! best_loop sq is k best bestSeq) \<le> sq (rs ! j))"
  using assms
proof (induction "is" arbitrary: k best bestSeq)
  case Nil
  then show ?case by simp
next
  case (Cons i "is")
  then have i: "rs ! k = i" "k < length rs" "drop (Suc k) rs = is"
    by (auto simp: nth_via_drop drop_Suc [symmetric] tl_drop) (metis drop_eq_Nil list.discI not_le_imp_less, metis drop_Suc list.sel(3) tl_drop)
  show ?case
  proof (cases "sq i < bestSeq")
    case True
    have "bestSeq \<le> sq (rs ! j)" if "j < k" for j using Cons.prems(3) that .
    then show ?thesis
      using True i Cons.IH [of k "Suc k" "sq i"] by (auto simp: less_Suc_eq intro: order.strict_implies_order order.strict_trans2)
  next
    case False
    have "bestSeq \<le> sq (rs ! j)" if "j < Suc k" for j
      using that False i(1) Cons.prems(3) by (cases "j = k") auto
    from Cons.IH [OF _ Cons.prems(2) this i(3)] show ?thesis
      using i Cons.prems(1) False by simp
  qed
qed

lemma best_of_min:
  assumes "ready \<noteq> []"
  shows "best_of sq ready < length ready" and "i \<in> set ready \<Longrightarrow> sq (ready ! best_of sq ready) \<le> sq i"
proof -
  obtain r rs where r: "ready = r # rs" using assms by (cases ready) auto
  have "best_of sq ready < length ready \<and> (\<forall>j < length ready. sq (ready ! best_of sq ready) \<le> sq (ready ! j))"
    using best_loop_min [of 0 1 "sq r" sq ready rs] by (simp add: r best_of_def)
  then show "best_of sq ready < length ready" "i \<in> set ready \<Longrightarrow> sq (ready ! best_of sq ready) \<le> sq i"
    by (auto simp: in_set_conv_nth)
qed

section \<open>The sort\<close>

lemma fold_release:
  assumes "distinct js" and "\<And>j. j \<in> set js \<Longrightarrow> j < length indeg"
  shows "fold release js (indeg, ready) =
    (map (\<lambda>b. if b \<in> set js then indeg ! b - 1 else indeg ! b) [0..<length indeg],
     ready @ filter (\<lambda>j. indeg ! j - 1 = 0) js)"
  using assms
proof (induction js arbitrary: indeg ready)
  case Nil
  then show ?case by (simp add: map_nth)
next
  case (Cons j js)
  let ?i = "indeg[j := indeg ! j - 1]"
  have "fold release (j # js) (indeg, ready) =
      fold release js (?i, if indeg ! j - 1 = 0 then ready @ [j] else ready)"
    using Cons.prems(2) [of j] by (simp add: release_def)
  also have "\<dots> = (map (\<lambda>b. if b \<in> set js then ?i ! b - 1 else ?i ! b) [0..<length indeg],
     (if indeg ! j - 1 = 0 then ready @ [j] else ready) @ filter (\<lambda>j. ?i ! j - 1 = 0) js)"
    using Cons by simp
  also have "filter (\<lambda>j. ?i ! j - 1 = 0) js = filter (\<lambda>j. indeg ! j - 1 = 0) js"
  proof (intro filter_cong [OF refl])
    fix x assume "x \<in> set js"
    then have "x \<noteq> j" using Cons.prems(1) by auto
    then show "(?i ! x - 1 = 0) = (indeg ! x - 1 = 0)" by simp
  qed
  also have "map (\<lambda>b. if b \<in> set js then ?i ! b - 1 else ?i ! b) [0..<length indeg] =
      map (\<lambda>b. if b \<in> set (j # js) then indeg ! b - 1 else indeg ! b) [0..<length indeg]"
    using Cons.prems by (intro map_cong) (auto simp: nth_list_update)
  finally show ?case by simp
qed

text \<open>The nodes still waited for, and the invariant of the loop.\<close>

definition waiting :: "(nat \<times> nat) set \<Rightarrow> nat list \<Rightarrow> nat \<Rightarrow> nat set" where
  "waiting E out b = {a. (a, b) \<in> E \<and> a \<notin> set out}"

definition sorted_so_far :: "(nat \<times> nat) set \<Rightarrow> nat \<Rightarrow> (nat \<Rightarrow> nat) \<Rightarrow> nat list \<Rightarrow> bool" where
  "sorted_so_far E n sq out \<longleftrightarrow>
     distinct out \<and> set out \<subseteq> {..<n} \<and>
     (\<forall>p < length out. waiting E (take p out) (out ! p) = {} \<and>
        (\<forall>j < n. j \<notin> set (take p out) \<longrightarrow> waiting E (take p out) j = {} \<longrightarrow> sq (out ! p) \<le> sq j))"

definition loop_inv :: "(nat \<times> nat) set \<Rightarrow> nat \<Rightarrow> (nat \<Rightarrow> nat) \<Rightarrow> nat list \<Rightarrow> nat list \<Rightarrow> nat list \<Rightarrow> bool" where
  "loop_inv E n sq indeg ready out \<longleftrightarrow>
     sorted_so_far E n sq out \<and> length indeg = n \<and>
     (\<forall>b < n. indeg ! b = card (waiting E out b)) \<and>
     distinct ready \<and> set ready = {b. b < n \<and> b \<notin> set out \<and> waiting E out b = {}}"

lemma waiting_finite: "E \<subseteq> {..<n} \<times> {..<n} \<Longrightarrow> finite (waiting E out b)"
  by (rule finite_subset [of _ "{..<n}"]) (auto simp: waiting_def)

lemma waiting_snoc: "waiting E (out @ [i]) b = waiting E out b - {i}"
  by (auto simp: waiting_def)

lemma sorted_snoc:
  assumes "sorted_so_far E n sq out" and "i < n" "i \<notin> set out" "waiting E out i = {}"
    and "\<And>j. j < n \<Longrightarrow> j \<notin> set out \<Longrightarrow> waiting E out j = {} \<Longrightarrow> sq i \<le> sq j"
  shows "sorted_so_far E n sq (out @ [i])"
  using assms by (auto simp: sorted_so_far_def nth_append less_Suc_eq)

lemma successor_later:
  assumes "sorted_so_far E n sq out" and "(a, b) \<in> E" and "b \<in> set out"
  shows "a \<in> set out"
proof -
  from assms(3) obtain p where "p < length out" "out ! p = b" by (auto simp: in_set_conv_nth)
  then have "waiting E (take p out) b = {}" using assms(1) by (auto simp: sorted_so_far_def)
  then show ?thesis using assms(2) by (auto simp: waiting_def dest: in_set_takeD)
qed

lemma distinct_middle: "distinct (xs @ i # ys) \<Longrightarrow> distinct (xs @ ys) \<and> set (xs @ ys) = set (xs @ i # ys) - {i}"
  by auto

lemma card_1_iff: "finite A \<Longrightarrow> i \<in> A \<Longrightarrow> card A - 1 = 0 \<longleftrightarrow> A = {i}"
  by (cases "card A") (auto simp: card_1_singleton_iff card_le_Suc0_iff_eq)

lemma loop_step:
  assumes inv: "loop_inv E n sq indeg ready out" and E: "E \<subseteq> {..<n} \<times> {..<n}"
    and next_i: "\<And>a. a < n \<Longrightarrow> distinct (nexts ! a) \<and> set (nexts ! a) = {b. (a, b) \<in> E}" and ne: "ready \<noteq> []"
  defines "best \<equiv> best_of sq ready"
  defines "i \<equiv> ready ! best"
  shows "case fold release (nexts ! i) (indeg, take best ready @ drop (best + 1) ready) of
    (indeg', ready') \<Rightarrow> loop_inv E n sq indeg' ready' (out @ [i])"
proof -
  have b: "best < length ready" using best_of_min(1) [OF ne] by (simp add: best_def)
  then have "i \<in> set ready" by (simp add: i_def)
  then have i: "i < n" "i \<notin> set out" "waiting E out i = {}" using inv by (auto simp: loop_inv_def)
  let ?js = "nexts ! i" and ?rest = "take best ready @ drop (best + 1) ready"
  have "ready = take best ready @ i # drop (best + 1) ready"
    using id_take_nth_drop [OF b] by (simp add: i_def)
  moreover have "distinct ready" using inv by (simp add: loop_inv_def)
  ultimately have rest: "distinct ?rest" "set ?rest = set ready - {i}"
    using distinct_middle [of "take best ready" i "drop (best + 1) ready"] by simp_all
  have js: "distinct ?js" "set ?js = {b. (i, b) \<in> E}" using next_i i(1) by blast+
  have len: "length indeg = n" and deg: "\<And>b. b < n \<Longrightarrow> indeg ! b = card (waiting E out b)"
    and rd: "set ready = {b. b < n \<and> b \<notin> set out \<and> waiting E out b = {}}" and srt: "sorted_so_far E n sq out"
    using inv by (auto simp: loop_inv_def)
  have jin: "b < n" "b \<notin> set out" "b \<noteq> i" "i \<in> waiting E out b" if "(i, b) \<in> E" for b
    using that E i successor_later [OF srt that] by (auto simp: waiting_def)
  let ?deg = "map (\<lambda>b. if b \<in> set ?js then indeg ! b - 1 else indeg ! b) [0..<length indeg]"
  let ?ready = "?rest @ filter (\<lambda>j. indeg ! j - 1 = 0) ?js"
  have one: "indeg ! b - 1 = 0 \<longleftrightarrow> waiting E out b = {i}" if "(i, b) \<in> E" for b
    using jin [OF that] deg waiting_finite [OF E, of out b] card_1_iff by simp
  have "sorted_so_far E n sq (out @ [i])"
    using srt i rd best_of_min(2) [OF ne] by (intro sorted_snoc) (auto simp: i_def best_def)
  moreover have "?deg ! b = card (waiting E (out @ [i]) b)" if "b < n" for b
    using that js(2) len deg jin [of b] waiting_finite [OF E, of out b]
    by (auto simp: waiting_snoc) (simp add: waiting_def)
  moreover have "distinct ?ready"
  proof -
    have "set ?rest \<inter> set ?js = {}" using rest(2) js(2) rd jin(4) by blast
    then have "set ?rest \<inter> set (filter (\<lambda>j. indeg ! j - 1 = 0) ?js) = {}" by auto
    then show ?thesis using rest(1) js(1) distinct_append distinct_filter by blast
  qed
  moreover have "set ?ready = {b. b < n \<and> b \<notin> set (out @ [i]) \<and> waiting E (out @ [i]) b = {}}"
  proof -
    have "b < n \<and> b \<notin> set (out @ [i]) \<and> waiting E (out @ [i]) b = {} \<longleftrightarrow>
        b \<in> set ready - {i} \<or> (i, b) \<in> E \<and> waiting E out b = {i}" for b
    proof (cases "(i, b) \<in> E")
      case True
      note j = jin [OF True]
      have "b \<notin> set ready" using j(4) rd by auto
      moreover have "waiting E out b - {i} = {} \<longleftrightarrow> waiting E out b = {i}" using j(4) by auto
      ultimately show ?thesis using j(1-3) True by (simp add: waiting_snoc)
    next
      case False
      then have "waiting E (out @ [i]) b = waiting E out b" by (auto simp: waiting_def)
      then show ?thesis using False rd by auto
    qed
    moreover have "b \<in> set ?ready \<longleftrightarrow> b \<in> set ready - {i} \<or> (i, b) \<in> E \<and> waiting E out b = {i}" for b
      unfolding set_append [of ?rest] Un_iff rest(2) set_filter js(2) mem_Collect_eq using one [of b] by blast
    ultimately show ?thesis by (intro set_eqI) (simp only: mem_Collect_eq)
  qed
  ultimately have "loop_inv E n sq ?deg ?ready (out @ [i])"
    using len by (simp add: loop_inv_def)
  moreover have "fold release ?js (indeg, ?rest) = (?deg, ?ready)"
    using js jin(1) len by (intro fold_release) auto
  ultimately show ?thesis by simp
qed

lemma order_loop_sound:
  assumes "order_loop todo sq nexts indeg ready out = Inr out'" and "loop_inv E n sq indeg ready out"
    and "E \<subseteq> {..<n} \<times> {..<n}" and "length out + todo = n"
    and "\<And>a. a < n \<Longrightarrow> distinct (nexts ! a) \<and> set (nexts ! a) = {b. (a, b) \<in> E}"
  shows "sorted_so_far E n sq out' \<and> length out' = n"
  using assms(1,2,4)
proof (induction todo arbitrary: indeg ready out)
  case 0
  then show ?case by (simp add: loop_inv_def)
next
  case (Suc todo)
  then have ne: "ready \<noteq> []" by (auto split: if_splits)
  let ?i = "ready ! best_of sq ready"
  obtain deg rdy where f: "fold release (nexts ! ?i) (indeg, take (best_of sq ready) ready @ drop (best_of sq ready + 1) ready) = (deg, rdy)"
    by fastforce
  have "loop_inv E n sq deg rdy (out @ [?i])"
    using loop_step [OF Suc.prems(2) assms(3,5) ne] f by simp
  moreover have "order_loop todo sq nexts deg rdy (out @ [?i]) = Inr out'"
    using Suc.prems(1) ne f by (simp add: Let_def)
  ultimately show ?case using Suc.IH Suc.prems(3) by simp
qed

text \<open>An acyclic set of nodes always has a ready one, so the loop does not give up.\<close>

lemma ready_exists:
  assumes "acyclic E" and E: "E \<subseteq> {..<n} \<times> {..<n}" and "i < n" "i \<notin> set out"
  shows "\<exists>b < n. b \<notin> set out \<and> waiting E out b = {}"
proof -
  have "finite E" using E finite_subset by blast
  then have "wf E" using assms(1) by (rule finite_acyclic_wf)
  then obtain b where "b \<in> {..<n} - set out" "\<And>a. (a, b) \<in> E \<Longrightarrow> a \<notin> {..<n} - set out"
    using assms(3,4) by (elim wfE_min [of E i "{..<n} - set out"]) auto
  then show ?thesis using E by (intro exI [of _ b]) (auto simp: waiting_def)
qed

lemma order_loop_total:
  assumes "loop_inv E n sq indeg ready out" and "acyclic E" and "E \<subseteq> {..<n} \<times> {..<n}" and "length out + todo = n"
    and "\<And>a. a < n \<Longrightarrow> distinct (nexts ! a) \<and> set (nexts ! a) = {b. (a, b) \<in> E}"
  shows "\<exists>out'. order_loop todo sq nexts indeg ready out = Inr out'"
  using assms(1,4)
proof (induction todo arbitrary: indeg ready out)
  case (Suc todo)
  have "distinct out" "set out \<subseteq> {..<n}" using Suc.prems(1) by (auto simp: loop_inv_def sorted_so_far_def)
  then have "set out \<noteq> {..<n}" using Suc.prems(2) distinct_card [of out] by auto
  then obtain i where "i < n" "i \<notin> set out" using \<open>set out \<subseteq> {..<n}\<close> by blast
  from ready_exists [OF assms(2,3) this] have ne: "ready \<noteq> []" using Suc.prems(1) by (auto simp: loop_inv_def)
  let ?i = "ready ! best_of sq ready"
  obtain deg rdy where f: "fold release (nexts ! ?i) (indeg, take (best_of sq ready) ready @ drop (best_of sq ready + 1) ready) = (deg, rdy)"
    by fastforce
  have "loop_inv E n sq deg rdy (out @ [?i])"
    using loop_step [OF Suc.prems(1) assms(3,5) ne] f by simp
  then obtain out' where "order_loop todo sq nexts deg rdy (out @ [?i]) = Inr out'"
    using Suc.IH [of deg rdy "out @ [?i]"] Suc.prems(2) by auto
  then show ?case using ne f by (simp add: Let_def)
qed simp

lemma order_graph:
  assumes "nodes \<noteq> []" and "build (index_of nodes) 0 nodes
      \<lparr>g_indeg = replicate (length nodes) 0, g_next = replicate (length nodes) [], g_seen = []\<rparr> = Inr g"
  defines "n \<equiv> length nodes" and "E \<equiv> edges nodes"
  shows "loop_inv E n sq (g_indeg g) (filter (\<lambda>i. g_indeg g ! i = 0) [0..<n]) []"
    and "E \<subseteq> {..<n} \<times> {..<n}" and "\<And>a. (a, a) \<notin> E"
    and "\<And>a. a < n \<Longrightarrow> distinct (g_next g ! a) \<and> set (g_next g ! a) = {b. (a, b) \<in> E}"
    and "order nodes = order_loop n (\<lambda>i. p_seq (nodes ! i)) (g_next g) (g_indeg g)
            (filter (\<lambda>i. g_indeg g ! i = 0) [0..<n]) []"
proof -
  have g: "graph_of n E g"
    using build_graph [OF empty_graph assms(2)] index_of_less by (simp add: E_def n_def edges_edge_set)
  show "E \<subseteq> {..<n} \<times> {..<n}" using g by (auto simp: graph_of_def)
  show "\<And>a. (a, a) \<notin> E" using g by (auto simp: graph_of_def)
  show "\<And>a. a < n \<Longrightarrow> distinct (g_next g ! a) \<and> set (g_next g ! a) = {b. (a, b) \<in> E}"
    using g by (simp add: graph_of_def)
  have "g_indeg g ! b = 0 \<longleftrightarrow> waiting E [] b = {}" if "b < n" for b
    using g that graph_of_finite [OF g, of b] by (auto simp: graph_of_def waiting_def)
  then show "loop_inv E n sq (g_indeg g) (filter (\<lambda>i. g_indeg g ! i = 0) [0..<n]) []"
    using g by (auto simp: loop_inv_def sorted_so_far_def graph_of_def waiting_def)
  show "order nodes = order_loop n (\<lambda>i. p_seq (nodes ! i)) (g_next g) (g_indeg g)
            (filter (\<lambda>i. g_indeg g ! i = 0) [0..<n]) []"
    using assms(1,2) by (simp add: order_def Let_def n_def)
qed

lemma order_sound:
  assumes "order nodes = Inr out"
  shows "sorted_so_far (edges nodes) (length nodes) (\<lambda>i. p_seq (nodes ! i)) out \<and> set out = {..<length nodes}"
proof (cases "nodes = []")
  case True
  then show ?thesis using assms by (simp add: order_def sorted_so_far_def)
next
  case False
  then obtain g where g: "build (index_of nodes) 0 nodes
      \<lparr>g_indeg = replicate (length nodes) 0, g_next = replicate (length nodes) [], g_seen = []\<rparr> = Inr g"
    using assms by (auto simp: order_def Let_def)
  note og = order_graph [OF False g]
  have s: "sorted_so_far (edges nodes) (length nodes) (\<lambda>i. p_seq (nodes ! i)) out \<and> length out = length nodes"
    using assms order_loop_sound [OF _ og(1,2) _ og(4)] by (simp add: og(5))
  moreover from s have "set out = {..<length nodes}"
    by (intro card_subset_eq) (auto simp: sorted_so_far_def distinct_card)
  ultimately show ?thesis by blast
qed

text \<open>The position of a node in the order, and that edges point forward.\<close>

definition pos :: "nat list \<Rightarrow> nat \<Rightarrow> nat" where
  "pos out i = length (takeWhile (\<lambda>x. x \<noteq> i) out)"

lemma pos_nth: "distinct out \<Longrightarrow> p < length out \<Longrightarrow> pos out (out ! p) = p"
  unfolding pos_def
proof (induction out arbitrary: p)
  case (Cons x xs)
  then show ?case by (cases p) auto
qed simp

lemma sorted_edges:
  assumes "sorted_so_far E n sq out" and "set out = {..<n}" and "(a, b) \<in> E" and "b < n"
  shows "a \<in> set out \<and> pos out a < pos out b"
proof -
  from assms(2,4) obtain p where p: "p < length out" "out ! p = b"
    by (metis in_set_conv_nth lessThan_iff)
  have d: "distinct out" using assms(1) by (simp add: sorted_so_far_def)
  have "waiting E (take p out) b = {}" using assms(1) p by (auto simp: sorted_so_far_def)
  then have "a \<in> set (take p out)" using assms(3) by (auto simp: waiting_def)
  then obtain q where q: "q < p" "q < length out" "out ! q = a" by (auto simp: in_set_conv_nth)
  have "pos out a = q" "pos out b = p" using pos_nth [OF d] p q by auto
  moreover have "a \<in> set out" using q nth_mem by blast
  ultimately show ?thesis using q(1) by simp
qed

definition names_known :: "placed list \<Rightarrow> bool" where
  "names_known nodes \<longleftrightarrow>
     (\<forall>node \<in> set nodes. \<forall>name \<in> set (p_after node) \<union> set (p_before node). index_of nodes name \<noteq> None)"

lemma add_all_known:
  "add_all index edge names g = Inr g' \<Longrightarrow> name \<in> set names \<Longrightarrow> index name \<noteq> None"
  by (induction names arbitrary: g) (auto split: option.splits)

lemma build_known:
  assumes "build index i nodes g = Inr g'" and "node \<in> set nodes" and "name \<in> set (p_after node) \<union> set (p_before node)"
  shows "index name \<noteq> None"
  using assms
proof (induction nodes arbitrary: i g)
  case (Cons x xs)
  from Cons.prems(1) obtain g1 g2 where
    g: "add_all index (\<lambda>j. (j, i)) (p_after x) g = Inr g1" "add_all index (\<lambda>j. (i, j)) (p_before x) g1 = Inr g2"
      "build index (Suc i) xs g2 = Inr g'"
    by auto
  show ?case
  proof (cases "node = x")
    case True
    then show ?thesis using Cons.prems(3) add_all_known [OF g(1)] add_all_known [OF g(2)] by blast
  next
    case False
    then show ?thesis using Cons.IH [OF g(3)] Cons.prems(2,3) by simp
  qed
qed simp

text \<open>The sort succeeds exactly when every name is known and the edges have no cycle.\<close>

lemma order_succeeds_iff: "(\<exists>out. order nodes = Inr out) \<longleftrightarrow> names_known nodes \<and> acyclic (edges nodes)"
proof
  assume "\<exists>out. order nodes = Inr out"
  then obtain out where out: "order nodes = Inr out" ..
  note s = order_sound [OF out]
  have "(a, b) \<in> measure (pos out)" if "(a, b) \<in> edges nodes" for a b
    using sorted_edges [OF conjunct1 [OF s] conjunct2 [OF s] that] edges_bounds [OF that] by simp
  then have "edges nodes \<subseteq> measure (pos out)" by auto
  then have "acyclic (edges nodes)" by (rule wf_acyclic [OF wf_subset [OF wf_measure]])
  moreover have "names_known nodes"
  proof (cases "nodes = []")
    case False
    then obtain g where "build (index_of nodes) 0 nodes
      \<lparr>g_indeg = replicate (length nodes) 0, g_next = replicate (length nodes) [], g_seen = []\<rparr> = Inr g"
      using out by (auto simp: order_def Let_def)
    then show ?thesis using build_known by (auto simp: names_known_def)
  qed (simp add: names_known_def)
  ultimately show "names_known nodes \<and> acyclic (edges nodes)" by blast
next
  assume a: "names_known nodes \<and> acyclic (edges nodes)"
  show "\<exists>out. order nodes = Inr out"
  proof (cases "nodes = []")
    case True
    then show ?thesis by (simp add: order_def)
  next
    case False
    have "(x, x) \<notin> edges nodes" for x using a by (auto simp: acyclic_def)
    then obtain g where g: "build (index_of nodes) 0 nodes
      \<lparr>g_indeg = replicate (length nodes) 0, g_next = replicate (length nodes) [], g_seen = []\<rparr> = Inr g"
      using a build_error [of "index_of nodes" 0 nodes] unfolding names_known_def edges_edge_set
      by (metis (no_types, lifting) old.sum.exhaust)
    note og = order_graph [OF False g]
    show ?thesis
      unfolding og(5) using a by (intro order_loop_total [OF og(1) _ og(2) _ og(4)]) auto
  qed
qed

lemma order_error:
  assumes "order nodes = Inl p"
  shows "p = UnknownSystem \<and> \<not> names_known nodes \<or> p = SelfDependency \<and> (\<exists>a. (a, a) \<in> edges nodes) \<or>
    p = SystemCycle \<and> \<not> acyclic (edges nodes)"
proof (cases "build (index_of nodes) 0 nodes
      \<lparr>g_indeg = replicate (length nodes) 0, g_next = replicate (length nodes) [], g_seen = []\<rparr>")
  case (Inl q)
  then have "p = q" using assms by (auto simp: order_def Let_def split: if_splits)
  then show ?thesis using build_error [OF Inl] by (auto simp: names_known_def edges_edge_set)
next
  case (Inr g)
  have ne: "nodes \<noteq> []" using assms by (auto simp: order_def)
  note og = order_graph [OF ne Inr]
  have "order_loop todo sq nexts deg rdy out = Inl p \<Longrightarrow> p = SystemCycle" for todo sq nexts deg rdy out
    by (induction todo arbitrary: deg rdy out) (auto simp: Let_def split: if_splits prod.splits)
  then have "p = SystemCycle" using assms og(5) by metis
  moreover have "names_known nodes" using build_known [OF Inr] by (auto simp: names_known_def)
  ultimately show ?thesis using assms order_succeeds_iff [of nodes] by auto
qed

end
