(* ===== verification/WorldSim.thy ===== *)
theory WorldSim
  imports WorldMessages WorldSchedule
begin

text \<open>
  The simulation of \<open>x/ui/world\<close>: registration of systems (\<open>sim.go\<close>, \<open>schedule.go\<close>), the
  frame (\<open>sim.go\<close>) and its clock (\<open>time.go\<close>).

  A system is a number; \<open>nm f\<close> is its function name (\<open>funcName\<close>, which asks the Go runtime)
  and \<open>sf f\<close> its effect on the world. \<open>code\<close> is the effect of the caller's deferred closures.
  \<open>ctx.Err() != nil\<close> is \<open>err p\<close> at the \<open>p\<close>-th poll of a frame. The stored \<open>Time\<close> value is
  computed by \<open>advance\<close> from the old one and the delta (floating point arithmetic is not
  modelled). A set is a number below \<open>setCount\<close>; a panic is a value, and \<^const>\<open>None\<close> is a frame
  that does not return because a flush does not.
\<close>

section \<open>The model\<close>

definition setCount :: nat where
  "setCount = 6"

datatype sim_panic = BadSet | NoName | DuplicateSystem | Sched sched_panic

record ('v, 'd) sim =
  s_world :: "'v world"
  s_systems :: "placed list list"
  s_saved :: "nat list list"
  s_fresh :: bool
  s_seq :: nat
  s_started :: bool
  s_delta :: 'd
  s_stepped :: bool

definition New :: "'d \<Rightarrow> ('v, 'd) sim" where
  "New zero = \<lparr>s_world = newWorld, s_systems = replicate setCount [], s_saved = replicate setCount [],
     s_fresh = False, s_seq = 0, s_started = False, s_delta = zero, s_stepped = False\<rparr>"

definition System :: "(nat \<Rightarrow> string) \<Rightarrow> nat \<Rightarrow> nat \<Rightarrow> ('v, 'd) sim \<Rightarrow> sim_panic + (nat \<times> ('v, 'd) sim)" where
  "System nm st sys s =
     (if st \<ge> setCount then Inl BadSet
      else if nm sys = [] then Inl NoName
      else if list_ex (\<lambda>p. p_name p = nm sys) (s_systems s ! st) then Inl DuplicateSystem
      else Inr (length (s_systems s ! st),
        s\<lparr>s_fresh := False,
          s_systems := (s_systems s)[st := s_systems s ! st @
             [\<lparr>p_run = sys, p_name = nm sys, p_after = [], p_before = [], p_seq = s_seq s, p_lastRun = 0\<rparr>]],
          s_seq := s_seq s + 1\<rparr>))"

text \<open>\<open>Reg.After\<close> and \<open>Reg.Before\<close> of the registration \<open>(st, i)\<close>; \<^const>\<open>None\<close> is a nil system.\<close>

definition After :: "(nat \<Rightarrow> string) \<Rightarrow> nat \<Rightarrow> nat \<Rightarrow> nat option list \<Rightarrow> ('v, 'd) sim \<Rightarrow> ('v, 'd) sim" where
  "After nm st i prevs s =
     s\<lparr>s_fresh := False,
       s_systems := (s_systems s)[st := (s_systems s ! st)[i :=
         (s_systems s ! st ! i)\<lparr>p_after := p_after (s_systems s ! st ! i) @ map nm (List.map_filter id prevs)\<rparr>]]\<rparr>"

definition Before :: "(nat \<Rightarrow> string) \<Rightarrow> nat \<Rightarrow> nat \<Rightarrow> nat option list \<Rightarrow> ('v, 'd) sim \<Rightarrow> ('v, 'd) sim" where
  "Before nm st i nexts s =
     s\<lparr>s_fresh := False,
       s_systems := (s_systems s)[st := (s_systems s ! st)[i :=
         (s_systems s ! st ! i)\<lparr>p_before := p_before (s_systems s ! st ! i) @ map nm (List.map_filter id nexts)\<rparr>]]\<rparr>"

fun chain_loop :: "(nat \<Rightarrow> string) \<Rightarrow> nat \<Rightarrow> nat option \<Rightarrow> nat option list \<Rightarrow> ('v, 'd) sim \<Rightarrow> sim_panic + ('v, 'd) sim" where
  "chain_loop nm st prev [] s = Inr s"
| "chain_loop nm st prev (None # systems) s = chain_loop nm st prev systems s"
| "chain_loop nm st prev (Some sys # systems) s =
     bind_result (System nm st sys s) (\<lambda>(i, s').
       chain_loop nm st (Some sys) systems
         (case prev of None \<Rightarrow> s' | Some p \<Rightarrow> After nm st i [Some p] s'))"

definition Chain :: "(nat \<Rightarrow> string) \<Rightarrow> nat \<Rightarrow> nat option list \<Rightarrow> ('v, 'd) sim \<Rightarrow> sim_panic + ('v, 'd) sim" where
  "Chain nm st systems s = chain_loop nm st None systems s"

fun order_all :: "placed list list \<Rightarrow> sim_panic + nat list list" where
  "order_all [] = Inr []"
| "order_all (nodes # sets) =
     (case order nodes of
        Inl p \<Rightarrow> Inl (Sched p)
      | Inr out \<Rightarrow> bind_result (order_all sets) (\<lambda>outs. Inr (out # outs)))"

definition prepare :: "('v, 'd) sim \<Rightarrow> sim_panic + (nat list list \<times> ('v, 'd) sim)" where
  "prepare s =
     (if s_fresh s then Inr (s_saved s, s)
      else bind_result (order_all (s_systems s)) (\<lambda>saved. Inr (saved, s\<lparr>s_saved := saved, s_fresh := True\<rparr>)))"

definition run_one ::
  "(nat \<Rightarrow> 'v world \<Rightarrow> 'v world) \<Rightarrow> (nat \<Rightarrow> 'v world \<Rightarrow> 'v world) \<Rightarrow> nat \<Rightarrow> nat \<Rightarrow> ('v, 'd) sim \<Rightarrow> ('v, 'd) sim option" where
  "run_one code sf st i s =
     (let sys = s_systems s ! st ! i;
          w = sf (p_run sys) ((s_world s)\<lparr>inSystem := True, reader := int (p_seq sys), sysLast := p_lastRun sys\<rparr>);
          w = settle w;
          last = clock w
      in map_option (\<lambda>w. s\<lparr>s_world := w,
             s_systems := (s_systems s)[st := (s_systems s ! st)[i := sys\<lparr>p_lastRun := last\<rparr>]]\<rparr>)
           (flush code (w\<lparr>clock := last + 1, inSystem := False, reader := outsideReader\<rparr>)))"

fun run_loop ::
  "(nat \<Rightarrow> bool) \<Rightarrow> (nat \<Rightarrow> 'v world \<Rightarrow> 'v world) \<Rightarrow> (nat \<Rightarrow> 'v world \<Rightarrow> 'v world) \<Rightarrow> nat \<Rightarrow> nat list \<Rightarrow> nat
   \<Rightarrow> ('v, 'd) sim \<Rightarrow> (bool \<times> nat \<times> ('v, 'd) sim) option" where
  "run_loop err code sf st [] p s = Some (\<not> err p, p + 1, s)"
| "run_loop err code sf st (i # idxs) p s =
     (if err p then Some (False, p + 1, s)
      else (case run_one code sf st i s of
              None \<Rightarrow> None
            | Some s' \<Rightarrow> run_loop err code sf st idxs (p + 1) s'))"

text \<open>The sets of a frame, each with its plan; a cancelled set ends the frame.\<close>

fun run_sets ::
  "(nat \<Rightarrow> bool) \<Rightarrow> (nat \<Rightarrow> 'v world \<Rightarrow> 'v world) \<Rightarrow> (nat \<Rightarrow> 'v world \<Rightarrow> 'v world) \<Rightarrow> (nat \<times> nat list) list \<Rightarrow> nat
   \<Rightarrow> ('v, 'd) sim \<Rightarrow> ('v, 'd) sim option" where
  "run_sets err code sf [] p s = Some s"
| "run_sets err code sf ((st, idxs) # sets) p s =
     (case run_loop err code sf st idxs p s of
        None \<Rightarrow> None
      | Some (ok, p', s') \<Rightarrow> if ok then run_sets err code sf sets p' s' else Some s')"

definition writeTime :: "key \<Rightarrow> ('v option \<Rightarrow> 'd \<Rightarrow> 'v) \<Rightarrow> ('v, 'd) sim \<Rightarrow> ('v, 'd) sim" where
  "writeTime timeKey advance s =
     (if \<not> s_stepped s then s
      else s\<lparr>s_stepped := False,
             s_world := Put timeKey (advance (Res_Read (s_world s) timeKey) (s_delta s)) (s_world s)\<rparr>)"

definition begin_world :: "'v world \<Rightarrow> 'v world" where
  "begin_world w =
     (let w = settle w
      in w\<lparr>frame := frame w + 1, inFrame := True, clock := clock w + 1\<rparr>)"

definition Frame ::
  "(nat \<Rightarrow> bool) \<Rightarrow> (nat \<Rightarrow> 'v world \<Rightarrow> 'v world) \<Rightarrow> (nat \<Rightarrow> 'v world \<Rightarrow> 'v world) \<Rightarrow> key \<Rightarrow> ('v option \<Rightarrow> 'd \<Rightarrow> 'v)
   \<Rightarrow> ('v, 'd) sim \<Rightarrow> (sim_panic + ('v, 'd) sim) option" where
  "Frame err code sf timeKey advance s =
     (case prepare s of
        Inl p \<Rightarrow> Some (Inl p)
      | Inr (plan, s1) \<Rightarrow>
          if err 0 then Some (Inr (s1\<lparr>s_stepped := False\<rparr>))
          else
            (let w = begin_world (s_world s1);
                 boundary = clock w;
                 s2 = writeTime timeKey advance (s1\<lparr>s_world := w\<rparr>);
                 s3 = s2\<lparr>s_world := roll (s_world s2)\<rparr>;
                 sets = map (\<lambda>st. (st, plan ! st)) (if s_started s3 then [1..<setCount] else [0..<setCount])
             in map_option (\<lambda>s4. Inr (s4\<lparr>s_world := (s_world s4)\<lparr>seen := boundary - 1, inFrame := False\<rparr>\<rparr>))
                  (run_sets err code sf sets 1 (s3\<lparr>s_started := True\<rparr>))))"

definition Step ::
  "('d \<Rightarrow> 'd) \<Rightarrow> (nat \<Rightarrow> bool) \<Rightarrow> (nat \<Rightarrow> 'v world \<Rightarrow> 'v world) \<Rightarrow> (nat \<Rightarrow> 'v world \<Rightarrow> 'v world) \<Rightarrow> key
   \<Rightarrow> ('v option \<Rightarrow> 'd \<Rightarrow> 'v) \<Rightarrow> 'd \<Rightarrow> ('v, 'd) sim \<Rightarrow> (sim_panic + ('v, 'd) sim) option" where
  "Step clamp err code sf timeKey advance delta s =
     Frame err code sf timeKey advance (s\<lparr>s_delta := clamp delta, s_stepped := True\<rparr>)"

section \<open>Ordering the sets\<close>

lemma order_all_sound:
  "order_all nss = Inr outs \<Longrightarrow> length outs = length nss \<and> (\<forall>k < length nss. order (nss ! k) = Inr (outs ! k))"
proof (induction nss arbitrary: outs)
  case (Cons ns nss)
  then obtain out outs' where o: "order ns = Inr out" "order_all nss = Inr outs'" "outs = out # outs'"
    by (auto split: sum.splits)
  show ?case using Cons.IH [OF o(2)] o by (auto simp: nth_Cons split: nat.splits)
qed simp

lemma order_all_complete:
  assumes "\<And>ns. ns \<in> set nss \<Longrightarrow> \<exists>out. order ns = Inr out"
  shows "\<exists>outs. order_all nss = Inr outs"
  using assms
proof (induction nss)
  case (Cons ns nss)
  then obtain out outs where "order ns = Inr out" "order_all nss = Inr outs" by (meson list.set_intros)
  then show ?case by simp
qed simp

section \<open>Clocks\<close>

lemma evalWatches_fields [simp]:
  "clock (evalWatches w) = clock w" "inSystem (evalWatches w) = inSystem w" "sysLast (evalWatches w) = sysLast w"
  "seen (evalWatches w) = seen w" "queue (evalWatches w) = queue w" "frame (evalWatches w) = frame w"
proof -
  have rw: "clock (run_watch f w) = clock w \<and> inSystem (run_watch f w) = inSystem w \<and> sysLast (run_watch f w) = sysLast w \<and>
    seen (run_watch f w) = seen w \<and> queue (run_watch f w) = queue w \<and> frame (run_watch f w) = frame w" for f w
    by (cases f) (auto simp: mark_row_def mark_cell_def split: option.splits)
  have "clock (fold run_watch fs w) = clock w \<and> inSystem (fold run_watch fs w) = inSystem w \<and>
    sysLast (fold run_watch fs w) = sysLast w \<and> seen (fold run_watch fs w) = seen w \<and>
    queue (fold run_watch fs w) = queue w \<and> frame (fold run_watch fs w) = frame w" for fs
    by (induction fs arbitrary: w) (simp_all add: rw)
  then show "clock (evalWatches w) = clock w" "inSystem (evalWatches w) = inSystem w" "sysLast (evalWatches w) = sysLast w"
    "seen (evalWatches w) = seen w" "queue (evalWatches w) = queue w" "frame (evalWatches w) = frame w"
    by (simp_all add: evalWatches_def)
qed

lemma settle_fields [simp]:
  "clock (settle w) = clock w" "inSystem (settle w) = inSystem w" "queue (settle w) = queue w" "frame (settle w) = frame w"
  by (simp_all add: settle_def)

lemma exec_clock:
  assumes "\<And>n w. clock (code n w) = clock w"
  shows "clock (exec code d w) = clock w"
proof -
  have d: "clock (drop_row k e st c w) = clock w" for k e st c and w :: "'a world"
    by (auto simp: drop_row_def split: option.splits)
  have "clock (fold (\<lambda>k. clear k e) ks w) = clock w" for ks e and w :: "'a world"
    by (induction ks arbitrary: w) (simp_all add: clear_def d)
  then show ?thesis using assms by (cases d) (simp_all add: despawnNow_def Let_def clearStamp_def d)
qed

lemma flush_clock:
  assumes "\<And>n w. clock (code n w) = clock w" and "flush code w = Some w'"
  shows "clock w' = clock w"
proof (cases "flushing w")
  case False
  then obtain w1 where w1: "flush_loop code (w\<lparr>flushing := True\<rparr>) = Some w1" "w' = settle (w1\<lparr>flushing := False\<rparr>)"
    using assms(2) by (auto simp: flush_def)
  have f: "clock (fold (exec code) ds v) = clock v" for ds v
    by (induction ds arbitrary: v) (simp_all add: exec_clock [OF assms(1)])
  have "clock w1 = clock w \<and> queue w1 = []"
    by (rule flush_loop_inv [where P = "\<lambda>v. clock v = clock w", OF w1(1)]) (simp_all add: f)
  then show ?thesis using w1(2) by simp
qed (use assms in \<open>simp add: flush_def\<close>)

text \<open>Running a system takes one clock value; the system remembers it.\<close>

lemma run_one_clock:
  assumes "run_one code sf st i s = Some s'" and "st < length (s_systems s)" and "i < length (s_systems s ! st)"
    and "\<And>n w. clock (code n w) = clock w" and "\<And>n w. clock (sf n w) = clock w"
  shows "clock (s_world s') = clock (s_world s) + 1"
    and "p_lastRun (s_systems s' ! st ! i) = clock (s_world s)"
    and "(st', j) \<noteq> (st, i) \<Longrightarrow> s_systems s' ! st' ! j = s_systems s ! st' ! j"
proof -
  let ?sys = "s_systems s ! st ! i"
  let ?w = "settle (sf (p_run ?sys) ((s_world s)\<lparr>inSystem := True, reader := int (p_seq ?sys), sysLast := p_lastRun ?sys\<rparr>))"
  from assms(1) obtain w' where w': "flush code (?w\<lparr>clock := clock ?w + 1, inSystem := False, reader := outsideReader\<rparr>) = Some w'"
    and s': "s' = s\<lparr>s_world := w', s_systems := (s_systems s)[st := (s_systems s ! st)[i := ?sys\<lparr>p_lastRun := clock ?w\<rparr>]]\<rparr>"
    by (auto simp: run_one_def Let_def)
  show "clock (s_world s') = clock (s_world s) + 1"
    using flush_clock [OF assms(4) w'] by (simp add: s' assms(5))
  show "p_lastRun (s_systems s' ! st ! i) = clock (s_world s)"
    using assms(2,3) by (simp add: s' assms(5))
  show "s_systems s' ! st' ! j = s_systems s ! st' ! j" if "(st', j) \<noteq> (st, i)"
    using that assms(2) by (cases "st' = st") (auto simp: s')
qed

text \<open>The mark an insert leaves.\<close>

lemma Insert_marks:
  assumes ok: "world_ok w" and t: "cols w k = Some t" and al: "Alive w e" and c: "clock w \<noteq> 0" and ch: "Get w k e \<noteq> Some v"
  shows "r_tick (rows (Insert k e v w) ! insert_row w k e) = clock w"
  using t al
proof (cases rule: Insert_cases [where v = v])
  case (fresh w1 t1)
  then show ?thesis using c by (simp add: insert_row_def mark_row_def nth_append)
next
  case (old r w1 t1)
  have r: "r < length (rows w)" using ok old(1) by (auto simp: world_ok_def rows_ok_def)
  have "lookup w k e = Some r" using ok al old(1) by (simp add: lookup_eq)
  then have "\<not> same (r_v (rows w ! r)) v" using ch by (simp add: Get_def same_def)
  then have "Insert k e v w = mark_row r w1" using old(3) by blast
  then show ?thesis using r c old(1,4) by (simp add: insert_row_def mark_row_def)
qed

section \<open>The frame keeps the invariant\<close>

lemma run_one_ok:
  assumes "\<And>n w. world_ok w \<Longrightarrow> world_ok (code n w)" and "\<And>n w. world_ok w \<Longrightarrow> world_ok (sf n w)"
    and "world_ok (s_world s)" and "run_one code sf st i s = Some s'"
  shows "world_ok (s_world s')"
proof -
  let ?sys = "s_systems s ! st ! i"
  let ?w = "settle (sf (p_run ?sys) ((s_world s)\<lparr>inSystem := True, reader := int (p_seq ?sys), sysLast := p_lastRun ?sys\<rparr>))"
  from assms(4) obtain w' where w': "flush code (?w\<lparr>clock := clock ?w + 1, inSystem := False, reader := outsideReader\<rparr>) = Some w'"
    "s_world s' = w'"
    by (auto simp: run_one_def Let_def)
  have "world_ok ?w" by (intro settle_ok assms(2)) (simp add: queue_update_ok assms(3))
  then show ?thesis using flush_ok(1) [OF assms(1) _ w'(1)] w'(2) by (simp add: queue_update_ok)
qed

lemma run_loop_ok:
  assumes "\<And>n w. world_ok w \<Longrightarrow> world_ok (code n w)" and "\<And>n w. world_ok w \<Longrightarrow> world_ok (sf n w)"
  shows "world_ok (s_world s) \<Longrightarrow> run_loop err code sf st idxs p s = Some (b, p', s') \<Longrightarrow> world_ok (s_world s')"
proof (induction idxs arbitrary: p s)
  case (Cons i idxs)
  show ?case
  proof (cases "err p")
    case False
    then obtain s1 where s1: "run_one code sf st i s = Some s1" "run_loop err code sf st idxs (p + 1) s1 = Some (b, p', s')"
      using Cons.prems(2) by (auto split: option.splits)
    show ?thesis using Cons.IH [OF run_one_ok [OF assms Cons.prems(1) s1(1)] s1(2)] .
  qed (use Cons.prems in auto)
qed auto

lemma run_sets_ok:
  assumes "\<And>n w. world_ok w \<Longrightarrow> world_ok (code n w)" and "\<And>n w. world_ok w \<Longrightarrow> world_ok (sf n w)"
  shows "world_ok (s_world s) \<Longrightarrow> run_sets err code sf sets p s = Some s' \<Longrightarrow> world_ok (s_world s')"
proof (induction sets arbitrary: p s)
  case (Cons x sets)
  obtain st idxs where x: "x = (st, idxs)" by (cases x)
  from Cons.prems(2) obtain b p1 s1 where s1: "run_loop err code sf st idxs p s = Some (b, p1, s1)"
    "if b then run_sets err code sf sets p1 s1 = Some s' else s1 = s'"
    by (auto simp: x split: option.splits if_splits)
  have "world_ok (s_world s1)" using run_loop_ok [OF assms Cons.prems(1) s1(1)] .
  then show ?case using Cons.IH s1(2) by (auto split: if_splits)
qed simp

lemma Put_ok [inv_intros]: "world_ok w \<Longrightarrow> world_ok (Put k v w)"
  by (simp add: Put_def mark_cell_ok queue_update_ok split: option.splits)

lemma roll_ok [inv_intros]: "world_ok w \<Longrightarrow> world_ok (roll w)"
  unfolding roll_def by (rule fold_inv [where P = world_ok]) (simp_all add: queue_update_ok)

lemma Frame_ok:
  assumes "\<And>n w. world_ok w \<Longrightarrow> world_ok (code n w)" and "\<And>n w. world_ok w \<Longrightarrow> world_ok (sf n w)"
    and ok: "world_ok (s_world s)" and fr: "Frame err code sf timeKey advance s = Some (Inr s')"
  shows "world_ok (s_world s')"
proof -
  from fr obtain plan s1 where pr: "prepare s = Inr (plan, s1)"
    by (auto simp: Frame_def split: sum.splits)
  then have w1: "s_world s1 = s_world s" by (auto simp: prepare_def split: if_splits)
  show ?thesis
  proof (cases "err 0")
    case True
    then have "s' = s1\<lparr>s_stepped := False\<rparr>" using fr pr by (simp add: Frame_def)
    then show ?thesis using w1 ok by simp
  next
    case False
    let ?w = "begin_world (s_world s)"
    have okw: "world_ok ?w" using ok settle_ok by (simp add: begin_world_def Let_def queue_update_ok)
    let ?s2 = "writeTime timeKey advance (s1\<lparr>s_world := ?w\<rparr>)"
    have "world_ok (s_world ?s2)" using okw by (simp add: writeTime_def Put_ok)
    then have ok3: "world_ok (roll (s_world ?s2))" by (rule roll_ok)
    from fr pr False w1 obtain sets s4 where
      "run_sets err code sf sets 1 (?s2\<lparr>s_world := roll (s_world ?s2), s_started := True\<rparr>) = Some s4"
      and s': "s' = s4\<lparr>s_world := (s_world s4)\<lparr>seen := clock ?w - 1, inFrame := False\<rparr>\<rparr>"
      by (auto simp: Frame_def Let_def)
    from run_sets_ok [OF assms(1,2) _ this(1)] ok3 have "world_ok (s_world s4)" by simp
    then show ?thesis by (simp add: s' queue_update_ok)
  qed
qed

section \<open>A chain runs in the order written\<close>

fun chain_nodes :: "(nat \<Rightarrow> string) \<Rightarrow> nat \<Rightarrow> nat option \<Rightarrow> nat list \<Rightarrow> placed list" where
  "chain_nodes nm sq prev [] = []"
| "chain_nodes nm sq prev (f # fs) =
     \<lparr>p_run = f, p_name = nm f, p_after = (case prev of None \<Rightarrow> [] | Some p \<Rightarrow> [nm p]), p_before = [],
      p_seq = sq, p_lastRun = 0\<rparr> # chain_nodes nm (sq + 1) (Some f) fs"

lemma chain_nodes_props:
  "length (chain_nodes nm sq prev fs) = length fs" "map p_name (chain_nodes nm sq prev fs) = map nm fs"
  "k < length fs \<Longrightarrow> p_before (chain_nodes nm sq prev fs ! k) = []"
  "k < length fs \<Longrightarrow> p_after (chain_nodes nm sq prev fs ! k) =
     (if k = 0 then (case prev of None \<Rightarrow> [] | Some p \<Rightarrow> [nm p]) else [nm (fs ! (k - 1))])"
proof -
  show "length (chain_nodes nm sq prev fs) = length fs" "map p_name (chain_nodes nm sq prev fs) = map nm fs"
    by (induction fs arbitrary: sq prev) auto
  show "k < length fs \<Longrightarrow> p_before (chain_nodes nm sq prev fs ! k) = []"
    by (induction fs arbitrary: sq prev k) (auto simp: nth_Cons split: nat.splits)
  show "k < length fs \<Longrightarrow> p_after (chain_nodes nm sq prev fs ! k) =
     (if k = 0 then (case prev of None \<Rightarrow> [] | Some p \<Rightarrow> [nm p]) else [nm (fs ! (k - 1))])"
    by (induction fs arbitrary: sq prev k) (auto simp: nth_Cons split: nat.splits)
qed

lemma chain_loop_eq:
  assumes "st < setCount" and "st < length (s_systems s)" and "\<And>f. f \<in> set fs \<Longrightarrow> nm f \<noteq> []"
    and "distinct (map nm fs)" and "nm ` set fs \<inter> p_name ` set (s_systems s ! st) = {}"
  shows "\<exists>s'. chain_loop nm st prev (map Some fs) s = Inr s' \<and>
    s_systems s' = (s_systems s)[st := s_systems s ! st @ chain_nodes nm (s_seq s) prev fs]"
  using assms(2-)
proof (induction fs arbitrary: prev s)
  case Nil
  then show ?case by simp
next
  case (Cons f fs)
  let ?ns = "s_systems s ! st"
  let ?base = "\<lparr>p_run = f, p_name = nm f, p_after = [], p_before = [], p_seq = s_seq s, p_lastRun = 0\<rparr>"
  let ?node = "?base\<lparr>p_after := (case prev of None \<Rightarrow> [] | Some p \<Rightarrow> [nm p])\<rparr>"
  have nd: "\<not> list_ex (\<lambda>p. p_name p = nm f) ?ns" using Cons.prems(4) by (force simp: list_ex_iff)
  let ?s1 = "s\<lparr>s_fresh := False, s_systems := (s_systems s)[st := ?ns @ [?base]], s_seq := s_seq s + 1\<rparr>"
  have sys: "System nm st f s = Inr (length ?ns, ?s1)"
    using assms(1) Cons.prems(2) [of f] nd by (simp add: System_def)
  define s2 where "s2 = (case prev of None \<Rightarrow> ?s1 | Some p \<Rightarrow> After nm st (length ?ns) [Some p] ?s1)"
  have s2: "s_systems s2 = (s_systems s)[st := ?ns @ [?node]]" "s_seq s2 = s_seq s + 1"
    using Cons.prems(1) by (auto simp: s2_def After_def List.map_filter_simps split: option.splits)
  have at: "s_systems s2 ! st = ?ns @ [?node]" "st < length (s_systems s2)" using s2(1) Cons.prems(1) by simp_all
  have "\<exists>s'. chain_loop nm st (Some f) (map Some fs) s2 = Inr s' \<and>
      s_systems s' = (s_systems s2)[st := s_systems s2 ! st @ chain_nodes nm (s_seq s2) (Some f) fs]"
    using Cons.prems at by (intro Cons.IH) auto
  moreover have "chain_loop nm st prev (map Some (f # fs)) s = chain_loop nm st (Some f) (map Some fs) s2"
    using sys by (cases prev) (simp_all add: s2_def)
  ultimately show ?case using Cons.prems(1) unfolding s2 by simp
qed

lemma index_of_distinct:
  assumes "distinct (map p_name nodes)" and "k < length nodes"
  shows "index_of nodes (p_name (nodes ! k)) = Some k"
proof -
  have "distinct (map fst (rev (zip (map p_name nodes) [0..<length nodes])))"
    using assms(1) by (simp add: rev_map [symmetric])
  moreover have "(p_name (nodes ! k), k) \<in> set (rev (zip (map p_name nodes) [0..<length nodes]))"
    using assms(2) by (force simp: set_zip)
  ultimately show ?thesis by (simp add: index_of_def)
qed

lemma chain_edges:
  assumes "distinct (map nm fs)"
  shows "edges (chain_nodes nm sq None fs) = {(k, Suc k) |k. Suc k < length fs}"
    and "names_known (chain_nodes nm sq None fs)"
proof -
  let ?ns = "chain_nodes nm sq None fs"
  note p = chain_nodes_props [where prev = None and nm = nm and sq = sq and fs = fs]
  have ix: "index_of ?ns (nm (fs ! k)) = Some k" if "k < length fs" for k
    using index_of_distinct [of ?ns k] assms that p(1,2) by (metis nth_map)
  have af: "p_after (?ns ! k) = (if k = 0 then [] else [nm (fs ! (k - 1))])" if "k < length fs" for k
    using p(4) [OF that] by simp
  have "(a, b) \<in> edges ?ns \<longleftrightarrow> (\<exists>k. (a, b) = (k, Suc k) \<and> Suc k < length fs)" for a b
  proof
    assume "(a, b) \<in> edges ?ns"
    then have "b < length fs" "\<exists>name \<in> set (p_after (?ns ! b)). index_of ?ns name = Some a"
      by (auto simp: edges_def p)
    then show "\<exists>k. (a, b) = (k, Suc k) \<and> Suc k < length fs" using af ix by (cases b) auto
  next
    assume "\<exists>k. (a, b) = (k, Suc k) \<and> Suc k < length fs"
    then show "(a, b) \<in> edges ?ns" using af ix by (auto simp: edges_def p(1))
  qed
  then show "edges ?ns = {(k, Suc k) |k. Suc k < length fs}" by auto
  show "names_known ?ns"
    unfolding names_known_def
  proof (intro ballI)
    fix node name assume "node \<in> set ?ns" and n: "name \<in> set (p_after node) \<union> set (p_before node)"
    then obtain k where "k < length fs" "node = ?ns ! k" by (auto simp: in_set_conv_nth p(1))
    then show "index_of ?ns name \<noteq> None" using n af [of k] p(3) [of k] ix [of "k - 1"] by (auto split: if_splits)
  qed
qed

lemma chain_order:
  assumes "distinct (map nm fs)"
  shows "order (chain_nodes nm sq None fs) = Inr [0..<length fs]"
proof -
  let ?ns = "chain_nodes nm sq None fs" and ?n = "length fs"
  note e = chain_edges [OF assms, of sq] and len = chain_nodes_props(1) [of nm sq None fs]
  have "edges ?ns \<subseteq> measure id" by (auto simp: e(1))
  then have "acyclic (edges ?ns)" by (rule wf_acyclic [OF wf_subset [OF wf_measure]])
  then obtain out where out: "order ?ns = Inr out" using e(2) order_succeeds_iff [of ?ns] by blast
  note s = order_sound [OF out]
  have lo: "length out = ?n" using s distinct_card [of out] by (auto simp: sorted_so_far_def len)
  have "out ! p = p" if "p < ?n" for p
    using that
  proof (induction p rule: less_induct)
    case (less p)
    have "take p out = [0..<p]" using less lo by (intro nth_equalityI) auto
    then have w: "waiting (edges ?ns) [0..<p] (out ! p) = {}" using s less.prems lo by (auto simp: sorted_so_far_def)
    have "out ! p \<notin> set (take p out)"
      using s less.prems lo by (auto simp: sorted_so_far_def in_set_conv_nth nth_eq_iff_index_eq)
    then have ge: "p \<le> out ! p" using \<open>take p out = [0..<p]\<close> by auto
    have lt: "out ! p < ?n" using s less.prems lo len nth_mem [of p out] by auto
    show ?case
    proof (rule ccontr)
      assume "out ! p \<noteq> p"
      then obtain q where q: "out ! p = Suc q" "p \<le> q" using ge by (cases "out ! p") auto
      then have "q \<in> waiting (edges ?ns) [0..<p] (out ! p)" using lt by (auto simp: waiting_def e(1))
      then show False using w by simp
    qed
  qed
  then have "out = [0..<?n]" using lo by (intro nth_equalityI) auto
  then show ?thesis using out by simp
qed

lemma Chain_plan:
  assumes "st < setCount" and "length (s_systems s) = setCount" and "s_systems s ! st = []"
    and "\<And>f. f \<in> set fs \<Longrightarrow> nm f \<noteq> []" and "distinct (map nm fs)"
  shows "\<exists>s'. Chain nm st (map Some fs) s = Inr s' \<and>
    map p_run (s_systems s' ! st) = fs \<and> order (s_systems s' ! st) = Inr [0..<length fs]"
proof -
  obtain s' where s': "chain_loop nm st None (map Some fs) s = Inr s'"
    "s_systems s' = (s_systems s)[st := s_systems s ! st @ chain_nodes nm (s_seq s) None fs]"
    using chain_loop_eq [of st s fs nm None] assms by auto
  have "map p_run (chain_nodes nm sq prev fs) = fs" for sq prev
    by (induction fs arbitrary: sq prev) auto
  then show ?thesis
    using s' assms(1-3) chain_order [OF assms(5)] by (auto simp: Chain_def)
qed


section \<open>Change detection\<close>

text \<open>Running the watches changes no tick but to the clock.\<close>

lemma run_watch_tick:
  "r < length (rows w) \<Longrightarrow> r_tick (rows (run_watch f w) ! r) \<in> {r_tick (rows w ! r), clock w}"
  by (cases f) (auto simp: mark_row_def mark_cell_def nth_update_if split: option.splits)

lemma evalWatches_tick:
  assumes "r < length (rows w)"
  shows "r_tick (rows (evalWatches w) ! r) \<in> {r_tick (rows w ! r), clock w}"
proof -
  have "length (rows (fold run_watch fs w)) = length (rows w) \<and> clock (fold run_watch fs w) = clock w \<and>
    r_tick (rows (fold run_watch fs w) ! r) \<in> {r_tick (rows w ! r), clock w}" for fs
    using assms
  proof (induction fs arbitrary: w)
    case (Cons f fs)
    have c: "clock (run_watch f w) = clock w" "length (rows (run_watch f w)) = length (rows w)"
      by (cases f; simp add: mark_row_def mark_cell_def split: option.splits)+
    show ?case using Cons.IH [of "run_watch f w"] Cons.prems run_watch_tick [OF Cons.prems, of f] c by auto
  qed simp
  then show ?thesis by (simp add: evalWatches_def)
qed

text \<open>What a system asks at its next run: the writes stamped after its last one.\<close>

lemma Changed_in_system:
  assumes ok: "world_ok w" and l: "lookup w k e = Some r" and sys: "inSystem w" and t: "sysLast w < r_tick (rows w ! r)" "sysLast w < clock w"
  shows "fst (Changed k e w)"
proof -
  have "r < length (rows w)" using lookup_Some(3) [OF ok l] .
  then have "sysLast w < r_tick (rows (evalWatches w) ! r)" using evalWatches_tick [of r w] t by auto
  then show ?thesis using l sys by (simp add: Changed_def changed_row_def newer_def Let_def)
qed

lemma Changed_old:
  assumes "watches w = []" and "inSystem w" and "\<And>r. lookup w k e = Some r \<Longrightarrow> r_tick (rows w ! r) \<le> sysLast w"
  shows "\<not> fst (Changed k e w)"
proof (cases "lookup w k e")
  case (Some r)
  then show ?thesis using assms(1,2) assms(3) [OF Some]
    by (simp add: Changed_def changed_row_def newer_def Let_def evalWatches_def)
qed (simp add: Changed_def)

lemma system_update [simp]:
  "lookup (w\<lparr>inSystem := b, sysLast := n\<rparr>) k e = lookup w k e"
  "world_ok (w\<lparr>inSystem := b, sysLast := n\<rparr>) = world_ok w"
  by (simp_all add: lookup_def Alive_def world_ok_defs slot_row_def split: option.split)

lemma change_seen_once:
  assumes run: "run_one code sf st i s = Some s'" "st < length (s_systems s)" "i < length (s_systems s ! st)"
      "\<And>n w. clock (code n w) = clock w" "\<And>n w. clock (sf n w) = clock w"
    and lr: "lr = p_lastRun (s_systems s' ! st ! i)"
  shows "world_ok w \<Longrightarrow> cols w k \<noteq> None \<Longrightarrow> Alive w e \<Longrightarrow> clock (s_world s') \<le> clock w \<Longrightarrow> Get w k e \<noteq> Some v \<Longrightarrow>
      fst (Changed k e ((Insert k e v w)\<lparr>inSystem := True, sysLast := lr\<rparr>))"
    and "watches w = [] \<Longrightarrow> (\<And>r. lookup w k e = Some r \<Longrightarrow> r_tick (rows w ! r) \<le> clock (s_world s)) \<Longrightarrow>
      \<not> fst (Changed k e (w\<lparr>inSystem := True, sysLast := lr\<rparr>))"
proof -
  note c = run_one_clock [OF run]
  show "fst (Changed k e ((Insert k e v w)\<lparr>inSystem := True, sysLast := lr\<rparr>))"
    if ok: "world_ok w" and t: "cols w k \<noteq> None" and al: "Alive w e" and cl: "clock (s_world s') \<le> clock w" and ch: "Get w k e \<noteq> Some v"
  proof (rule Changed_in_system)
    from t obtain t where t': "cols w k = Some t" by blast
    have "clock w \<noteq> 0" using cl c(1) by simp
    from Insert_marks [OF ok t' al this ch]
    have tk: "r_tick (rows (Insert k e v w) ! insert_row w k e) = clock w" .
    show "lookup ((Insert k e v w)\<lparr>inSystem := True, sysLast := lr\<rparr>) k e = Some (insert_row w k e)"
      using Insert_lookup [OF ok t al] by simp
    show "sysLast ((Insert k e v w)\<lparr>inSystem := True, sysLast := lr\<rparr>)
      < r_tick (rows ((Insert k e v w)\<lparr>inSystem := True, sysLast := lr\<rparr>) ! insert_row w k e)"
      "sysLast ((Insert k e v w)\<lparr>inSystem := True, sysLast := lr\<rparr>) < clock ((Insert k e v w)\<lparr>inSystem := True, sysLast := lr\<rparr>)"
      using tk c(1,2) cl lr by simp_all
  qed (simp_all add: Insert_ok ok)
  show "\<not> fst (Changed k e (w\<lparr>inSystem := True, sysLast := lr\<rparr>))"
    if "watches w = []" and "\<And>r. lookup w k e = Some r \<Longrightarrow> r_tick (rows w ! r) \<le> clock (s_world s)"
    by (rule Changed_old) (use that c(2) lr in auto)
qed

text \<open>A frame that finds its context cancelled, or cannot be ordered, leaves the world alone.\<close>

lemma Frame_cancelled:
  assumes "err 0" and "Frame err code sf timeKey advance s = Some (Inr s')"
  shows "s_world s' = s_world s \<and> s_systems s' = s_systems s \<and> s_started s' = s_started s"
  using assms by (auto simp: Frame_def prepare_def split: sum.splits if_splits)

lemma Frame_panics_iff:
  assumes "\<not> s_fresh s"
  shows "(\<exists>p. Frame err code sf timeKey advance s = Some (Inl p)) \<longleftrightarrow>
    (\<exists>nodes \<in> set (s_systems s). \<not> (names_known nodes \<and> acyclic (edges nodes)))"
proof -
  have "(\<exists>p. prepare s = Inl p) \<longleftrightarrow> (\<exists>p. order_all (s_systems s) = Inl p)"
    using assms by (auto simp: prepare_def bind_result_def split: sum.splits)
  also have "\<dots> \<longleftrightarrow> (\<exists>nodes \<in> set (s_systems s). \<not> (\<exists>out. order nodes = Inr out))"
  proof (cases "order_all (s_systems s)")
    case (Inl p)
    then have "\<exists>nodes \<in> set (s_systems s). \<not> (\<exists>out. order nodes = Inr out)"
      using order_all_complete [of "s_systems s"] by fastforce
    then show ?thesis using Inl by simp
  next
    case (Inr outs)
    then show ?thesis using order_all_sound [OF Inr] by (auto simp: in_set_conv_nth)
  qed
  finally show ?thesis unfolding order_succeeds_iff
    by (auto simp: Frame_def Let_def split: sum.splits option.splits)
qed

end
