(* ===== verification/WorldQuery.thy ===== *)
theory WorldQuery
  imports WorldStore
begin

text \<open>
  Queries, \<open>x/ui/world/query.go\<close>: the rows of one column, narrowed by the presence or absence
  of other columns on the same entity and by change.
\<close>

section \<open>The model\<close>

text \<open>A filter of \<open>hide\<close>: \<open>(True, u)\<close> was added by \<open>With\<close>, \<open>(False, u)\<close> by \<open>Without\<close>.\<close>

record query =
  q_key :: key
  q_hide :: "(bool \<times> key) list"
  q_changed :: bool

definition Query :: "key \<Rightarrow> query" where
  "Query k = \<lparr>q_key = k, q_hide = [], q_changed = False\<rparr>"

definition Query_With :: "key \<Rightarrow> query \<Rightarrow> 'v world \<Rightarrow> query \<times> 'v world" where
  "Query_With u v w = (v\<lparr>q_hide := q_hide v @ [(True, u)]\<rparr>, Column u w)"

definition Query_Without :: "key \<Rightarrow> query \<Rightarrow> 'v world \<Rightarrow> query \<times> 'v world" where
  "Query_Without u v w = (v\<lparr>q_hide := q_hide v @ [(False, u)]\<rparr>, Column u w)"

definition Query_Changed :: "query \<Rightarrow> query" where
  "Query_Changed v = v\<lparr>q_changed := True\<rparr>"

definition hidden :: "'v world \<Rightarrow> entity \<Rightarrow> bool \<times> key \<Rightarrow> bool" where
  "hidden w e h = (if fst h then Get w (snd h) e = None else Get w (snd h) e \<noteq> None)"

definition query_row :: "query \<Rightarrow> entity \<Rightarrow> 'v world \<Rightarrow> nat option \<times> 'v world" where
  "query_row v e w =
     (if \<not> Alive w e then (None, w)
      else
        (let w = Column (q_key v) w in
         case lookup w (q_key v) e of
           None \<Rightarrow> (None, w)
         | Some r \<Rightarrow>
             if list_ex (hidden w e) (q_hide v) then (None, w)
             else if q_changed v
             then (let (c, w') = changed_row r w in (if c then Some r else None, w'))
             else (Some r, w)))"

definition Query_Get :: "query \<Rightarrow> entity \<Rightarrow> 'v world \<Rightarrow> 'v option \<times> 'v world" where
  "Query_Get v e w =
     (case query_row v e w of
        (None, w') \<Rightarrow> (None, w')
      | (Some r, w') \<Rightarrow> (Some (r_v (rows w' ! r)), w'))"

definition Query_Mut :: "query \<Rightarrow> entity \<Rightarrow> 'v world \<Rightarrow> nat option \<times> 'v world" where
  "Query_Mut v e w =
     (case query_row v e w of
        (None, w') \<Rightarrow> (None, w')
      | (Some _, w') \<Rightarrow> Mut (q_key v) e (Column (q_key v) w'))"

text \<open>
  \<open>View.each\<close>. The state of the walk is the world and whatever the callback keeps (\<open>'a\<close>);
  \<^const>\<open>None\<close> is the index panic of \<open>table.ids[i]\<close>.
\<close>

fun query_loop :: "nat list \<Rightarrow> query \<Rightarrow> bool \<Rightarrow> (entity \<Rightarrow> nat \<Rightarrow> 'v world \<times> 'a \<Rightarrow> 'v world \<times> 'a)
    \<Rightarrow> 'v world \<times> 'a \<Rightarrow> ('v world \<times> 'a) option" where
  "query_loop [] v edit fn s = Some s"
| "query_loop (i # is) v edit fn (w, a) =
     (case cols w (q_key v) of
        None \<Rightarrow> None
      | Some t \<Rightarrow>
          if i \<ge> length (ids t) \<or> ids t ! i \<ge> length (sparse t) then None
          else
            (case sparse t ! (ids t ! i) of
               None \<Rightarrow> query_loop is v edit fn (w, a)
             | Some entry \<Rightarrow>
                 (let e = \<lparr>e_index = ids t ! i, e_gen = r_gen (rows w ! entry)\<rparr> in
                  case query_row v e w of
                    (None, w1) \<Rightarrow> query_loop is v edit fn (w1, a)
                  | (Some _, w1) \<Rightarrow>
                      if \<not> edit then query_loop is v edit fn (fn e entry (w1, a))
                      else
                        (let before = r_v (rows w1 ! entry);
                             (w2, a2) = fn e entry (w1, a)
                         in query_loop is v edit fn
                              (if \<not> same before (r_v (rows w2 ! entry)) then mark_row entry w2 else w2, a2)))))"

definition query_each :: "query \<Rightarrow> bool \<Rightarrow> (entity \<Rightarrow> nat \<Rightarrow> 'v world \<times> 'a \<Rightarrow> 'v world \<times> 'a)
    \<Rightarrow> 'v world \<times> 'a \<Rightarrow> ('v world \<times> 'a) option" where
  "query_each v edit fn s =
     (let w = Column (q_key v) (fst s) in query_loop [0..<Len (q_key v) w] v edit fn (w, snd s))"

definition Query_Read :: "query \<Rightarrow> (entity \<Rightarrow> 'v \<Rightarrow> 'v world \<times> 'a \<Rightarrow> 'v world \<times> 'a)
    \<Rightarrow> 'v world \<times> 'a \<Rightarrow> ('v world \<times> 'a) option" where
  "Query_Read v fn s = query_each v False (\<lambda>e r (w, a). fn e (r_v (rows w ! r)) (w, a)) s"

definition Query_Each :: "query \<Rightarrow> (entity \<Rightarrow> nat \<Rightarrow> 'v world \<times> 'a \<Rightarrow> 'v world \<times> 'a)
    \<Rightarrow> 'v world \<times> 'a \<Rightarrow> ('v world \<times> 'a) option" where
  "Query_Each v fn s = query_each v True fn s"

fun first_loop :: "nat list \<Rightarrow> query \<Rightarrow> ('v \<Rightarrow> bool) option \<Rightarrow> 'v world \<Rightarrow> ((entity \<times> 'v) option \<times> 'v world) option" where
  "first_loop [] v match w = Some (None, w)"
| "first_loop (i # is) v match w =
     (case cols w (q_key v) of
        None \<Rightarrow> None
      | Some t \<Rightarrow>
          if i \<ge> length (ids t) \<or> ids t ! i \<ge> length (sparse t) then None
          else
            (case sparse t ! (ids t ! i) of
               None \<Rightarrow> first_loop is v match w
             | Some entry \<Rightarrow>
                 (let e = \<lparr>e_index = ids t ! i, e_gen = r_gen (rows w ! entry)\<rparr> in
                  case query_row v e w of
                    (None, w1) \<Rightarrow> first_loop is v match w1
                  | (Some _, w1) \<Rightarrow>
                      if (case match of None \<Rightarrow> False | Some m \<Rightarrow> \<not> m (r_v (rows w1 ! entry)))
                      then first_loop is v match w1
                      else Some (Some (e, r_v (rows w1 ! entry)), w1))))"

definition Query_First :: "query \<Rightarrow> ('v \<Rightarrow> bool) option \<Rightarrow> 'v world \<Rightarrow> ((entity \<times> 'v) option \<times> 'v world) option" where
  "Query_First v match w =
     (let w = Column (q_key v) w in first_loop [0..<Len (q_key v) w] v match w)"

definition Query_All :: "query \<Rightarrow> 'v world \<Rightarrow> ('v list \<times> 'v world) option" where
  "Query_All v w =
     map_option (\<lambda>(w', out). (out, w')) (Query_Read v (\<lambda>_ value (w, out). (w, out @ [value])) (w, []))"

section \<open>What a query matches\<close>

definition matches :: "query \<Rightarrow> 'v world \<Rightarrow> entity \<Rightarrow> bool" where
  "matches v w e \<longleftrightarrow> Get w (q_key v) e \<noteq> None \<and> (\<forall>h \<in> set (q_hide v). \<not> hidden w e h)"

text \<open>The entity whose row the column stores at index \<open>i\<close>.\<close>

definition entity_at :: "'v world \<Rightarrow> nat \<Rightarrow> entity" where
  "entity_at w i = \<lparr>e_index = i, e_gen = s_gen (slots w ! i)\<rparr>"

lemma Column_same [simp]: "cols w k \<noteq> None \<Longrightarrow> Column k w = w"
  by (auto simp: Column_def)

lemma query_row_eq:
  assumes ok: "world_ok w" and col: "cols w (q_key v) \<noteq> None" and "\<not> q_changed v"
  shows "query_row v e w = (if matches v w e then lookup w (q_key v) e else None, w)"
proof -
  have "lookup w (q_key v) e = None" if "\<not> Alive w e" using that ok by (simp add: lookup_eq)
  then show ?thesis
    using assms by (auto simp: query_row_def matches_def Get_def list_ex_iff split: option.splits)
qed

lemma table_entry:
  assumes ok: "world_ok w" and t: "cols w k = Some t" and i: "i \<in> set (ids t)"
  shows "i < length (sparse t) \<and> sparse t ! i \<noteq> None \<and>
    lookup w k (entity_at w i) = sparse t ! i \<and> (\<forall>r. sparse t ! i = Some r \<longrightarrow> r_gen (rows w ! r) = s_gen (slots w ! i))"
proof -
  have "slot_row w k i \<noteq> None" using ok t i by (auto simp: world_ok_def cols_ok_def)
  then have sr: "i < length (sparse t)" "slot_row w k i = sparse t ! i" "sparse t ! i \<noteq> None"
    using t by (auto simp: slot_row_def split: if_splits)
  then obtain r where r: "slot_row w k i = Some r" by auto
  have a: "i < length (slots w)" "s_alive (slots w ! i)" "r_gen (rows w ! r) = s_gen (slots w ! i)"
    using ok r by (auto simp: world_ok_def rows_ok_def)
  have "Alive w (entity_at w i)" using ok a by (simp add: Alive_iff world_ok_def entity_at_def)
  then show ?thesis using ok sr r a by (auto simp: lookup_eq entity_at_def)
qed

lemma read_loop_all:
  assumes ok: "world_ok w" and t: "cols w (q_key v) = Some t" and "\<not> q_changed v"
    and js: "\<And>j. j \<in> set js \<Longrightarrow> j < length (ids t)"
  shows "query_loop js v False (\<lambda>e r (w, out). (w, out @ [r_v (rows w ! r)])) (w, out) =
    Some (w, out @ map (\<lambda>i. the (Get w (q_key v) (entity_at w i)))
                     (filter (\<lambda>i. matches v w (entity_at w i)) (map ((!) (ids t)) js)))"
  using js
proof (induction js arbitrary: out)
  case (Cons j js)
  let ?i = "ids t ! j"
  have "?i \<in> set (ids t)" using Cons.prems by simp
  note e = table_entry [OF ok t this]
  then obtain r where r: "sparse t ! ?i = Some r" by auto
  have en: "\<lparr>e_index = ?i, e_gen = r_gen (rows w ! r)\<rparr> = entity_at w ?i" using e r by (simp add: entity_at_def)
  have "lookup w (q_key v) (entity_at w ?i) = Some r" using e r by simp
  then have "Get w (q_key v) (entity_at w ?i) = Some (r_v (rows w ! r))"
    "query_row v (entity_at w ?i) w = (if matches v w (entity_at w ?i) then Some r else None, w)"
    using query_row_eq [OF ok _ assms(3), of "entity_at w ?i"] t by (auto simp: Get_def)
  then show ?case
    using Cons.IH [OF Cons.prems] Cons.prems [of j] t e r en by simp
qed simp

text \<open>\<open>All\<close>: the values of the matching entities, in the order of the column.\<close>

lemma Query_All_eq:
  assumes ok: "world_ok w" and t: "cols w (q_key v) = Some t" and "\<not> q_changed v"
  shows "Query_All v w = Some (map (\<lambda>i. the (Get w (q_key v) (entity_at w i)))
    (filter (\<lambda>i. matches v w (entity_at w i)) (ids t)), w)"
proof -
  have c: "Column (q_key v) w = w" using t by simp
  have "query_loop [0..<length (ids t)] v False (\<lambda>e r (w, out). (w, out @ [r_v (rows w ! r)])) (w, []) =
    Some (w, map (\<lambda>i. the (Get w (q_key v) (entity_at w i)))
      (filter (\<lambda>i. matches v w (entity_at w i)) (ids t)))"
    using read_loop_all [OF assms, of "[0..<length (ids t)]" "[]"] by (simp add: map_nth)
  moreover have "(\<lambda>e r (w, a). (\<lambda>_ value (w, out). (w, out @ [value])) e (r_v (rows w ! r)) (w, a)) =
      (\<lambda>e r (w :: 'a world, out). (w, out @ [r_v (rows w ! r)]))"
    by (simp add: fun_eq_iff)
  ultimately show ?thesis
    using c t by (simp add: Query_All_def Query_Read_def query_each_def Len_def split_def)
qed

text \<open>Every live entity with a row is listed once.\<close>

lemma ids_entities:
  assumes ok: "world_ok w" and t: "cols w k = Some t"
  shows "distinct (ids t)" and "Get w k e \<noteq> None \<longleftrightarrow> (\<exists>i \<in> set (ids t). e = entity_at w i)"
proof -
  show "distinct (ids t)" using ok t by (auto simp: world_ok_def cols_ok_def)
  show "Get w k e \<noteq> None \<longleftrightarrow> (\<exists>i \<in> set (ids t). e = entity_at w i)"
  proof
    assume "Get w k e \<noteq> None"
    then obtain r where r: "lookup w k e = Some r" by (auto simp: Get_def)
    note l = lookup_Some [OF ok r]
    have "e_index e \<in> set (ids t)" using ok t l(2) by (auto simp: world_ok_def cols_ok_def)
    moreover have "e = entity_at w (e_index e)"
      using l(1) ok by (simp add: entity_at_def Alive_iff world_ok_def entity_eq_iff)
    ultimately show "\<exists>i \<in> set (ids t). e = entity_at w i" by blast
  next
    assume "\<exists>i \<in> set (ids t). e = entity_at w i"
    then show "Get w k e \<noteq> None" using table_entry [OF ok t] by (auto simp: Get_def)
  qed
qed


section \<open>Edits while a column is walked\<close>

lemma each_step:
  assumes ok: "world_ok w" and t: "cols w k = Some t" and j: "j < length (ids t)"
  obtains r where "lookup w k (entity_at w (ids t ! j)) = Some r"
    "each_loop (j # js) k fn w =
       (let w' = fn (entity_at w (ids t ! j)) r w
        in each_loop js k fn (if \<not> same (r_v (rows w ! r)) (r_v (rows w' ! r)) then mark_row r w' else w'))"
proof -
  have "ids t ! j \<in> set (ids t)" using j by simp
  note e = table_entry [OF ok t this]
  then obtain r where r: "sparse t ! (ids t ! j) = Some r" by auto
  have en: "\<lparr>e_index = ids t ! j, e_gen = r_gen (rows w ! r)\<rparr> = entity_at w (ids t ! j)"
    using e r by (simp add: entity_at_def)
  have l: "lookup w k (entity_at w (ids t ! j)) = Some r" using e r by simp
  show thesis
    by (rule that [OF l]) (use e r en t j lookup_Some(1) [OF ok l] in \<open>simp add: Let_def\<close>)
qed

text \<open>In a system the column does not change under the walk: every entity is despawned at the flush.\<close>

lemma each_loop_despawn:
  assumes ok: "world_ok w" and t: "cols w k = Some t" and sys: "inSystem w"
    and js: "\<And>j. j \<in> set js \<Longrightarrow> j < length (ids t)"
  shows "each_loop js k (\<lambda>e _. Despawn code e) w =
    Some (w\<lparr>queue := queue w @ map (\<lambda>j. DespawnNow (entity_at w (ids t ! j))) js\<rparr>)"
  using ok t sys js
proof (induction js arbitrary: w)
  case (Cons j js)
  let ?w = "w\<lparr>queue := queue w @ [DespawnNow (entity_at w (ids t ! j))]\<rparr>"
  have "j < length (ids t)" using Cons.prems(4) by simp
  then obtain r where r: "each_loop (j # js) k (\<lambda>e _. Despawn code e) w =
      (let w' = Despawn code (entity_at w (ids t ! j)) w
       in each_loop js k (\<lambda>e _. Despawn code e) (if \<not> same (r_v (rows w ! r)) (r_v (rows w' ! r)) then mark_row r w' else w'))"
    using each_step [OF Cons.prems(1,2)] by metis
  have "each_loop js k (\<lambda>e _. Despawn code e) ?w =
    Some (?w\<lparr>queue := queue ?w @ map (\<lambda>j. DespawnNow (entity_at ?w (ids t ! j))) js\<rparr>)"
    by (rule Cons.IH) (use Cons.prems in \<open>simp_all add: queue_update_ok\<close>)
  moreover have "Despawn code e w = w\<lparr>queue := queue w @ [DespawnNow e]\<rparr>" for e
    using Cons.prems(3) by (simp add: Despawn_def Defer_def)
  ultimately show ?case unfolding r Let_def by (simp add: same_def entity_at_def)
qed simp

lemma each_despawn:
  assumes "world_ok w" and "cols w k = Some t" and "inSystem w"
  shows "Each k (\<lambda>e _. Despawn code e) w =
    Some (w\<lparr>queue := queue w @ map (\<lambda>i. DespawnNow (entity_at w i)) (ids t)\<rparr>)"
proof -
  have "map (\<lambda>j. DespawnNow (entity_at w (ids t ! j))) [0..<length (ids t)] = map (\<lambda>i. DespawnNow (entity_at w i)) (ids t)"
    by (rule nth_equalityI) simp_all
  moreover have "each_loop [0..<length (ids t)] k (\<lambda>e _. Despawn code e) w =
    Some (w\<lparr>queue := queue w @ map (\<lambda>j. DespawnNow (entity_at w (ids t ! j))) [0..<length (ids t)]\<rparr>)"
    by (rule each_loop_despawn [OF assms]) simp
  ultimately show ?thesis using assms(2) by (simp add: Each_def Len_def)
qed

lemma length_swap_remove: "i \<in> set xs \<Longrightarrow> length (swap_remove i xs) = length xs - 1"
  by (induction xs) (auto simp: neq_Nil_conv)

lemma Remove_now:
  assumes ok: "world_ok w" and t: "cols w k = Some t" and l: "lookup w k e = Some r" and out: "\<not> inSystem w" "\<not> flushing w"
  shows "world_ok (Remove code k e w) \<and> rows (Remove code k e w) = rows w \<and>
    \<not> inSystem (Remove code k e w) \<and> \<not> flushing (Remove code k e w) \<and>
    (\<exists>t'. cols (Remove code k e w) k = Some t' \<and> length (ids t') = length (ids t) - 1)"
proof -
  let ?w = "drop_row k e (r_stamp (rows w ! r)) True w"
  note s = lookup_Some [OF ok l]
  have rm: "Remove code k e w = ?w" using l out by (simp add: Remove_def Defer_def clearStamp_def)
  have d: "drops w k e (r_stamp (rows w ! r)) True" using s by (simp add: drops_def)
  have "dom (cols ?w) = dom (cols w)" by (rule drop_row_dom)
  then obtain t' where t': "cols ?w k = Some t'" using t by blast
  then have "ids t' = swap_remove (e_index e) (ids t)" using drop_row_table [OF t'] d t by auto
  moreover have "e_index e \<in> set (ids t)" using s ok t by (auto simp: world_ok_def cols_ok_def)
  ultimately show ?thesis using rm t' drop_row_ok [OF ok] out by (simp add: length_swap_remove)
qed

text \<open>
  Outside a system \<open>Remove\<close> acts at once; the walk then reads past the shorter list. With two
  rows or more the index is out of range before the loop ends.
\<close>

lemma each_loop_remove:
  assumes "world_ok w" and "cols w k = Some t" and "\<not> inSystem w" "\<not> flushing w"
    and "length (ids t) + m = n" and "m < n" and "2 \<le> n"
  shows "each_loop [m..<n] k (\<lambda>e _. Remove code k e) w = None"
  using assms
proof (induction "n - m" arbitrary: m w t)
  case (Suc d)
  have up: "[m..<n] = m # [Suc m..<n]" using Suc.prems(6) by (simp add: upt_conv_Cons)
  show ?case
  proof (cases "m < length (ids t)")
    case True
    let ?w = "Remove code k (entity_at w (ids t ! m)) w"
    obtain r where r: "lookup w k (entity_at w (ids t ! m)) = Some r"
      "each_loop (m # [Suc m..<n]) k (\<lambda>e _. Remove code k e) w =
        (let w' = ?w in each_loop [Suc m..<n] k (\<lambda>e _. Remove code k e)
           (if \<not> same (r_v (rows w ! r)) (r_v (rows w' ! r)) then mark_row r w' else w'))"
      using each_step [OF Suc.prems(1,2) True] by metis
    note rm = Remove_now [OF Suc.prems(1,2) r(1) Suc.prems(3,4), of code]
    then obtain t' where t': "cols ?w k = Some t'" "length (ids t') = length (ids t) - 1" by blast
    have "Suc m < n" using True Suc.prems(5,7) by linarith
    then have "each_loop [Suc m..<n] k (\<lambda>e _. Remove code k e) ?w = None"
      using Suc.hyps(1) [of "Suc m" ?w t'] Suc.hyps(2) Suc.prems(5,7) True rm t' by auto
    then show ?thesis using r(2) rm up by (simp add: same_def)
  next
    case False
    then show ?thesis using up Suc.prems(2) by simp
  qed
qed simp

lemma each_remove_outside:
  assumes "world_ok w" and "cols w k = Some t" and "\<not> inSystem w" and "\<not> flushing w" and "2 \<le> length (ids t)"
  shows "Each k (\<lambda>e _. Remove code k e) w = None"
proof -
  have "each_loop [0..<length (ids t)] k (\<lambda>e _. Remove code k e) w = None"
    by (rule each_loop_remove [OF assms(1-4)]) (use assms(5) in linarith)+
  then show ?thesis using assms(2) by (simp add: Each_def Len_def)
qed

end
