(* ===== verification/WorldReach.thy ===== *)
theory WorldReach
  imports WorldSim WorldQuery
begin

text \<open>
  The states a program can bring a world of \<open>x/ui/world\<close> into with the exported operations, as
  a reachability relation, and the store invariant on all of them.
\<close>

text \<open>
  One rule per operation that changes the world. \<open>poked\<close> is a write of the caller through a
  pointer it got from \<open>Mut\<close> or \<open>Each\<close>; \<open>enter\<close> and \<open>leave\<close> are what \<open>Sim.run\<close> does around a
  system.
\<close>

inductive world_reach :: "(nat \<Rightarrow> 'v world \<Rightarrow> 'v world) \<Rightarrow> 'v world \<Rightarrow> bool" for code where
  start: "world_reach code newWorld"
| spawn: "world_reach code w \<Longrightarrow> Spawn w = (e, w') \<Longrightarrow> world_reach code w'"
| col: "world_reach code w \<Longrightarrow> world_reach code (Column k w)"
| ins: "world_reach code w \<Longrightarrow> world_reach code (Insert k e v w)"
| mut: "world_reach code w \<Longrightarrow> Mut k e w = (r, w') \<Longrightarrow> world_reach code w'"
| poked: "world_reach code w \<Longrightarrow> r < length (rows w) \<Longrightarrow> world_reach code (poke r v w)"
| changed: "world_reach code w \<Longrightarrow> Changed k e w = (b, w') \<Longrightarrow> world_reach code w'"
| remove: "world_reach code w \<Longrightarrow> world_reach code (Remove code k e w)"
| despawn: "world_reach code w \<Longrightarrow> world_reach code (Despawn code e w)"
| later: "world_reach code w \<Longrightarrow> world_reach code (Defer code (UserFn n) w)"
| flushed: "world_reach code w \<Longrightarrow> flush code w = Some w' \<Longrightarrow> world_reach code w'"
| put: "world_reach code w \<Longrightarrow> world_reach code (Put k v w)"
| res_mut: "world_reach code w \<Longrightarrow> Res_Mut k w = (b, w') \<Longrightarrow> world_reach code w'"
| res_write: "world_reach code w \<Longrightarrow> world_reach code (poke_cell k v w)"
| written: "world_reach code w \<Longrightarrow> Written k w = (b, w') \<Longrightarrow> world_reach code w'"
| send: "world_reach code w \<Longrightarrow> world_reach code (Send k v w)"
| receive: "world_reach code w \<Longrightarrow> Messages k w = (out, w') \<Longrightarrow> world_reach code w'"
| enter: "world_reach code w \<Longrightarrow> world_reach code (w\<lparr>inSystem := True, reader := rd, sysLast := n\<rparr>)"
| leave: "world_reach code w \<Longrightarrow>
    world_reach code ((settle w)\<lparr>clock := clock w + 1, inSystem := False, reader := outsideReader\<rparr>)"
| begin_frame: "world_reach code w \<Longrightarrow> world_reach code (roll (begin_world w))"

lemma watch_ok:
  assumes "world_ok w" and "\<And>r b. f = WatchRow r b \<Longrightarrow> r < length (rows w)"
  shows "world_ok (watch f w)"
proof -
  have "same_store w (watch f w)" by (simp add: same_store_def watch_def)
  then show ?thesis
    by (rule same_store_ok) (use assms in \<open>auto simp: watches_ok_def watch_def world_ok_def\<close>)
qed

lemma Mut_ok:
  assumes "world_ok w" and "Mut k e w = (r, w')"
  shows "world_ok w'"
proof (cases "lookup w k e")
  case (Some x)
  then have "w' = watch (WatchRow x (r_v (rows w ! x))) w" using assms(2) by (simp add: Mut_def)
  then show ?thesis using watch_ok [OF assms(1)] lookup_Some(3) [OF assms(1) Some] by auto
qed (use assms in \<open>simp add: Mut_def\<close>)

lemma poke_ok: "world_ok w \<Longrightarrow> world_ok (poke r v w)"
proof -
  assume ok: "world_ok w"
  have s: "slots (poke r v w) = slots w" "free (poke r v w) = free w" "clean (poke r v w) = clean w"
    "cols (poke r v w) = cols w" "watches (poke r v w) = watches w" "length (rows (poke r v w)) = length (rows w)"
    "slot_row (poke r v w) = slot_row w" by (simp_all add: poke_def slot_row_def fun_eq_iff)
  have g: "r_gen (rows (poke r v w) ! i) = r_gen (rows w ! i)" if "i < length (rows w)" for i
    using that by (simp add: poke_def nth_update_if)
  have "rows_ok (poke r v w)" unfolding rows_ok_def
  proof (intro allI impI)
    fix k i x assume "slot_row (poke r v w) k i = Some x"
    then have x: "slot_row w k i = Some x" by (simp add: s)
    then have "x < length (rows w) \<and> i < length (slots w) \<and> s_alive (slots w ! i) \<and>
      r_gen (rows w ! x) = s_gen (slots w ! i) \<and> (\<forall>k' i'. slot_row w k' i' = Some x \<longrightarrow> k' = k \<and> i' = i)"
      using ok by (simp add: world_ok_def rows_ok_def)
    then show "x < length (rows (poke r v w)) \<and> i < length (slots (poke r v w)) \<and> s_alive (slots (poke r v w) ! i) \<and>
      r_gen (rows (poke r v w) ! x) = s_gen (slots (poke r v w) ! i) \<and>
      (\<forall>k' i'. slot_row (poke r v w) k' i' = Some x \<longrightarrow> k' = k \<and> i' = i)" by (simp add: s g)
  qed
  then show ?thesis using ok by (simp add: world_ok_def slots_ok_def cols_ok_def watches_ok_def s)
qed

lemma Changed_ok: "world_ok w \<Longrightarrow> Changed k e w = (b, w') \<Longrightarrow> world_ok w'"
  by (auto simp: Changed_def changed_row_def Let_def evalWatches_ok split: option.splits)

lemma Defer_ok:
  assumes "\<And>n w. world_ok w \<Longrightarrow> world_ok (code n w)" and "world_ok w"
  shows "world_ok (Defer code d w)"
  using exec_ok [OF assms] assms(2) by (simp add: Defer_def queue_update_ok)

lemma Res_Mut_ok: "world_ok w \<Longrightarrow> Res_Mut k w = (b, w') \<Longrightarrow> world_ok w'"
  by (auto simp: Res_Mut_def intro!: watch_ok split: option.splits)

lemma Written_ok: "world_ok w \<Longrightarrow> Written k w = (b, w') \<Longrightarrow> world_ok w'"
  by (auto simp: Written_def changed_cell_def Let_def evalWatches_ok split: option.splits)

lemma Send_ok: "world_ok w \<Longrightarrow> world_ok (Send k v w)"
  by (simp add: Send_def Let_def inbox_def queue_update_ok split: option.splits)

lemma Messages_ok: "world_ok w \<Longrightarrow> Messages k w = (out, w') \<Longrightarrow> world_ok w'"
  by (auto simp: Messages_def Let_def queue_update_ok split: option.splits prod.splits)

lemma begin_world_ok: "world_ok w \<Longrightarrow> world_ok (begin_world w)"
  by (simp add: begin_world_def queue_update_ok settle_ok)

lemma world_reach_ok:
  assumes "world_reach code w" and code: "\<And>n w. world_ok w \<Longrightarrow> world_ok (code n w)"
  shows "world_ok w"
  using assms(1)
proof (induction rule: world_reach.induct)
  case (remove w k e)
  then show ?case using Defer_ok [of code] code by (simp add: Remove_def split: option.split)
next
  case (despawn w e)
  then show ?case using Defer_ok [of code] code by (simp add: Despawn_def)
next
  case (later w n)
  then show ?case using Defer_ok [of code] code by simp
next
  case (flushed w w')
  show ?case by (rule flush_ok(1) [OF _ flushed(3) flushed(2)]) (rule code)
qed (auto simp: queue_update_ok poke_cell_def intro: inv_intros Mut_ok poke_ok Changed_ok Res_Mut_ok Written_ok Send_ok Messages_ok begin_world_ok)

inductive_cases world_reach_new: "world_reach code newWorld"

text \<open>So a live entity never shares its slot, and a value is only ever read through a live handle.\<close>

lemma world_reach_handles:
  assumes "world_reach code w" and code: "\<And>n w. world_ok w \<Longrightarrow> world_ok (code n w)"
  shows "Alive w e \<Longrightarrow> Alive w e' \<Longrightarrow> e_index e = e_index e' \<Longrightarrow> e = e'"
    and "Get w k e \<noteq> None \<Longrightarrow> Alive w e"
    and "lookup w k e = Some r \<Longrightarrow> lookup w k' e' = Some r \<Longrightarrow> k' = k \<and> e' = e"
proof -
  note ok = world_reach_ok [OF assms]
  show al: "Alive w e \<Longrightarrow> Alive w e' \<Longrightarrow> e_index e = e_index e' \<Longrightarrow> e = e'" for e e'
    using Alive_inj [OF ok, of e' e] by blast
  show "Get w k e \<noteq> None \<Longrightarrow> Alive w e" by (rule world_store.get_alive [OF ok])
  show "k' = k \<and> e' = e" if l: "lookup w k e = Some r" "lookup w k' e' = Some r"
  proof -
    note a = lookup_Some [OF ok l(1)] and b = lookup_Some [OF ok l(2)]
    have "k' = k \<and> e_index e' = e_index e" using a(2) b(2) ok by (auto simp: world_ok_def rows_ok_def)
    then show ?thesis using al [OF b(1) a(1)] by blast
  qed
qed

end
