(* ===== verification/TaskGroup.thy ===== *)
theory TaskGroup
  imports LewPrelude
begin

text \<open>
  The scheduler of \<open>x/taskgroup\<close>: the tree of tasks with its live list (\<open>tree.go\<close>), dependency
  counting, failure and isolation (\<open>exec.go\<close>), the ready queues (\<open>ready.go\<close>) and the session's
  counters (\<open>taskgroup.go\<close>).

  A task is its number in \<open>slots\<close>; number 0 is no task. Everything the code does under the
  session's lock is one function on the session. \<open>go s.run(id)\<close> puts \<open>id\<close> into \<open>tg_spawned\<close>. Of a
  context only its cause is kept: the session's is \<open>tg_cause\<close>; that of a task is asked of the
  parameter \<open>cause\<close>. Recursion over the links has fuel, and \<^const>\<open>None\<close> means it ran out.
\<close>

section \<open>State\<close>

datatype pool_kind = Control | IO | CPU | Internet

datatype tstate = Pending | Running | Done | Failed

datatype 'e tg_error =
  User 'e | Canceled | ErrNilFn | ErrUnknownDependency nat | ErrDependencyFailed string "'e tg_error option" | ErrDepCycle

record 'e task =
  t_parent :: nat
  t_firstChild :: nat
  t_lastChild :: nat
  t_prevSib :: nat
  t_nextSib :: nat
  t_firstLive :: nat
  t_lastLive :: nat
  t_prevLive :: nat
  t_nextLive :: nat
  t_name :: string
  t_pool :: pool_kind
  t_isolate :: bool
  t_state :: tstate
  t_current :: int
  t_total :: int
  t_message :: "string option"
  t_liveN :: int
  t_remainingDeps :: nat
  t_waiters :: "nat list"
  t_fn :: "nat option"
  t_err :: "'e tg_error option"
  t_cancelled :: "'e tg_error option"

record readyQ =
  q_ids :: "nat list"
  q_closed :: bool

record 'e session =
  tg_slots :: "'e task list"
  tg_root :: nat
  tg_latest :: "string \<rightharpoonup> nat"
  tg_ready :: "pool_kind \<Rightarrow> readyQ option"
  tg_spawned :: "nat list"
  tg_tasks :: int
  tg_err :: "'e tg_error option"
  tg_cause :: "'e tg_error option"
  tg_hard :: bool

definition empty_task :: "'e task" where
  "empty_task =
     \<lparr>t_parent = 0, t_firstChild = 0, t_lastChild = 0, t_prevSib = 0, t_nextSib = 0,
      t_firstLive = 0, t_lastLive = 0, t_prevLive = 0, t_nextLive = 0,
      t_name = [], t_pool = Control, t_isolate = False, t_state = Pending,
      t_current = 0, t_total = -1, t_message = None, t_liveN = 0,
      t_remainingDeps = 0, t_waiters = [], t_fn = None, t_err = None, t_cancelled = None\<rparr>"

abbreviation task_of :: "'e session \<Rightarrow> nat \<Rightarrow> 'e task" where
  "task_of s i \<equiv> tg_slots s ! i"

definition upd :: "nat \<Rightarrow> ('e task \<Rightarrow> 'e task) \<Rightarrow> 'e session \<Rightarrow> 'e session" where
  "upd i f s = s\<lparr>tg_slots := (tg_slots s)[i := f (tg_slots s ! i)]\<rparr>"

definition finished :: "'e task \<Rightarrow> bool" where
  "finished t \<longleftrightarrow> t_state t = Done \<or> t_state t = Failed"

section \<open>Ready queues\<close>

definition newReadyQ :: readyQ where
  "newReadyQ = \<lparr>q_ids = [], q_closed = False\<rparr>"

definition q_push :: "nat \<Rightarrow> readyQ \<Rightarrow> readyQ" where
  "q_push i q = (if q_closed q then q else q\<lparr>q_ids := q_ids q @ [i]\<rparr>)"

text \<open>\<open>pop\<close> when it does not wait: \<^const>\<open>None\<close> is the end of the worker.\<close>

definition q_pop :: "readyQ \<Rightarrow> (nat \<times> readyQ) option" where
  "q_pop q = (case q_ids q of [] \<Rightarrow> None | i # is \<Rightarrow> Some (i, q\<lparr>q_ids := is\<rparr>))"

definition q_waits :: "bool \<Rightarrow> readyQ \<Rightarrow> bool" where
  "q_waits ctxErr q \<longleftrightarrow> q_ids q = [] \<and> \<not> q_closed q \<and> \<not> ctxErr"

definition q_close :: "readyQ \<Rightarrow> readyQ" where
  "q_close q = q\<lparr>q_closed := True\<rparr>"

definition Session_New :: "'e session" where
  "Session_New =
     \<lparr>tg_slots = [empty_task, empty_task], tg_root = 1, tg_latest = Map.empty,
      tg_ready = (\<lambda>k. if k = Control then None else Some newReadyQ),
      tg_spawned = [], tg_tasks = 0, tg_err = None, tg_cause = None, tg_hard = False\<rparr>"

section \<open>The tree\<close>

definition linkChild :: "nat \<Rightarrow> nat \<Rightarrow> 'e session \<Rightarrow> 'e session" where
  "linkChild parent child s =
     (let s1 = upd child (\<lambda>c. c\<lparr>t_parent := parent, t_prevSib := t_lastChild (task_of s parent)\<rparr>) s;
          s2 = (if t_lastChild (task_of s1 parent) \<noteq> 0
                then upd (t_lastChild (task_of s1 parent)) (\<lambda>t. t\<lparr>t_nextSib := child\<rparr>) s1
                else upd parent (\<lambda>p. p\<lparr>t_firstChild := child\<rparr>) s1)
      in upd parent (\<lambda>p. p\<lparr>t_lastChild := child\<rparr>) s2)"

definition linkLive :: "nat \<Rightarrow> nat \<Rightarrow> 'e session \<Rightarrow> 'e session" where
  "linkLive parent child s =
     (let s1 = upd child (\<lambda>c. c\<lparr>t_prevLive := t_lastLive (task_of s parent)\<rparr>) s;
          s2 = (if t_lastLive (task_of s1 parent) \<noteq> 0
                then upd (t_lastLive (task_of s1 parent)) (\<lambda>t. t\<lparr>t_nextLive := child\<rparr>) s1
                else upd parent (\<lambda>p. p\<lparr>t_firstLive := child\<rparr>) s1)
      in upd parent (\<lambda>p. p\<lparr>t_lastLive := child, t_liveN := t_liveN p + 1\<rparr>) s2)"

definition unlinkLive :: "nat \<Rightarrow> 'e session \<Rightarrow> 'e session" where
  "unlinkLive child s =
     (let c = task_of s child; parent = t_parent c in
      if parent = 0 then s
      else
        (let s1 = (if t_prevLive c \<noteq> 0 then upd (t_prevLive c) (\<lambda>t. t\<lparr>t_nextLive := t_nextLive c\<rparr>) s
                   else upd parent (\<lambda>p. p\<lparr>t_firstLive := t_nextLive c\<rparr>) s);
             s2 = (if t_nextLive c \<noteq> 0 then upd (t_nextLive c) (\<lambda>t. t\<lparr>t_prevLive := t_prevLive c\<rparr>) s1
                   else upd parent (\<lambda>p. p\<lparr>t_lastLive := t_prevLive c\<rparr>) s1);
             s3 = upd child (\<lambda>c. c\<lparr>t_prevLive := 0, t_nextLive := 0\<rparr>) s2
         in upd parent (\<lambda>p. p\<lparr>t_liveN := t_liveN p - 1\<rparr>) s3))"

definition moveLiveFront :: "nat \<Rightarrow> 'e session \<Rightarrow> 'e session" where
  "moveLiveFront child s =
     (let parent = t_parent (task_of s child) in
      if parent = 0 then s
      else if t_firstLive (task_of s parent) = child then s
      else
        (let s1 = unlinkLive child s;
             first = t_firstLive (task_of s1 parent);
             s2 = upd child (\<lambda>c. c\<lparr>t_nextLive := first, t_prevLive := 0\<rparr>) s1;
             s3 = (if first \<noteq> 0 then upd first (\<lambda>t. t\<lparr>t_prevLive := child\<rparr>) s2
                   else upd parent (\<lambda>p. p\<lparr>t_lastLive := child\<rparr>) s2)
         in upd parent (\<lambda>p. p\<lparr>t_firstLive := child, t_liveN := t_liveN p + 1\<rparr>) s3))"

definition alloc :: "nat \<Rightarrow> string \<Rightarrow> pool_kind \<Rightarrow> nat option \<Rightarrow> bool \<Rightarrow> 'e session \<Rightarrow> nat \<times> 'e session" where
  "alloc parent name pl fn isolate s =
     (let i = length (tg_slots s);
          t = empty_task\<lparr>t_name := name, t_pool := pl, t_fn := fn, t_isolate := isolate\<rparr>;
          s1 = linkLive parent i (linkChild parent i (s\<lparr>tg_slots := tg_slots s @ [t]\<rparr>))
      in (i, s1\<lparr>tg_latest := (if name \<noteq> [] then (tg_latest s1)(name \<mapsto> i) else tg_latest s1),
                tg_tasks := tg_tasks s1 + 1\<rparr>))"

section \<open>Finishing a task\<close>

definition enqueueLocked :: "nat \<Rightarrow> 'e session \<Rightarrow> 'e session" where
  "enqueueLocked i s =
     (let pl = t_pool (task_of s i) in
      if pl = Control then s\<lparr>tg_spawned := tg_spawned s @ [i]\<rparr>
      else (case tg_ready s pl of
              None \<Rightarrow> s
            | Some q \<Rightarrow> s\<lparr>tg_ready := (tg_ready s)(pl \<mapsto> q_push i q)\<rparr>))"

fun pruneIdleAncestors :: "nat \<Rightarrow> nat \<Rightarrow> 'e session \<Rightarrow> 'e session option" where
  "pruneIdleAncestors fuel i s =
     (if i = 0 \<or> i = tg_root s then Some s
      else if \<not> finished (task_of s i) then Some s
      else if t_liveN (task_of s i) > 0 then Some s
      else (case fuel of
              0 \<Rightarrow> None
            | Suc f \<Rightarrow> pruneIdleAncestors f (t_parent (task_of s i)) (unlinkLive i s)))"

fun isolate_above :: "nat \<Rightarrow> nat \<Rightarrow> 'e session \<Rightarrow> nat option" where
  "isolate_above fuel p s =
     (if p = 0 \<or> p = tg_root s then Some 0
      else if t_isolate (task_of s p) then Some p
      else (case fuel of 0 \<Rightarrow> None | Suc f \<Rightarrow> isolate_above f (t_parent (task_of s p)) s))"

definition isolateOf :: "nat \<Rightarrow> nat \<Rightarrow> 'e session \<Rightarrow> nat option" where
  "isolateOf fuel i s =
     (case isolate_above fuel (t_parent (task_of s i)) s of
        None \<Rightarrow> None
      | Some p \<Rightarrow> if p \<noteq> 0 then Some p else if t_isolate (task_of s i) then Some i else Some 0)"

declare pruneIdleAncestors.simps [simp del] isolate_above.simps [simp del]

text \<open>The \<open>CancelCauseFunc\<close> of the session's context: the first cause stays; a nil cause is \<open>context.Canceled\<close>.\<close>

definition set_cause :: "'e tg_error option \<Rightarrow> 'e session \<Rightarrow> 'e session" where
  "set_cause err s =
     s\<lparr>tg_cause := (case tg_cause s of
                     Some c \<Rightarrow> Some c
                   | None \<Rightarrow> Some (case err of None \<Rightarrow> Canceled | Some e \<Rightarrow> e))\<rparr>"

text \<open>
  \<open>finishLocked\<close>, \<open>failSubtree\<close> and \<open>failOutsideIsolates\<close> call each other. Each is written over a
  parameter \<open>rc\<close> that runs a call, and \<open>tg_run\<close> ties the knot with one unit of fuel per level.
  The loops over the children are calls too, at the child they have reached.
\<close>

datatype 'e tcall =
  Finish nat "'e tg_error option" | FailSubtree nat | FailChildren nat | FailOutside nat | FailOutsideChildren nat

type_synonym 'e runner = "'e tcall \<Rightarrow> 'e session \<Rightarrow> 'e session option"

definition mark_finished :: "nat \<Rightarrow> 'e tg_error option \<Rightarrow> 'e session \<Rightarrow> 'e session" where
  "mark_finished i err s =
     upd i (\<lambda>t. case err of None \<Rightarrow> t\<lparr>t_state := Done\<rparr> | Some e \<Rightarrow> t\<lparr>t_err := Some e, t_state := Failed\<rparr>) s"

definition leave_live :: "nat \<Rightarrow> 'e session \<Rightarrow> 'e session option" where
  "leave_live i s =
     (if t_parent (task_of s i) \<noteq> 0 \<and> t_liveN (task_of s i) = 0
      then pruneIdleAncestors (length (tg_slots s)) (t_parent (task_of s i)) (unlinkLive i s)
      else Some s)"

definition recordError :: "'e runner \<Rightarrow> 'e tg_error option \<Rightarrow> 'e session \<Rightarrow> 'e session option" where
  "recordError rc err s =
     (if tg_err s \<noteq> None then Some s
      else rc (FailOutside (tg_root s)) (set_cause err (s\<lparr>tg_err := err\<rparr>)))"

text \<open>The failure reaches the isolating ancestor: its error and its own context's cause are set once.\<close>

definition blame :: "nat \<Rightarrow> 'e tg_error option \<Rightarrow> 'e session \<Rightarrow> 'e session" where
  "blame anc err s =
     upd anc (\<lambda>a. a\<lparr>t_err := (case t_err a of None \<Rightarrow> err | e \<Rightarrow> e),
                    t_cancelled := (case t_cancelled a of None \<Rightarrow> err | e \<Rightarrow> e)\<rparr>) s"

definition spread_error :: "'e runner \<Rightarrow> nat \<Rightarrow> 'e tg_error option \<Rightarrow> 'e session \<Rightarrow> 'e session option" where
  "spread_error rc i err s =
     (if err = None \<or> t_isolate (task_of s i) then Some s
      else Option.bind (isolateOf (length (tg_slots s)) i s) (\<lambda>anc.
        if anc \<noteq> 0
        then rc (FailSubtree anc) (blame anc err s)
        else if tg_err s = None then recordError rc err s
        else Some s))"

definition dec_deps :: "nat \<Rightarrow> 'e session \<Rightarrow> 'e session" where
  "dec_deps w s = upd w (\<lambda>d. d\<lparr>t_remainingDeps := t_remainingDeps d - 1\<rparr>) s"

fun finish_waiters :: "'e runner \<Rightarrow> string \<Rightarrow> 'e tg_error option \<Rightarrow> nat list \<Rightarrow> 'e session \<Rightarrow> 'e session option" where
  "finish_waiters rc name err [] s = Some s"
| "finish_waiters rc name err (w # ws) s =
     (let s1 = dec_deps w s in
      if err \<noteq> None
      then Option.bind (rc (Finish w (Some (ErrDependencyFailed name err))) s1) (finish_waiters rc name err ws)
      else finish_waiters rc name err ws
             (if t_remainingDeps (task_of s1 w) = 0 \<and> t_state (task_of s1 w) = Pending
              then enqueueLocked w s1 else s1))"

definition account :: "nat \<Rightarrow> 'e session \<Rightarrow> 'e session" where
  "account i s =
     (let s1 = upd i (\<lambda>t. t\<lparr>t_waiters := []\<rparr>) s; name = t_name (task_of s1 i)
      in s1\<lparr>tg_latest := (if name \<noteq> [] \<and> tg_latest s1 name = Some i then (tg_latest s1)(name := None) else tg_latest s1),
            tg_tasks := tg_tasks s1 - 1\<rparr>)"

definition finishLocked :: "'e runner \<Rightarrow> nat \<Rightarrow> 'e tg_error option \<Rightarrow> 'e session \<Rightarrow> 'e session option" where
  "finishLocked rc i err s =
     (if finished (task_of s i) then Some s
      else
        Option.bind (leave_live i (mark_finished i err s)) (\<lambda>s2.
        Option.bind (spread_error rc i err s2) (\<lambda>s3.
        Option.bind (finish_waiters rc (t_name (task_of s3 i)) err (t_waiters (task_of s3 i)) s3) (\<lambda>s4.
          Some (account i s4)))))"

definition subtree_error :: "('e session \<Rightarrow> nat \<Rightarrow> 'e tg_error option) \<Rightarrow> nat \<Rightarrow> 'e session \<Rightarrow> 'e tg_error option" where
  "subtree_error cause i s =
     (case t_err (task_of s i) of
        Some e \<Rightarrow> Some e
      | None \<Rightarrow>
          (let p = t_parent (task_of s i) in
           if p \<noteq> 0 \<and> t_err (task_of s p) \<noteq> None then t_err (task_of s p) else cause s i))"

definition failSubtree :: "('e session \<Rightarrow> nat \<Rightarrow> 'e tg_error option) \<Rightarrow> 'e runner \<Rightarrow> nat \<Rightarrow> 'e session \<Rightarrow> 'e session option" where
  "failSubtree cause rc i s =
     Option.bind (rc (FailChildren (t_firstChild (task_of s i))) s) (\<lambda>s1.
       if i \<noteq> tg_root s1 \<and> t_state (task_of s1 i) = Pending
       then rc (Finish i (subtree_error cause i s1)) s1
       else Some s1)"

definition failOutsideIsolates :: "'e runner \<Rightarrow> nat \<Rightarrow> 'e session \<Rightarrow> 'e session option" where
  "failOutsideIsolates rc i s =
     Option.bind (rc (FailOutsideChildren (t_firstChild (task_of s i))) s) (\<lambda>s1.
       if i \<noteq> tg_root s1 \<and> t_state (task_of s1 i) = Pending
       then rc (Finish i (tg_cause s1)) s1
       else Some s1)"

definition fail_children :: "'e runner \<Rightarrow> nat \<Rightarrow> 'e session \<Rightarrow> 'e session option" where
  "fail_children rc c s =
     (if c = 0 then Some s
      else (let nxt = t_nextSib (task_of s c) in Option.bind (rc (FailSubtree c) s) (rc (FailChildren nxt))))"

definition fail_outside_children :: "'e runner \<Rightarrow> nat \<Rightarrow> 'e session \<Rightarrow> 'e session option" where
  "fail_outside_children rc c s =
     (if c = 0 then Some s
      else (let nxt = t_nextSib (task_of s c) in
            if t_isolate (task_of s c) then rc (FailOutsideChildren nxt) s
            else Option.bind (rc (FailOutside c) s) (rc (FailOutsideChildren nxt))))"

fun tg_call :: "('e session \<Rightarrow> nat \<Rightarrow> 'e tg_error option) \<Rightarrow> 'e runner \<Rightarrow> 'e runner" where
  "tg_call cause rc (Finish i err) = finishLocked rc i err"
| "tg_call cause rc (FailSubtree i) = failSubtree cause rc i"
| "tg_call cause rc (FailChildren c) = fail_children rc c"
| "tg_call cause rc (FailOutside i) = failOutsideIsolates rc i"
| "tg_call cause rc (FailOutsideChildren c) = fail_outside_children rc c"

primrec tg_run :: "('e session \<Rightarrow> nat \<Rightarrow> 'e tg_error option) \<Rightarrow> nat \<Rightarrow> 'e runner" where
  "tg_run cause 0 = (\<lambda>_ _. None)"
| "tg_run cause (Suc f) = tg_call cause (tg_run cause f)"

text \<open>The depth that is always enough: three levels per link, for each task that can still finish.\<close>

definition tg_fuel :: "'e session \<Rightarrow> nat" where
  "tg_fuel s = (length (tg_slots s) + 1) * (3 * length (tg_slots s) + 4)"

definition finish :: "('e session \<Rightarrow> nat \<Rightarrow> 'e tg_error option) \<Rightarrow> nat \<Rightarrow> 'e tg_error option \<Rightarrow> 'e session \<Rightarrow> 'e session option" where
  "finish cause i err s = tg_run cause (tg_fuel s) (Finish i err) s"

section \<open>Scheduling a task\<close>

text \<open>
  \<open>reaches\<close>: a depth-first walk along the waiters that never enters a task twice; \<open>reach_loop\<close> is
  the loop over the waiters of one task. The result is the answer and the tasks seen.
\<close>

fun reach_loop :: "nat \<Rightarrow> 'e session \<Rightarrow> nat \<Rightarrow> nat list \<Rightarrow> nat list \<Rightarrow> (bool \<times> nat list) option" where
  "reach_loop fuel s to [] seen = Some (False, seen)"
| "reach_loop fuel s to (w # ws) seen =
     (if w = to then Some (True, seen)
      else if w \<in> set seen then reach_loop fuel s to ws seen
      else (case fuel of
              0 \<Rightarrow> None
            | Suc f \<Rightarrow>
                (case reach_loop f s to (t_waiters (task_of s w)) (w # seen) of
                   None \<Rightarrow> None
                 | Some (True, seen') \<Rightarrow> Some (True, seen')
                 | Some (False, seen') \<Rightarrow> reach_loop fuel s to ws seen')))"

definition reaches :: "'e session \<Rightarrow> nat \<Rightarrow> nat \<Rightarrow> bool option" where
  "reaches s from to = map_option fst (reach_loop (length (tg_slots s)) s to (t_waiters (task_of s from)) [from])"

fun pinDeps :: "('e session \<Rightarrow> nat \<Rightarrow> 'e tg_error option) \<Rightarrow> nat \<Rightarrow> nat list \<Rightarrow> 'e session \<Rightarrow> 'e session option" where
  "pinDeps cause i [] s = Some s"
| "pinDeps cause i (d # ds) s =
     (if d = 0 \<or> d \<ge> length (tg_slots s) then finish cause i (Some (ErrUnknownDependency d)) s
      else if t_state (task_of s d) = Failed
      then finish cause i (Some (ErrDependencyFailed (t_name (task_of s d)) (t_err (task_of s d)))) s
      else if t_state (task_of s d) = Done then pinDeps cause i ds s
      else (case (if d = i then Some True else reaches s i d) of
              None \<Rightarrow> None
            | Some True \<Rightarrow> finish cause i (Some ErrDepCycle) s
            | Some False \<Rightarrow>
                pinDeps cause i ds
                  (upd d (\<lambda>t. t\<lparr>t_waiters := t_waiters t @ [i]\<rparr>)
                    (upd i (\<lambda>t. t\<lparr>t_remainingDeps := t_remainingDeps t + 1\<rparr>) s))))"

definition goTask :: "('e session \<Rightarrow> nat \<Rightarrow> 'e tg_error option) \<Rightarrow> nat \<Rightarrow> string \<Rightarrow> pool_kind \<Rightarrow> nat option \<Rightarrow> bool \<Rightarrow> nat list
    \<Rightarrow> 'e session \<Rightarrow> (nat \<times> 'e session) option" where
  "goTask cause caller name pl fn isolate deps s =
     (let parent = (if caller = 0 then tg_root s else caller);
          (i, s1) = alloc parent name pl fn isolate s
      in if fn = None then map_option (\<lambda>s2. (i, s2)) (finish cause i (Some ErrNilFn) s1)
         else map_option (\<lambda>s2. (i, if t_state (task_of s2 i) = Pending \<and> t_remainingDeps (task_of s2 i) = 0
                                   then enqueueLocked i s2 else s2))
                (pinDeps cause i deps s1))"

section \<open>Running a task\<close>

text \<open>
  \<open>run\<close> takes the task by a compare-and-swap, outside the lock; then, under the lock, moves it to
  the front of the live list; and after the function returned finishes it. The function itself
  runs between the last two.
\<close>

definition run_take :: "nat \<Rightarrow> 'e session \<Rightarrow> 'e session option" where
  "run_take i s =
     (if t_state (task_of s i) \<noteq> Pending then None else Some (upd i (\<lambda>t. t\<lparr>t_state := Running\<rparr>) s))"

definition run_front :: "nat \<Rightarrow> 'e session \<Rightarrow> 'e session" where
  "run_front i s = moveLiveFront i s"

definition run_end :: "('e session \<Rightarrow> nat \<Rightarrow> 'e tg_error option) \<Rightarrow> nat \<Rightarrow> 'e tg_error option \<Rightarrow> 'e session \<Rightarrow> 'e session option" where
  "run_end cause i err s = finish cause i err s"

definition Cancel :: "'e tg_error option \<Rightarrow> 'e session \<Rightarrow> 'e session" where
  "Cancel err s = set_cause (Some (case err of None \<Rightarrow> Canceled | Some e \<Rightarrow> e)) (s\<lparr>tg_hard := True\<rparr>)"

text \<open>
  The \<open>AfterFunc\<close> of \<open>New\<close>, when the session's context ended. \<open>is_canceled\<close> is
  \<open>errors.Is(_, context.Canceled)\<close>; its argument \<open>u\<close> is the test for a task's own error.
\<close>

primrec is_canceled :: "('e \<Rightarrow> bool) \<Rightarrow> 'e tg_error \<Rightarrow> bool" where
  "is_canceled u (User e) = u e"
| "is_canceled u Canceled = True"
| "is_canceled u ErrNilFn = False"
| "is_canceled u (ErrUnknownDependency d) = False"
| "is_canceled u (ErrDependencyFailed name err) = (case map_option (is_canceled u) err of None \<Rightarrow> False | Some b \<Rightarrow> b)"
| "is_canceled u ErrDepCycle = False"

definition after_cancel :: "('e session \<Rightarrow> nat \<Rightarrow> 'e tg_error option) \<Rightarrow> ('e \<Rightarrow> bool) \<Rightarrow> 'e session \<Rightarrow> 'e session option" where
  "after_cancel cause u s =
     (if tg_hard s \<or> (case tg_cause s of Some e \<Rightarrow> is_canceled u e | None \<Rightarrow> False)
      then tg_run cause (tg_fuel s + 3 * length (tg_slots s) + 4) (FailSubtree (tg_root s)) s
      else tg_run cause (tg_fuel s + 3 * length (tg_slots s) + 4) (FailOutside (tg_root s)) s)"

text \<open>What \<open>waitTask\<close> and \<open>waitLive\<close> return, and \<^const>\<open>None\<close> while they wait.\<close>

definition waitTask :: "nat \<Rightarrow> 'e session \<Rightarrow> 'e tg_error option option" where
  "waitTask i s = (if finished (task_of s i) then Some (t_err (task_of s i)) else None)"

definition waitLive :: "nat \<Rightarrow> 'e session \<Rightarrow> 'e tg_error option option" where
  "waitLive i s =
     (if t_liveN (task_of s i) > 0 then None
      else if t_err (task_of s i) \<noteq> None then Some (t_err (task_of s i)) else Some (tg_err s))"

definition Wait_returns :: "'e session \<Rightarrow> bool" where
  "Wait_returns s \<longleftrightarrow> tg_tasks s = 0"

definition Wait_end :: "'e session \<Rightarrow> 'e tg_error option \<times> 'e session" where
  "Wait_end s = (tg_err s, (set_cause (tg_err s) s)\<lparr>tg_ready := (\<lambda>k. map_option q_close (tg_ready s k))\<rparr>)"

definition Latest :: "string \<Rightarrow> 'e session \<Rightarrow> nat" where
  "Latest name s = (case tg_latest s name of None \<Rightarrow> 0 | Some i \<Rightarrow> i)"

definition Update :: "nat \<Rightarrow> string \<Rightarrow> 'e session \<Rightarrow> 'e session" where
  "Update i message s = upd i (\<lambda>t. t\<lparr>t_message := Some message\<rparr>) s"

definition Progress :: "nat \<Rightarrow> int \<Rightarrow> int \<Rightarrow> 'e session \<Rightarrow> 'e session" where
  "Progress i current tot s = upd i (\<lambda>t. t\<lparr>t_current := current, t_total := tot\<rparr>) s"

section \<open>Limits\<close>

record limits =
  l_IO :: int
  l_CPU :: int
  l_Internet :: int

text \<open>\<open>numCPU\<close> is what \<open>runtime.NumCPU\<close> returns.\<close>

definition DefaultLimits :: "int \<Rightarrow> limits" where
  "DefaultLimits numCPU = \<lparr>l_IO = 4, l_CPU = max numCPU 1, l_Internet = 4\<rparr>"

definition norm_limits :: "int \<Rightarrow> limits \<Rightarrow> limits" where
  "norm_limits numCPU l =
     (let d = DefaultLimits numCPU;
          l1 = (if l_IO l \<le> 0 then l\<lparr>l_IO := l_IO d\<rparr> else l);
          l2 = (if l_CPU l1 \<le> 0 then l1\<lparr>l_CPU := l_CPU d\<rparr> else l1)
      in if l_Internet l2 \<le> 0 then l2\<lparr>l_Internet := l_Internet d\<rparr> else l2)"

text \<open>\<open>Arg.Apply\<close>: the flags \<open>--io\<close>, \<open>--cpu\<close> and \<open>--internet\<close> on top of the base.\<close>

definition Apply :: "limits \<Rightarrow> limits \<Rightarrow> limits" where
  "Apply a base =
     (let b1 = (if l_IO a > 0 then base\<lparr>l_IO := l_IO a\<rparr> else base);
          b2 = (if l_CPU a > 0 then b1\<lparr>l_CPU := l_CPU a\<rparr> else b1)
      in if l_Internet a > 0 then b2\<lparr>l_Internet := l_Internet a\<rparr> else b2)"

section \<open>The machine\<close>

text \<open>
  A session with its goroutines: \<open>m_idle\<close> workers of each pool wait in \<open>pop\<close>; \<open>m_picked\<close> are the
  tasks given to \<open>run\<close> that have not passed its compare-and-swap; \<open>m_taken\<close> those before
  \<open>moveLiveFront\<close>; \<open>m_body\<close> those whose function runs. \<open>m_after\<close> says that the \<open>AfterFunc\<close> has run.
  An action is one locked section, or one step of a worker.
\<close>

record 'e machine =
  m_s :: "'e session"
  m_idle :: "pool_kind \<Rightarrow> nat"
  m_picked :: "nat list"
  m_taken :: "nat list"
  m_body :: "nat list"
  m_after :: bool

definition startWorkers :: "limits \<Rightarrow> pool_kind \<Rightarrow> nat" where
  "startWorkers l k = (case k of Control \<Rightarrow> 0 | IO \<Rightarrow> nat (l_IO l) | CPU \<Rightarrow> nat (l_CPU l) | Internet \<Rightarrow> nat (l_Internet l))"

definition tg_start :: "int \<Rightarrow> limits \<Rightarrow> 'e machine" where
  "tg_start numCPU l =
     \<lparr>m_s = Session_New, m_idle = startWorkers (norm_limits numCPU l), m_picked = [], m_taken = [], m_body = [], m_after = False\<rparr>"

datatype 'e act =
  Go nat string pool_kind "nat option" bool "nat list"
| Start nat | Pop pool_kind | Quit pool_kind | Take nat | Front nat | End nat "'e tg_error option"
| Message nat string | Count nat int int
| CancelAct "'e tg_error option" | CtxDone "'e tg_error option" | AfterCtx | WaitAct

definition give_back :: "nat \<Rightarrow> 'e machine \<Rightarrow> 'e machine" where
  "give_back i m =
     (let k = t_pool (task_of (m_s m) i) in
      if k = Control then m else m\<lparr>m_idle := (m_idle m)(k := m_idle m k + 1)\<rparr>)"

definition act_pop :: "pool_kind \<Rightarrow> 'e machine \<Rightarrow> 'e machine option" where
  "act_pop k m =
     (case tg_ready (m_s m) k of
        None \<Rightarrow> None
      | Some q \<Rightarrow>
          (if m_idle m k = 0 then None
           else (case q_pop q of
                   None \<Rightarrow> None
                 | Some (i, q') \<Rightarrow>
                     Some (m\<lparr>m_s := (m_s m)\<lparr>tg_ready := (tg_ready (m_s m))(k \<mapsto> q')\<rparr>,
                             m_idle := (m_idle m)(k := m_idle m k - 1), m_picked := i # m_picked m\<rparr>))))"

definition act_quit :: "pool_kind \<Rightarrow> 'e machine \<Rightarrow> 'e machine option" where
  "act_quit k m =
     (case tg_ready (m_s m) k of
        None \<Rightarrow> None
      | Some q \<Rightarrow>
          (if m_idle m k \<noteq> 0 \<and> q_pop q = None \<and> \<not> q_waits (tg_cause (m_s m) \<noteq> None) q
           then Some (m\<lparr>m_idle := (m_idle m)(k := m_idle m k - 1)\<rparr>) else None))"

definition act_take :: "nat \<Rightarrow> 'e machine \<Rightarrow> 'e machine" where
  "act_take i m =
     (case run_take i (m_s m) of
        None \<Rightarrow> give_back i (m\<lparr>m_picked := remove1 i (m_picked m)\<rparr>)
      | Some s \<Rightarrow> m\<lparr>m_s := s, m_picked := remove1 i (m_picked m), m_taken := i # m_taken m\<rparr>)"

text \<open>The callers of \<open>Go\<close> pass a task of the session (0 is none), and dependencies that \<open>Go\<close> returned (never the root).\<close>

primrec tg_act :: "('e session \<Rightarrow> nat \<Rightarrow> 'e tg_error option) \<Rightarrow> ('e \<Rightarrow> bool) \<Rightarrow> 'e act \<Rightarrow> 'e machine \<Rightarrow> 'e machine option" where
  "tg_act cause u (Go caller name pl fn isolate deps) m =
     (if caller < length (tg_slots (m_s m)) \<and> 1 \<notin> set deps
      then map_option (\<lambda>(i, s). m\<lparr>m_s := s\<rparr>) (goTask cause caller name pl fn isolate deps (m_s m)) else None)"
| "tg_act cause u (Start i) m =
     (if i \<in> set (tg_spawned (m_s m))
      then Some (m\<lparr>m_s := (m_s m)\<lparr>tg_spawned := remove1 i (tg_spawned (m_s m))\<rparr>, m_picked := i # m_picked m\<rparr>) else None)"
| "tg_act cause u (Pop k) m = act_pop k m"
| "tg_act cause u (Quit k) m = act_quit k m"
| "tg_act cause u (Take i) m = (if i \<in> set (m_picked m) then Some (act_take i m) else None)"
| "tg_act cause u (Front i) m =
     (if i \<in> set (m_taken m)
      then Some (m\<lparr>m_s := run_front i (m_s m), m_taken := remove1 i (m_taken m), m_body := i # m_body m\<rparr>) else None)"
| "tg_act cause u (End i err) m =
     (if i \<in> set (m_body m)
      then map_option (\<lambda>s. give_back i (m\<lparr>m_s := s, m_body := remove1 i (m_body m)\<rparr>)) (run_end cause i err (m_s m)) else None)"
| "tg_act cause u (Message i msg) m = (if i \<in> set (m_body m) then Some (m\<lparr>m_s := Update i msg (m_s m)\<rparr>) else None)"
| "tg_act cause u (Count i c n) m = (if i \<in> set (m_body m) then Some (m\<lparr>m_s := Progress i c n (m_s m)\<rparr>) else None)"
| "tg_act cause u (CancelAct err) m = Some (m\<lparr>m_s := Cancel err (m_s m)\<rparr>)"
| "tg_act cause u (CtxDone err) m = Some (m\<lparr>m_s := set_cause err (m_s m)\<rparr>)"
| "tg_act cause u AfterCtx m =
     (if tg_cause (m_s m) \<noteq> None \<and> \<not> m_after m
      then map_option (\<lambda>s. m\<lparr>m_s := s, m_after := True\<rparr>) (after_cancel cause u (m_s m)) else None)"
| "tg_act cause u WaitAct m = (if Wait_returns (m_s m) then Some (m\<lparr>m_s := snd (Wait_end (m_s m))\<rparr>) else None)"

section \<open>Listing the live tree\<close>

record node =
  n_id :: nat
  n_parent :: nat
  n_name :: string
  n_pool :: pool_kind
  n_state :: tstate
  n_message :: string
  n_current :: int
  n_total :: int
  n_liveChildren :: int

fun visible_loop :: "nat \<Rightarrow> nat \<Rightarrow> 'e session \<Rightarrow> nat option" where
  "visible_loop fuel p s =
     (if p \<noteq> 0 \<and> p \<noteq> tg_root s \<and> t_name (task_of s p) = []
      then (case fuel of 0 \<Rightarrow> None | Suc f \<Rightarrow> visible_loop f (t_parent (task_of s p)) s)
      else Some p)"

declare visible_loop.simps [simp del]

definition visibleParent :: "nat \<Rightarrow> 'e session \<Rightarrow> nat option" where
  "visibleParent i s =
     map_option (\<lambda>p. if p = tg_root s then 0 else p) (visible_loop (length (tg_slots s)) (t_parent (task_of s i)) s)"

definition snapshot :: "nat \<Rightarrow> 'e session \<Rightarrow> node option" where
  "snapshot i s =
     (let t = task_of s i in
      map_option (\<lambda>p. \<lparr>n_id = i, n_parent = p, n_name = t_name t, n_pool = t_pool t, n_state = t_state t,
        n_message = (case t_message t of None \<Rightarrow> [] | Some m \<Rightarrow> m), n_current = t_current t, n_total = t_total t,
        n_liveChildren = t_liveN t\<rparr>) (visibleParent i s))"

text \<open>\<open>walkLive\<close>; \<open>walk_live_from\<close> is its loop, at the live child it has reached.\<close>

datatype live_call = WalkLive nat | WalkFrom nat

primrec walk_live :: "nat \<Rightarrow> live_call \<Rightarrow> 'e session \<Rightarrow> nat \<Rightarrow> node list \<Rightarrow> node list option" where
  "walk_live 0 c s n out = None"
| "walk_live (Suc f) c s n out =
     (case c of
        WalkLive i \<Rightarrow>
          if length out \<ge> n then Some out
          else
            Option.bind
              (if i \<noteq> tg_root s \<and> t_name (task_of s i) \<noteq> []
               then map_option (\<lambda>x. out @ [x]) (snapshot i s) else Some out) (\<lambda>out'.
            if length out' \<ge> n then Some out' else walk_live f (WalkFrom (t_firstLive (task_of s i))) s n out')
      | WalkFrom k \<Rightarrow>
          if k = 0 \<or> length out \<ge> n then Some out
          else Option.bind (walk_live f (WalkLive k) s n out)
                 (\<lambda>out'. walk_live f (WalkFrom (t_nextLive (task_of s k))) s n out'))"

definition List_live :: "nat \<Rightarrow> 'e session \<Rightarrow> node list option" where
  "List_live n s = (if n = 0 then Some [] else walk_live (2 * length (tg_slots s) + 2) (WalkLive (tg_root s)) s n [])"

end
