(* ===== verification/Workflow.thy ===== *)
theory Workflow
  imports TaskGroup
begin

text \<open>
  The task graph of \<open>x/workflow\<close>: alias resolution, the dependency closure and its order, and
  scheduling on a task group (\<open>workflow.go\<close>). A task is a number, \<^const>\<open>None\<close> a nil one. The task
  group's \<open>Go\<close> is the list of submissions it is given; the identifier of the \<open>n\<close>-th is \<open>tid n\<close>.
  Error texts are not kept.
\<close>

section \<open>The model\<close>

datatype wf_error = ErrNoTarget | ErrUnknownStep | ErrDuplicate | ErrWorkflowEmptyStepName | ErrCycle

record step =
  w_name :: string
  w_deps :: "string list"
  w_inputs :: "string list"
  w_outputs :: "string list"
  w_dir :: string
  w_tasks :: "nat option list"
  w_desc :: string
  w_phony :: bool
  w_pool :: pool_kind
  w_orchestrator :: bool

record wgraph =
  wg_dir :: string
  wg_steps :: "step list"
  wg_defaults :: "string list"
  wg_alias :: "(string \<times> string) list"

fun byName_loop :: "step list \<Rightarrow> (string \<rightharpoonup> step) \<Rightarrow> wf_error + (string \<rightharpoonup> step)" where
  "byName_loop [] m = Inr m"
| "byName_loop (s # ss) m =
     (if w_name s = [] then Inl ErrWorkflowEmptyStepName
      else if m (w_name s) \<noteq> None then Inl ErrDuplicate
      else byName_loop ss (m(w_name s \<mapsto> s)))"

text \<open>The loop of \<open>resolveAlias\<close>; it ends since each round reads a new alias.\<close>

function resolve_loop :: "(string \<rightharpoonup> step) \<Rightarrow> (string \<times> string) list \<Rightarrow> string list \<Rightarrow> string \<Rightarrow> wf_error + string" where
  "resolve_loop byName al seen name =
     (if name \<in> set seen then Inl ErrCycle
      else if byName name \<noteq> None then Inr name
      else (case map_of al name of
              None \<Rightarrow> Inl ErrUnknownStep
            | Some nxt \<Rightarrow> resolve_loop byName al (name # seen) nxt))"
  by pat_completeness auto

termination
proof (relation "measure (\<lambda>(_, al, seen, _). card (fst ` set al - set seen))")
  show "((byName, al, name # seen, nxt), byName, al, seen, name)
      \<in> measure (\<lambda>(_, al, seen, _). card (fst ` set al - set seen))"
    if "name \<notin> set seen" "map_of al name = Some nxt"
    for byName :: "string \<rightharpoonup> step" and al :: "(string \<times> string) list" and seen name nxt
  proof -
    have "name \<in> fst ` set al" using that(2) by (force dest: map_of_SomeD)
    then have "fst ` set al - set (name # seen) \<subset> fst ` set al - set seen" using that(1) by auto
    then show ?thesis by (simp add: psubset_card_mono)
  qed
qed auto

definition resolveAlias :: "string \<Rightarrow> (string \<rightharpoonup> step) \<Rightarrow> (string \<times> string) list \<Rightarrow> wf_error + string" where
  "resolveAlias name byName al = resolve_loop byName al [] name"

text \<open>
  \<open>walk\<close> over a list of names. The colours are those of the code: 0 new, 1 open, 2 done.
  \<open>fuel\<close> bounds the depth of the recursion; \<^const>\<open>None\<close> means it rebuilt out.
\<close>

record wstate =
  ws_state :: "string \<Rightarrow> nat"
  ws_order :: "step list"

fun walk_all :: "nat \<Rightarrow> (string \<rightharpoonup> step) \<Rightarrow> (string \<times> string) list \<Rightarrow> string list \<Rightarrow> wstate \<Rightarrow> (wf_error + wstate) option" where
  "walk_all fuel byName al [] st = Some (Inr st)"
| "walk_all fuel byName al (name # names) st =
     (case resolveAlias name byName al of
        Inl e \<Rightarrow> Some (Inl e)
      | Inr canon \<Rightarrow>
          if ws_state st canon = 2 then walk_all fuel byName al names st
          else if ws_state st canon = 1 then Some (Inl ErrCycle)
          else
            (case fuel of
               0 \<Rightarrow> None
             | Suc f \<Rightarrow>
                 (case walk_all f byName al (w_deps (the (byName canon)))
                         (st\<lparr>ws_state := (ws_state st)(canon := 1)\<rparr>) of
                    None \<Rightarrow> None
                  | Some (Inl e) \<Rightarrow> Some (Inl e)
                  | Some (Inr st') \<Rightarrow>
                      walk_all fuel byName al names
                        (st'\<lparr>ws_state := (ws_state st')(canon := 2),
                             ws_order := ws_order st' @ [the (byName canon)]\<rparr>))))"

definition closure :: "wgraph \<Rightarrow> string list \<Rightarrow> (wf_error + (step list \<times> (string \<rightharpoonup> step))) option" where
  "closure g targets =
     (case byName_loop (wg_steps g) Map.empty of
        Inl e \<Rightarrow> Some (Inl e)
      | Inr byName \<Rightarrow>
          (let targets = (if targets = [] then wg_defaults g else targets) in
           if targets = [] then Some (Inl ErrNoTarget)
           else
             map_option (\<lambda>r. case r of Inl e \<Rightarrow> Inl e | Inr st \<Rightarrow> Inr (ws_order st, byName))
               (walk_all (length (wg_steps g)) byName (wg_alias g) targets
                  \<lparr>ws_state = (\<lambda>_. 0), ws_order = []\<rparr>)))"

definition pool :: "step \<Rightarrow> pool_kind" where
  "pool s =
     (if w_orchestrator s then Control
      else if w_pool s \<noteq> Control then w_pool s
      else if length (w_tasks s) > 0 then CPU
      else Control)"

text \<open>\<open>schedule\<close>: one submission per step, with the identifiers of its dependencies.\<close>

record 'i submission =
  sub_name :: string
  sub_pool :: pool_kind
  sub_deps :: "'i list"

fun dep_ids :: "(string \<rightharpoonup> step) \<Rightarrow> (string \<times> string) list \<Rightarrow> (string \<rightharpoonup> 'i) \<Rightarrow> string list \<Rightarrow> wf_error + 'i list" where
  "dep_ids byName al ids [] = Inr []"
| "dep_ids byName al ids (d # ds) =
     bind_result (resolveAlias d byName al) (\<lambda>name.
       (case ids name of
          None \<Rightarrow> Inl ErrUnknownStep
        | Some i \<Rightarrow> bind_result (dep_ids byName al ids ds) (\<lambda>is. Inr (i # is))))"

fun schedule_loop :: "(nat \<Rightarrow> 'i) \<Rightarrow> (string \<rightharpoonup> step) \<Rightarrow> (string \<times> string) list \<Rightarrow> step list
    \<Rightarrow> (string \<rightharpoonup> 'i) \<Rightarrow> 'i submission list \<Rightarrow> wf_error + 'i submission list" where
  "schedule_loop tid byName al [] ids subs = Inr subs"
| "schedule_loop tid byName al (s # ss) ids subs =
     bind_result (dep_ids byName al ids (w_deps s)) (\<lambda>deps.
       schedule_loop tid byName al ss (ids(w_name s \<mapsto> tid (length subs)))
         (subs @ [\<lparr>sub_name = w_name s, sub_pool = pool s, sub_deps = deps\<rparr>]))"

definition schedule :: "(nat \<Rightarrow> 'i) \<Rightarrow> step list \<Rightarrow> (string \<rightharpoonup> step) \<Rightarrow> (string \<times> string) list
    \<Rightarrow> wf_error + 'i submission list" where
  "schedule tid order byName al = schedule_loop tid byName al order Map.empty []"

section \<open>Names\<close>

lemma byName_loop_ok:
  assumes "byName_loop ss m = Inr m'"
  shows "distinct (map w_name ss)" and "\<forall>s \<in> set ss. m (w_name s) = None"
    and "m' = m ++ map_of (rev (map (\<lambda>s. (w_name s, s)) ss))"
proof -
  have "distinct (map w_name ss) \<and> (\<forall>s \<in> set ss. m (w_name s) = None) \<and>
    m' = m ++ map_of (rev (map (\<lambda>s. (w_name s, s)) ss))"
    using assms
  proof (induction ss arbitrary: m)
    case (Cons s ss)
    then have h: "m (w_name s) = None" "byName_loop ss (m(w_name s \<mapsto> s)) = Inr m'" by (auto split: if_splits)
    note ih = Cons.IH [OF h(2)]
    have d: "w_name s \<notin> w_name ` set ss" using ih by force
    then have "w_name s \<notin> dom (map_of (rev (map (\<lambda>s. (w_name s, s)) ss)))" 
      by (simp add: dom_map_of_conv_image_fst image_image)
    then have eq: "m(w_name s \<mapsto> s) ++ map_of (rev (map (\<lambda>s. (w_name s, s)) ss)) =
      m ++ map_of (rev (map (\<lambda>s. (w_name s, s)) (s # ss)))" by (simp add: map_add_upd_left)
    have q: "\<forall>t \<in> set ss. m (w_name t) = None" using ih d by (metis fun_upd_other image_eqI)
    show ?case
    proof (intro conjI)
      show "distinct (map w_name (s # ss))" using ih d by simp
      show "\<forall>t \<in> set (s # ss). m (w_name t) = None" using q h(1) by simp
      show "m' = m ++ map_of (rev (map (\<lambda>s. (w_name s, s)) (s # ss)))" using ih eq by metis
    qed
  qed simp
  then show "distinct (map w_name ss)" "\<forall>s \<in> set ss. m (w_name s) = None"
    "m' = m ++ map_of (rev (map (\<lambda>s. (w_name s, s)) ss))" by blast+
qed

text \<open>\<open>named\<close>: every step is found under its own name.\<close>

definition named :: "step list \<Rightarrow> (string \<rightharpoonup> step) \<Rightarrow> bool" where
  "named ss byName \<longleftrightarrow> (\<forall>c s. byName c = Some s \<longleftrightarrow> s \<in> set ss \<and> w_name s = c)"

lemma byName_named:
  assumes "byName_loop ss Map.empty = Inr byName"
  shows "named ss byName"
proof -
  note b = byName_loop_ok [OF assms]
  have "distinct (map fst (rev (map (\<lambda>s. (w_name s, s)) ss)))" using b(1) by (simp add: rev_map [symmetric] comp_def)
  then show ?thesis unfolding named_def b(3) by (auto simp: map_of_eq_Some_iff)
qed

lemma named_dom:
  assumes "named ss byName"
  shows "dom byName = w_name ` set ss"
  using assms by (auto simp: named_def dom_def)

lemma resolve_loop_ok: "resolve_loop byName al seen name = Inr c \<Longrightarrow> byName c \<noteq> None"
  by (induction byName al seen name rule: resolve_loop.induct) (simp split: if_splits option.splits)

lemma resolve_ok: "resolveAlias n byName al = Inr c \<Longrightarrow> byName c \<noteq> None"
  unfolding resolveAlias_def by (rule resolve_loop_ok)

lemma resolve_self: "byName n \<noteq> None \<Longrightarrow> resolveAlias n byName al = Inr n"
  by (simp add: resolveAlias_def)

text \<open>The dependency relation between the steps' own names.\<close>

definition needs :: "(string \<rightharpoonup> step) \<Rightarrow> (string \<times> string) list \<Rightarrow> (string \<times> string) set" where
  "needs byName al =
     {(c, c'). \<exists>s d. byName c = Some s \<and> d \<in> set (w_deps s) \<and> resolveAlias d byName al = Inr c'}"

section \<open>The walk\<close>

definition deps_before :: "(string \<rightharpoonup> step) \<Rightarrow> (string \<times> string) list \<Rightarrow> step list \<Rightarrow> bool" where
  "deps_before byName al order \<longleftrightarrow>
     (\<forall>i < length order. \<forall>d \<in> set (w_deps (order ! i)).
        \<exists>j < i. resolveAlias d byName al = Inr (w_name (order ! j)))"

definition walk_inv :: "(string \<rightharpoonup> step) \<Rightarrow> (string \<times> string) list \<Rightarrow> wstate \<Rightarrow> bool" where
  "walk_inv byName al st \<longleftrightarrow>
     (\<forall>c. ws_state st c = 2 \<longleftrightarrow> c \<in> w_name ` set (ws_order st)) \<and> (\<forall>c. ws_state st c \<le> 2) \<and>
     distinct (map w_name (ws_order st)) \<and> (\<forall>s \<in> set (ws_order st). byName (w_name s) = Some s) \<and>
     deps_before byName al (ws_order st)"

lemma deps_before_snoc:
  assumes "deps_before byName al order"
    and "\<forall>d \<in> set (w_deps s). \<exists>c. resolveAlias d byName al = Inr c \<and> c \<in> w_name ` set order"
  shows "deps_before byName al (order @ [s])"
  unfolding deps_before_def
proof (intro allI impI ballI)
  fix i d assume i: "i < length (order @ [s])" and d: "d \<in> set (w_deps ((order @ [s]) ! i))"
  show "\<exists>j < i. resolveAlias d byName al = Inr (w_name ((order @ [s]) ! j))"
  proof (cases "i < length order")
    case True
    then obtain j where "j < i" "resolveAlias d byName al = Inr (w_name (order ! j))"
      using assms(1) d by (auto simp: deps_before_def nth_append)
    then show ?thesis using True by (intro exI [of _ j]) (simp add: nth_append)
  next
    case False
    then have "i = length order" using i by simp
    then obtain c where "resolveAlias d byName al = Inr c" "c \<in> w_name ` set order" using assms(2) d by auto
    then obtain j where "j < length order" "c = w_name (order ! j)" by (auto simp: in_set_conv_nth)
    then show ?thesis using \<open>i = length order\<close> \<open>resolveAlias d byName al = Inr c\<close>
      by (intro exI [of _ j]) (simp add: nth_append)
  qed
qed

text \<open>What a walk that returns has done: finished the names it was given, kept what was open open.\<close>

definition walked :: "(string \<rightharpoonup> step) \<Rightarrow> (string \<times> string) list \<Rightarrow> string list \<Rightarrow> wstate \<Rightarrow> wstate \<Rightarrow> bool" where
  "walked byName al names st st' \<longleftrightarrow>
     walk_inv byName al st' \<and>
     (\<forall>c. ws_state st c \<noteq> 0 \<longrightarrow> ws_state st' c = ws_state st c) \<and>
     (\<forall>c. ws_state st' c = 1 \<longrightarrow> ws_state st c = 1) \<and>
     (\<forall>n \<in> set names. \<exists>c. resolveAlias n byName al = Inr c \<and> ws_state st' c = 2) \<and>
     (\<forall>c. ws_state st' c = 2 \<and> ws_state st c \<noteq> 2 \<longrightarrow>
        (\<exists>n \<in> set names. \<exists>c0. resolveAlias n byName al = Inr c0 \<and> (c0, c) \<in> (needs byName al)\<^sup>*))"

lemma walkedD:
  assumes "walked byName al names st st'"
  shows "walk_inv byName al st'" and "ws_state st c \<noteq> 0 \<Longrightarrow> ws_state st' c = ws_state st c"
    and "ws_state st' c = 1 \<Longrightarrow> ws_state st c = 1"
    and "n \<in> set names \<Longrightarrow> \<exists>c. resolveAlias n byName al = Inr c \<and> ws_state st' c = 2"
    and "ws_state st' c = 2 \<Longrightarrow> ws_state st c \<noteq> 2 \<Longrightarrow>
      \<exists>n \<in> set names. \<exists>c0. resolveAlias n byName al = Inr c0 \<and> (c0, c) \<in> (needs byName al)\<^sup>*"
proof -
  note w = assms [unfolded walked_def]
  note a = conjunct1 [OF w] note w = conjunct2 [OF w]
  note b = conjunct1 [OF w] note w = conjunct2 [OF w]
  note c = conjunct1 [OF w] note w = conjunct2 [OF w]
  note d = conjunct1 [OF w] and e = conjunct2 [OF w]
  show "walk_inv byName al st'" by (rule a)
  show "ws_state st' c = ws_state st c" if "ws_state st c \<noteq> 0" using b that by simp
  show "ws_state st c = 1" if "ws_state st' c = 1" using c that by simp
  show "\<exists>c. resolveAlias n byName al = Inr c \<and> ws_state st' c = 2" if "n \<in> set names" by (rule bspec [OF d that])
  show "\<exists>n \<in> set names. \<exists>c0. resolveAlias n byName al = Inr c0 \<and> (c0, c) \<in> (needs byName al)\<^sup>*"
    if "ws_state st' c = 2" "ws_state st c \<noteq> 2" using e that by simp
qed

lemma walkedI:
  assumes "walk_inv byName al st'" and "\<And>c. ws_state st c \<noteq> 0 \<Longrightarrow> ws_state st' c = ws_state st c"
    and "\<And>c. ws_state st' c = 1 \<Longrightarrow> ws_state st c = 1"
    and "\<And>n. n \<in> set names \<Longrightarrow> \<exists>c. resolveAlias n byName al = Inr c \<and> ws_state st' c = 2"
    and "\<And>c. ws_state st' c = 2 \<Longrightarrow> ws_state st c \<noteq> 2 \<Longrightarrow>
      \<exists>n \<in> set names. \<exists>c0. resolveAlias n byName al = Inr c0 \<and> (c0, c) \<in> (needs byName al)\<^sup>*"
  shows "walked byName al names st st'"
  unfolding walked_def
proof (intro conjI allI impI ballI)
  fix c assume c: "ws_state st' c = 2 \<and> ws_state st c \<noteq> 2"
  show "\<exists>n \<in> set names. \<exists>c0. resolveAlias n byName al = Inr c0 \<and> (c0, c) \<in> (needs byName al)\<^sup>*"
    by (rule assms(5)) (use c in simp_all)
qed (rule assms; assumption?)+

lemma walked_step:
  assumes inv: "walk_inv byName al st" and r: "resolveAlias name byName al = Inr c" and new: "ws_state st c = 0"
    and s: "byName c = Some s" "w_name s = c"
    and deps: "walked byName al (w_deps s) (st\<lparr>ws_state := (ws_state st)(c := 1)\<rparr>) st1"
    and st2: "st2 = st1\<lparr>ws_state := (ws_state st1)(c := 2), ws_order := ws_order st1 @ [s]\<rparr>"
  shows "walked byName al [name] st st2"
proof -
  note d = walkedD [OF deps]
  have c1: "ws_state st1 c = 1" using d(2) [of c] by simp
  have o1: "ws_state st1 x = 2 \<longleftrightarrow> x \<in> w_name ` set (ws_order st1)" for x using d(1) by (simp add: walk_inv_def)
  have nc: "c \<notin> w_name ` set (ws_order st1)" using o1 [of c] c1 by simp
  have deps1: "\<forall>dd \<in> set (w_deps s). \<exists>c. resolveAlias dd byName al = Inr c \<and> c \<in> w_name ` set (ws_order st1)"
    using d(4) by (simp add: o1)
  have db: "deps_before byName al (ws_order st1 @ [s])"
    using deps_before_snoc [OF _ deps1] d(1) by (simp add: walk_inv_def)
  have inv2: "walk_inv byName al st2"
    using d(1) nc db s unfolding st2 walk_inv_def by auto
  have reach: "(c, c') \<in> (needs byName al)\<^sup>*" if c': "ws_state st2 c' = 2" "ws_state st c' \<noteq> 2" for c'
  proof (cases "c' = c")
    case False
    then obtain n c0 where n: "n \<in> set (w_deps s)" "resolveAlias n byName al = Inr c0" "(c0, c') \<in> (needs byName al)\<^sup>*"
      using d(5) [of c'] c' st2 by auto
    then have "(c, c0) \<in> needs byName al" using s by (auto simp: needs_def)
    then show ?thesis using n(3) by (rule converse_rtrancl_into_rtrancl)
  qed simp
  have k: "ws_state st2 x = ws_state st x" if x: "ws_state st x \<noteq> 0" for x
  proof -
    have "x \<noteq> c" using x new by auto
    then show ?thesis using d(2) [of x] x st2 by simp
  qed
  have o: "ws_state st x = 1" if "ws_state st2 x = 1" for x
    using that d(3) [of x] st2 by (simp split: if_splits)
  have "ws_state st2 c = 2" using st2 by simp
  then show ?thesis using r reach by (intro walkedI inv2 k o) auto
qed

lemma walked_trans:
  assumes a: "walked byName al ns st st1" and b: "walked byName al names st1 st2"
  shows "walked byName al (ns @ names) st st2"
proof -
  have 1: "ws_state st2 c = ws_state st c" if "ws_state st c \<noteq> 0" for c
    using walkedD(2) [OF a that] walkedD(2) [OF b, of c] that by simp
  have 2: "\<exists>c. resolveAlias n byName al = Inr c \<and> ws_state st2 c = 2" if "n \<in> set (ns @ names)" for n
  proof (cases "n \<in> set names")
    case False
    then obtain c where "resolveAlias n byName al = Inr c" "ws_state st1 c = 2" using walkedD(4) [OF a, of n] \<open>n \<in> set (ns @ names)\<close> by auto
    then show ?thesis using walkedD(2) [OF b, of c] by auto
  qed (use walkedD(4) [OF b] in blast)
  have 3: "\<exists>n \<in> set (ns @ names). \<exists>c0. resolveAlias n byName al = Inr c0 \<and> (c0, c) \<in> (needs byName al)\<^sup>*"
    if "ws_state st2 c = 2" "ws_state st c \<noteq> 2" for c
    using walkedD(5) [OF a _ that(2)] walkedD(5) [OF b that(1)] by (cases "ws_state st1 c = 2") auto
  have 4: "ws_state st c = 1" if "ws_state st2 c = 1" for c using walkedD(3) [OF b that] walkedD(3) [OF a] by blast
  show ?thesis by (rule walkedI) (rule walkedD(1) [OF b] 1 4 2 3; assumption?)+
qed

lemma walked_refl:
  assumes "walk_inv byName al st" and "resolveAlias name byName al = Inr c" and "ws_state st c = 2"
  shows "walked byName al [name] st st"
  using assms by (auto simp: walked_def)

text \<open>The three ways a walk of \<open>name # names\<close> returns.\<close>

lemma walk_all_cases:
  assumes "walk_all fuel byName al (name # names) st = Some (Inr st')"
  obtains (finished) c where "resolveAlias name byName al = Inr c" "ws_state st c = 2" "walk_all fuel byName al names st = Some (Inr st')"
  | (fresh) c f st1 where "resolveAlias name byName al = Inr c" "ws_state st c \<noteq> 2" "ws_state st c \<noteq> 1" "fuel = Suc f"
      "walk_all f byName al (w_deps (the (byName c))) (st\<lparr>ws_state := (ws_state st)(c := 1)\<rparr>) = Some (Inr st1)"
      "walk_all fuel byName al names (st1\<lparr>ws_state := (ws_state st1)(c := 2),
         ws_order := ws_order st1 @ [the (byName c)]\<rparr>) = Some (Inr st')"
  using assms by (auto split: sum.splits if_splits nat.splits option.splits)

lemma walk_all_walked:
  assumes "named ss byName"
  shows "walk_all fuel byName al names st = Some (Inr st') \<Longrightarrow> walk_inv byName al st \<Longrightarrow> walked byName al names st st'"
proof (induction fuel arbitrary: names st st' rule: less_induct)
  case (less fuel)
  show ?case using less.prems
  proof (induction names arbitrary: st)
    case Nil
    then show ?case by (simp add: walked_def)
  next
    case (Cons name names)
    from Cons.prems(1) show ?case
    proof (cases rule: walk_all_cases)
      case (finished c)
      have "walked byName al ([name] @ names) st st'"
        by (rule walked_trans [OF walked_refl [OF Cons.prems(2) finished(1,2)]]) (rule Cons.IH [OF finished(3) Cons.prems(2)])
      then show ?thesis by simp
    next
      case (fresh c f st1)
      obtain s where s: "byName c = Some s" "w_name s = c"
        using resolve_ok [OF fresh(1)] assms by (auto simp: named_def)
      have new: "ws_state st c = 0"
      proof -
        have "ws_state st c \<le> 2" using Cons.prems(2) by (simp add: walk_inv_def)
        then show ?thesis using fresh(2,3) by linarith
      qed
      have "ws_state st c = 2 \<longleftrightarrow> c \<in> w_name ` set (ws_order st)" using Cons.prems(2) by (simp add: walk_inv_def)
      then have nc: "c \<notin> w_name ` set (ws_order st)" using new by simp
      have io: "walk_inv byName al (st\<lparr>ws_state := (ws_state st)(c := 1)\<rparr>)"
        using Cons.prems(2) nc by (simp add: walk_inv_def)
      have d: "walked byName al (w_deps s) (st\<lparr>ws_state := (ws_state st)(c := 1)\<rparr>) st1"
        using less.IH [of f] fresh(4,5) s(1) io by simp
      let ?st2 = "st1\<lparr>ws_state := (ws_state st1)(c := 2), ws_order := ws_order st1 @ [s]\<rparr>"
      have w: "walked byName al [name] st ?st2"
        by (rule walked_step [OF Cons.prems(2) fresh(1) new s d refl])
      have "walked byName al names ?st2 st'"
        using Cons.IH [of ?st2] fresh(6) s(1) walkedD(1) [OF w] by simp
      from walked_trans [OF w this] show ?thesis by simp
    qed
  qed
qed

text \<open>The recursion is no deeper than there are steps, so the fuel of \<open>closure\<close> is enough.\<close>

definition unseen :: "(string \<rightharpoonup> step) \<Rightarrow> wstate \<Rightarrow> string set" where
  "unseen byName st = {c \<in> dom byName. ws_state st c = 0}"

lemma walk_all_returns:
  assumes fin: "finite (dom byName)" and nm: "named ss byName"
  shows "card (unseen byName st) \<le> fuel \<Longrightarrow> walk_inv byName al st \<Longrightarrow> walk_all fuel byName al names st \<noteq> None"
proof (induction fuel arbitrary: names st rule: less_induct)
  case (less fuel)
  show ?case using less.prems
  proof (induction names arbitrary: st)
    case (Cons name names)
    show ?case
    proof (cases "resolveAlias name byName al")
      case (Inr c)
      show ?thesis
      proof (cases "ws_state st c = 2 \<or> ws_state st c = 1")
        case True
        then show ?thesis using Inr Cons by auto
      next
        case False
        have "ws_state st c \<le> 2" using Cons.prems(2) by (simp add: walk_inv_def)
        then have new: "ws_state st c = 0" using False by linarith
        let ?st = "st\<lparr>ws_state := (ws_state st)(c := 1)\<rparr>"
        have fu: "finite (unseen byName x)" for x using fin by (simp add: unseen_def)
        have cin: "c \<in> unseen byName st" using resolve_ok [OF Inr] new by (auto simp: unseen_def)
        have "unseen byName ?st = unseen byName st - {c}" by (auto simp: unseen_def)
        then have card: "Suc (card (unseen byName ?st)) = card (unseen byName st)"
          using cin fu card_Suc_Diff1 by metis
        then obtain f where f: "fuel = Suc f" using Cons.prems(1) by (cases fuel) auto
        have "ws_state st c = 2 \<longleftrightarrow> c \<in> w_name ` set (ws_order st)" using Cons.prems(2) by (simp add: walk_inv_def)
        then have io: "walk_inv byName al ?st" using Cons.prems(2) new by (simp add: walk_inv_def)
        have "walk_all f byName al (w_deps (the (byName c))) ?st \<noteq> None"
          by (rule less.IH) (use f card Cons.prems(1) io in simp_all)
        then consider (err) e where "walk_all f byName al (w_deps (the (byName c))) ?st = Some (Inl e)"
          | (ok) st1 where "walk_all f byName al (w_deps (the (byName c))) ?st = Some (Inr st1)"
          by (metis not_Some_eq sumE)
        then show ?thesis
        proof cases
          case err
          then show ?thesis using Inr False f by simp
        next
          case ok
          obtain s where s: "byName c = Some s" "w_name s = c" using resolve_ok [OF Inr] nm by (auto simp: named_def)
          let ?st2 = "st1\<lparr>ws_state := (ws_state st1)(c := 2), ws_order := ws_order st1 @ [s]\<rparr>"
          have d: "walked byName al (w_deps s) ?st st1" using walk_all_walked [OF nm ok io] s by simp
          have w: "walked byName al [name] st ?st2" by (rule walked_step [OF Cons.prems(2) Inr new s d refl])
          have "unseen byName ?st2 \<subseteq> unseen byName st"
            using walkedD(2) [OF w] unfolding unseen_def by (metis (mono_tags, lifting) Collect_mono)
          then have "card (unseen byName ?st2) \<le> fuel" using card_mono [OF fu] Cons.prems(1) le_trans by blast
          from Cons.IH [OF this walkedD(1) [OF w]] show ?thesis using Inr False f ok s(1) by simp
        qed
      qed
    qed simp
  qed simp
qed

text \<open>A failed walk met a name that does not resolve, or a step that needs itself.\<close>

definition bad_name :: "(string \<rightharpoonup> step) \<Rightarrow> (string \<times> string) list \<Rightarrow> string list \<Rightarrow> wf_error \<Rightarrow> bool" where
  "bad_name byName al names e \<longleftrightarrow>
     (\<exists>n \<in> set names. resolveAlias n byName al = Inl e) \<or>
     (\<exists>n \<in> set names. \<exists>c c' s d. resolveAlias n byName al = Inr c \<and> (c, c') \<in> (needs byName al)\<^sup>* \<and>
        byName c' = Some s \<and> d \<in> set (w_deps s) \<and> resolveAlias d byName al = Inl e)"

lemma bad_name_step:
  assumes "bad_name byName al (w_deps s) e" and "byName c = Some s" and "resolveAlias name byName al = Inr c"
  shows "bad_name byName al (name # names) e"
proof -
  have step: "(c, c0) \<in> (needs byName al)\<^sup>*" if "n \<in> set (w_deps s)" "resolveAlias n byName al = Inr c0" for n c0
    using that assms(2) by (auto simp: needs_def)
  from assms(1) consider n where "n \<in> set (w_deps s)" "resolveAlias n byName al = Inl e"
    | n c0 c' s' d where "n \<in> set (w_deps s)" "resolveAlias n byName al = Inr c0" "(c0, c') \<in> (needs byName al)\<^sup>*"
        "byName c' = Some s'" "d \<in> set (w_deps s')" "resolveAlias d byName al = Inl e"
    unfolding bad_name_def by blast
  then show ?thesis
  proof cases
    case 1
    then show ?thesis using assms(2,3) unfolding bad_name_def by (meson list.set_intros(1) rtrancl.rtrancl_refl)
  next
    case 2
    then have "(c, c') \<in> (needs byName al)\<^sup>*" using step rtrancl_trans by metis
    then show ?thesis using 2 assms(3) unfolding bad_name_def by (meson list.set_intros(1))
  qed
qed

lemma walk_all_error:
  assumes nm: "named ss byName"
  shows "walk_all fuel byName al names st = Some (Inl e) \<Longrightarrow>
    (\<And>o1 n c. ws_state st o1 = 1 \<Longrightarrow> n \<in> set names \<Longrightarrow> resolveAlias n byName al = Inr c \<Longrightarrow> (o1, c) \<in> (needs byName al)\<^sup>+) \<Longrightarrow>
    walk_inv byName al st \<Longrightarrow> bad_name byName al names e \<or> e = ErrCycle \<and> \<not> acyclic (needs byName al)"
proof (induction fuel arbitrary: names st rule: less_induct)
  case (less fuel)
  show ?case using less.prems
  proof (induction names arbitrary: st)
    case (Cons name names)
    have tail: "bad_name byName al names e \<Longrightarrow> bad_name byName al (name # names) e" by (auto simp: bad_name_def)
    show ?case
    proof (cases "resolveAlias name byName al")
      case (Inl e')
      then show ?thesis using Cons.prems(1) by (auto simp: bad_name_def)
    next
      case (Inr c)
      consider (finished) "ws_state st c = 2" | (active) "ws_state st c = 1" | (new) "ws_state st c = 0"
      proof -
        have "ws_state st c \<le> 2" using Cons.prems(3) by (simp add: walk_inv_def)
        then show thesis using that by linarith
      qed
      then show ?thesis
      proof cases
        case finished
        have "walk_all fuel byName al names st = Some (Inl e)" using Cons.prems(1) Inr finished by simp
        from Cons.IH [OF this _ Cons.prems(3)] show ?thesis using tail Cons.prems(2) by (meson list.set_intros(2))
      next
        case active
        have "(c, c) \<in> (needs byName al)\<^sup>+" using Cons.prems(2) [OF active _ Inr] by simp
        then show ?thesis using Cons.prems(1) Inr active by (auto simp: acyclic_def)
      next
        case new
        obtain s where s: "byName c = Some s" "w_name s = c" using resolve_ok [OF Inr] nm by (auto simp: named_def)
        obtain f where f: "fuel = Suc f" using Cons.prems(1) Inr new by (cases fuel) auto
        let ?st = "st\<lparr>ws_state := (ws_state st)(c := 1)\<rparr>"
        have "ws_state st c = 2 \<longleftrightarrow> c \<in> w_name ` set (ws_order st)" using Cons.prems(3) by (simp add: walk_inv_def)
        then have io: "walk_inv byName al ?st" using Cons.prems(3) new by (simp add: walk_inv_def)
        have op: "(o1, c') \<in> (needs byName al)\<^sup>+"
          if "ws_state ?st o1 = 1" "n \<in> set (w_deps s)" "resolveAlias n byName al = Inr c'" for o1 n c'
        proof -
          have e: "(c, c') \<in> needs byName al" using that(2,3) s(1) by (auto simp: needs_def)
          show ?thesis
          proof (cases "o1 = c")
            case False
            then have "(o1, c) \<in> (needs byName al)\<^sup>+" using Cons.prems(2) [OF _ _ Inr] that(1) by simp
            then show ?thesis using e by (rule trancl_into_trancl)
          qed (use e in auto)
        qed
        show ?thesis
        proof (cases "walk_all f byName al (w_deps s) ?st")
          case None
          then show ?thesis using Cons.prems(1) Inr new f s by simp
        next
          case (Some res)
          show ?thesis
          proof (cases res)
            case (Inl e')
            then have "e' = e" using Cons.prems(1) Inr new f s Some by simp
            then have "walk_all f byName al (w_deps s) ?st = Some (Inl e)" using Some Inl by simp
            from less.IH [OF _ this op io] f have "bad_name byName al (w_deps s) e \<or> e = ErrCycle \<and> \<not> acyclic (needs byName al)"
              by simp
            then show ?thesis using bad_name_step [OF _ s(1) \<open>resolveAlias name byName al = Inr c\<close>] by blast
          next
            case (Inr st1)
            let ?st2 = "st1\<lparr>ws_state := (ws_state st1)(c := 2), ws_order := ws_order st1 @ [s]\<rparr>"
            have d: "walked byName al (w_deps s) ?st st1" using walk_all_walked [OF nm _ io] Some Inr by simp
            have w: "walked byName al [name] st ?st2"
              by (rule walked_step [OF Cons.prems(3) \<open>resolveAlias name byName al = Inr c\<close> new s d refl])
            have "walk_all fuel byName al names ?st2 = Some (Inl e)"
              using Cons.prems(1) \<open>resolveAlias name byName al = Inr c\<close> new f s Some Inr by simp
            from Cons.IH [OF this _ walkedD(1) [OF w]]
            show ?thesis using tail Cons.prems(2) walkedD(3) [OF w] by (meson list.set_intros(2))
          qed
        qed
      qed
    qed
  qed simp
qed


section \<open>The closure\<close>

lemma closure_unfold:
  assumes "closure g targets = Some r"
  obtains (names) e where "byName_loop (wg_steps g) Map.empty = Inl e" "r = Inl e"
  | (target) byName where "byName_loop (wg_steps g) Map.empty = Inr byName" "targets = []" "wg_defaults g = []" "r = Inl ErrNoTarget"
  | (walk) byName names res where "byName_loop (wg_steps g) Map.empty = Inr byName"
      "names = (if targets = [] then wg_defaults g else targets)" "names \<noteq> []"
      "walk_all (length (wg_steps g)) byName (wg_alias g) names \<lparr>ws_state = (\<lambda>_. 0), ws_order = []\<rparr> = Some res"
      "r = (case res of Inl e \<Rightarrow> Inl e | Inr st \<Rightarrow> Inr (ws_order st, byName))"
proof (cases "byName_loop (wg_steps g) Map.empty")
  case (Inl e)
  then show thesis using assms names by (simp add: closure_def)
next
  case (Inr byName)
  let ?names = "if targets = [] then wg_defaults g else targets"
  let ?w = "walk_all (length (wg_steps g)) byName (wg_alias g) ?names \<lparr>ws_state = (\<lambda>_. 0), ws_order = []\<rparr>"
  show thesis
  proof (cases "?names = []")
    case True
    then show thesis using assms Inr target by (auto simp: closure_def split: if_splits)
  next
    case False
    then have "map_option (\<lambda>r. case r of Inl e \<Rightarrow> Inl e | Inr st \<Rightarrow> Inr (ws_order st, byName)) ?w = Some r"
      using assms Inr unfolding closure_def Let_def by (simp split: if_splits)
    then show thesis using walk [OF Inr refl False] by blast
  qed
qed

lemma start_inv: "walk_inv byName al \<lparr>ws_state = (\<lambda>_. 0), ws_order = []\<rparr>"
  by (simp add: walk_inv_def deps_before_def)

lemma closure_returns: "\<exists>r. closure g targets = Some r"
proof (cases "byName_loop (wg_steps g) Map.empty")
  case (Inr byName)
  note nm = byName_named [OF Inr]
  let ?st = "\<lparr>ws_state = (\<lambda>_. 0), ws_order = []\<rparr>"
  have fin: "finite (dom byName)" using named_dom [OF nm] by simp
  have "unseen byName ?st \<subseteq> w_name ` set (wg_steps g)" using named_dom [OF nm] by (auto simp: unseen_def)
  then have "card (unseen byName ?st) \<le> card (w_name ` set (wg_steps g))" by (simp add: card_mono)
  also have "\<dots> \<le> length (wg_steps g)" using card_image_le card_length le_trans by (metis List.finite_set)
  finally have "walk_all (length (wg_steps g)) byName (wg_alias g) names ?st \<noteq> None" for names
    using walk_all_returns [OF fin nm] start_inv by blast
  then show ?thesis using Inr by (auto simp: closure_def Let_def)
qed (simp add: closure_def)

text \<open>Exactly the steps the targets need, each once and after those it needs.\<close>

lemma closure_sound:
  assumes cl: "closure g targets = Some (Inr (order, byName))"
  defines "names \<equiv> (if targets = [] then wg_defaults g else targets)"
  shows "named (wg_steps g) byName" and "distinct (map w_name order)" and "deps_before byName (wg_alias g) order"
    and "set order \<subseteq> set (wg_steps g)"
    and "w_name ` set order = {c'. \<exists>n \<in> set names. \<exists>c. resolveAlias n byName (wg_alias g) = Inr c \<and> (c, c') \<in> (needs byName (wg_alias g))\<^sup>*}"
    and "\<And>n. n \<in> set names \<Longrightarrow> \<exists>c. resolveAlias n byName (wg_alias g) = Inr c"
proof -
  let ?al = "wg_alias g" and ?st = "\<lparr>ws_state = (\<lambda>_. 0), ws_order = []\<rparr>"
  obtain st where b: "byName_loop (wg_steps g) Map.empty = Inr byName"
    and wk: "walk_all (length (wg_steps g)) byName ?al names ?st = Some (Inr st)" and o: "order = ws_order st"
    using cl unfolding names_def by (auto elim!: closure_unfold split: sum.splits)
  show nm: "named (wg_steps g) byName" by (rule byName_named [OF b])
  have w: "walked byName ?al names ?st st" by (rule walk_all_walked [OF nm wk start_inv])
  note inv = walkedD(1) [OF w, unfolded walk_inv_def]
  have two: "ws_state st c = 2 \<longleftrightarrow> c \<in> w_name ` set order" for c using inv o by simp
  show "distinct (map w_name order)" and db: "deps_before byName ?al order" using inv o by simp_all
  have bn: "byName (w_name s) = Some s" if "s \<in> set order" for s using inv o that by simp
  then show "set order \<subseteq> set (wg_steps g)" using nm by (auto simp: named_def)
  show tg: "\<exists>c. resolveAlias n byName ?al = Inr c" if "n \<in> set names" for n using walkedD(4) [OF w that] by blast
  have closed: "c' \<in> w_name ` set order" if e: "(c, c') \<in> needs byName ?al" and c: "c \<in> w_name ` set order" for c c'
  proof -
    obtain i where i: "i < length order" "w_name (order ! i) = c" using c by (auto simp: in_set_conv_nth)
    then obtain d where "d \<in> set (w_deps (order ! i))" "resolveAlias d byName ?al = Inr c'"
      using e bn [of "order ! i"] by (auto simp: needs_def)
    then obtain j where "j < i" "c' = w_name (order ! j)" using db i(1) unfolding deps_before_def by (metis Inr_inject)
    then show ?thesis using i(1) by simp
  qed
  have star: "c' \<in> w_name ` set order" if "(c, c') \<in> (needs byName ?al)\<^sup>*" "c \<in> w_name ` set order" for c c'
    using that by (induction rule: rtrancl_induct) (auto intro: closed)
  have tin: "c \<in> w_name ` set order" if "n \<in> set names" "resolveAlias n byName ?al = Inr c" for n c
    using walkedD(4) [OF w that(1)] that(2) two by auto
  have need: "\<exists>n \<in> set names. \<exists>c. resolveAlias n byName ?al = Inr c \<and> (c, c') \<in> (needs byName ?al)\<^sup>*"
    if "c' \<in> w_name ` set order" for c'
    using walkedD(5) [OF w, of c'] that two [of c'] by simp
  show "w_name ` set order = {c'. \<exists>n \<in> set names. \<exists>c. resolveAlias n byName ?al = Inr c \<and> (c, c') \<in> (needs byName ?al)\<^sup>*}"
  proof (intro equalityI subsetI CollectI need)
    fix c' assume "c' \<in> {c'. \<exists>n \<in> set names. \<exists>c. resolveAlias n byName ?al = Inr c \<and> (c, c') \<in> (needs byName ?al)\<^sup>*}"
    then obtain n c where "n \<in> set names" "resolveAlias n byName ?al = Inr c" "(c, c') \<in> (needs byName ?al)\<^sup>*" by blast
    then show "c' \<in> w_name ` set order" using star tin by metis
  qed
qed

lemma closure_error:
  assumes "closure g targets = Some (Inl e)" and b: "byName_loop (wg_steps g) Map.empty = Inr byName"
  defines "names \<equiv> (if targets = [] then wg_defaults g else targets)"
  shows "names = [] \<and> e = ErrNoTarget \<or> bad_name byName (wg_alias g) names e \<or>
    e = ErrCycle \<and> \<not> acyclic (needs byName (wg_alias g))"
  using assms(1)
proof (cases rule: closure_unfold)
  case (walk byName' names' res)
  then have w: "walk_all (length (wg_steps g)) byName (wg_alias g) names \<lparr>ws_state = (\<lambda>_. 0), ws_order = []\<rparr> = Some (Inl e)"
    using b by (auto simp: names_def split: sum.splits)
  show ?thesis using walk_all_error [OF byName_named [OF b] w _ start_inv] by simp
qed (use b in \<open>simp_all add: names_def\<close>)

section \<open>Scheduling\<close>

definition step_pos :: "step list \<Rightarrow> string \<Rightarrow> nat" where
  "step_pos order c = length (takeWhile (\<lambda>s. w_name s \<noteq> c) order)"

lemma step_pos_nth:
  assumes "distinct (map w_name order)" and "j < length order"
  shows "step_pos order (w_name (order ! j)) = j"
  using assms
proof (induction order arbitrary: j)
  case (Cons s order)
  then show ?case by (cases j) (auto simp: step_pos_def)
qed simp

definition submission_of :: "(nat \<Rightarrow> 'i) \<Rightarrow> (string \<rightharpoonup> step) \<Rightarrow> (string \<times> string) list \<Rightarrow> step list \<Rightarrow> step \<Rightarrow> 'i submission" where
  "submission_of tid byName al order s =
     \<lparr>sub_name = w_name s, sub_pool = pool s,
      sub_deps = map (\<lambda>d. tid (step_pos order (projr (resolveAlias d byName al)))) (w_deps s)\<rparr>"

lemma dep_ids_eq:
  assumes "\<forall>d \<in> set ds. \<exists>c. resolveAlias d byName al = Inr c \<and> ids c = Some (h c)"
  shows "dep_ids byName al ids ds = Inr (map (\<lambda>d. h (projr (resolveAlias d byName al))) ds)"
  using assms by (induction ds) auto

lemma schedule_loop_eq:
  assumes "order = pre @ ss" and "length subs = length pre" and "distinct (map w_name order)" and "deps_before byName al order"
    and "\<forall>j < length pre. ids (w_name (order ! j)) = Some (tid j)"
  shows "schedule_loop tid byName al ss ids subs = Inr (subs @ map (submission_of tid byName al order) ss)"
  using assms
proof (induction ss arbitrary: pre ids subs)
  case (Cons s ss)
  let ?i = "length pre"
  have s: "order ! ?i = s" "?i < length order" using Cons.prems(1) by simp_all
  have "\<forall>d \<in> set (w_deps s). \<exists>c. resolveAlias d byName al = Inr c \<and> ids c = Some (tid (step_pos order c))"
  proof
    fix d assume "d \<in> set (w_deps s)"
    then obtain j where "j < ?i" "resolveAlias d byName al = Inr (w_name (order ! j))"
      using Cons.prems(4) s unfolding deps_before_def by metis
    then show "\<exists>c. resolveAlias d byName al = Inr c \<and> ids c = Some (tid (step_pos order c))"
      using Cons.prems(5) step_pos_nth [OF Cons.prems(3), of j] s(2) by simp
  qed
  then have d: "dep_ids byName al ids (w_deps s) = Inr (sub_deps (submission_of tid byName al order s))"
    using dep_ids_eq [of "w_deps s" byName al ids "\<lambda>c. tid (step_pos order c)"] by (simp add: submission_of_def)
  have "schedule_loop tid byName al ss (ids(w_name s \<mapsto> tid (length subs))) (subs @ [submission_of tid byName al order s]) =
    Inr ((subs @ [submission_of tid byName al order s]) @ map (submission_of tid byName al order) ss)"
  proof (rule Cons.IH [where pre = "pre @ [s]"])
    show "\<forall>j < length (pre @ [s]). (ids(w_name s \<mapsto> tid (length subs))) (w_name (order ! j)) = Some (tid j)"
    proof (intro allI impI)
      fix j assume j: "j < length (pre @ [s])"
      show "(ids(w_name s \<mapsto> tid (length subs))) (w_name (order ! j)) = Some (tid j)"
      proof (cases "j = ?i")
        case False
        then have "j < ?i" using j by simp
        moreover have "w_name (order ! j) \<noteq> w_name s"
          using step_pos_nth [OF Cons.prems(3), of j] step_pos_nth [OF Cons.prems(3) s(2)] s \<open>j < ?i\<close> by auto
        ultimately show ?thesis using Cons.prems(5) by simp
      qed (use s Cons.prems(2) in simp)
    qed
  qed (use Cons.prems in simp_all)
  then show ?case using d by (simp add: submission_of_def)
qed simp

lemma schedule_eq:
  assumes "distinct (map w_name order)" and "deps_before byName al order"
  shows "schedule tid order byName al = Inr (map (submission_of tid byName al order) order)"
    and "i < length order \<Longrightarrow> d \<in> set (w_deps (order ! i)) \<Longrightarrow> step_pos order (projr (resolveAlias d byName al)) < i"
proof -
  show "schedule tid order byName al = Inr (map (submission_of tid byName al order) order)"
    unfolding schedule_def using schedule_loop_eq [of order "[]" order "[]"] assms by simp
  show "step_pos order (projr (resolveAlias d byName al)) < i" if i: "i < length order" and d: "d \<in> set (w_deps (order ! i))"
  proof -
    obtain j where "j < i" "resolveAlias d byName al = Inr (w_name (order ! j))"
      using assms(2) i d unfolding deps_before_def by blast
    then show ?thesis using step_pos_nth [OF assms(1), of j] i by simp
  qed
qed

end
