(* ===== verification/PathName.thy ===== *)
theory PathName
  imports GoStrings
begin

text \<open>
  Slash-separated names of \<open>x/path/path.go\<close>, with the functions of Go's \<open>path\<close>
  package they call (\<open>std_...\<close>). A string is its bytes.
\<close>

section \<open>The standard library\<close>

definition std_IsAbs :: "string \<Rightarrow> bool" where
  "std_IsAbs s \<longleftrightarrow> s \<noteq> [] \<and> hd s = CHR ''/''"

text \<open>
  \<open>path.Clean\<close> works on the components of the name: empty ones and dots go, a double dot takes
  the component before it away, unless there is none, or only double dots.
\<close>

definition clean_step :: "bool \<Rightarrow> string \<Rightarrow> string list \<Rightarrow> string list" where
  "clean_step rooted c out =
     (if c = [] \<or> c = ''.'' then out
      else if c = ''..'' then
        (case out of
           [] \<Rightarrow> if rooted then [] else [c]
         | x # xs \<Rightarrow> if x = ''..'' then c # out else xs)
      else c # out)"

definition clean_comps :: "bool \<Rightarrow> string list \<Rightarrow> string list" where
  "clean_comps rooted cs = rev (fold (clean_step rooted) cs [])"

definition render :: "bool \<Rightarrow> string list \<Rightarrow> string" where
  "render rooted xs =
     (if rooted then CHR ''/'' # join_with (CHR ''/'') xs
      else if xs = [] then ''.'' else join_with (CHR ''/'') xs)"

definition std_Clean :: "string \<Rightarrow> string" where
  "std_Clean s = render (std_IsAbs s) (clean_comps (std_IsAbs s) (split_on (CHR ''/'') s))"

definition std_Join :: "string list \<Rightarrow> string" where
  "std_Join elems =
     (if list_all (\<lambda>e. e = []) elems then []
      else std_Clean (join_with (CHR ''/'') (dropWhile (\<lambda>e. e = []) elems)))"

definition std_Dir :: "string \<Rightarrow> string" where
  "std_Dir s = std_Clean (rev (dropWhile (\<lambda>c. c \<noteq> CHR ''/'') (rev s)))"

definition std_Base :: "string \<Rightarrow> string" where
  "std_Base s =
     (if s = [] then ''.''
      else (let t = dropWhile (\<lambda>c. c = CHR ''/'') (rev s); u = rev (takeWhile (\<lambda>c. c \<noteq> CHR ''/'') t)
            in if u = [] then ''/'' else u))"

definition std_Ext :: "string \<Rightarrow> string" where
  "std_Ext s =
     (let r = takeWhile (\<lambda>c. c \<noteq> CHR ''/'') (rev s)
      in if CHR ''.'' \<in> set r then CHR ''.'' # rev (takeWhile (\<lambda>c. c \<noteq> CHR ''.'') r) else [])"

text \<open>\<open>fs.ValidPath\<close>, with \<open>utf8.ValidString\<close> on the bytes.\<close>

fun utf8_valid :: "nat list \<Rightarrow> bool" where
  "utf8_valid [] = True"
| "utf8_valid (a # bs) =
     (let cont = (\<lambda>b. 128 \<le> b \<and> b < (192 :: nat)) in
      if a < 128 then utf8_valid bs
      else if 194 \<le> a \<and> a < 224 then
        (case bs of b # cs \<Rightarrow> cont b \<and> utf8_valid cs | _ \<Rightarrow> False)
      else if 224 \<le> a \<and> a < 240 then
        (case bs of b # c # cs \<Rightarrow>
           (if a = 224 then 160 \<le> b else True) \<and> (if a = 237 then b < 160 else True) \<and>
           cont b \<and> cont c \<and> utf8_valid cs | _ \<Rightarrow> False)
      else if 240 \<le> a \<and> a < 245 then
        (case bs of b # c # d # cs \<Rightarrow>
           (if a = 240 then 144 \<le> b else True) \<and> (if a = 244 then b < 144 else True) \<and>
           cont b \<and> cont c \<and> cont d \<and> utf8_valid cs | _ \<Rightarrow> False)
      else False)"

definition std_ValidPath :: "string \<Rightarrow> bool" where
  "std_ValidPath s \<longleftrightarrow>
     utf8_valid (map of_char s) \<and>
     (s = ''.'' \<or> list_all (\<lambda>c. c \<noteq> [] \<and> c \<noteq> ''.'' \<and> c \<noteq> ''..'') (split_on (CHR ''/'') s))"

section \<open>Paths\<close>

record path =
  p_s :: string

datatype path_error = RelError string string

fun start_loop :: "nat \<Rightarrow> string list \<Rightarrow> nat \<Rightarrow> nat" where
  "start_loop i [] start = start"
| "start_loop i (part # parts) start = start_loop (i + 1) parts (if std_IsAbs part then i else start)"

definition Path_New :: "string list \<Rightarrow> path" where
  "Path_New parts =
     (if parts = [] then \<lparr>p_s = ''.''\<rparr>
      else (let s = std_Join (drop (start_loop 0 parts 0) parts)
            in if s = [] then \<lparr>p_s = ''.''\<rparr> else \<lparr>p_s = s\<rparr>))"

definition Path_Join :: "path \<Rightarrow> string list \<Rightarrow> path" where
  "Path_Join p parts = (if parts = [] then p else Path_New (p_s p # parts))"

definition Parent :: "path \<Rightarrow> path" where
  "Parent p = \<lparr>p_s = std_Dir (p_s p)\<rparr>"

definition Name :: "path \<Rightarrow> string" where
  "Name p = std_Base (p_s p)"

definition Suffix :: "path \<Rightarrow> string" where
  "Suffix p = (let name = Name p; ext = std_Ext name in if ext = [] \<or> ext = name then [] else ext)"

definition Stem :: "path \<Rightarrow> string" where
  "Stem p = (if Suffix p \<noteq> [] then trim_suffix (Name p) (Suffix p) else Name p)"

lemma takeWhile_first: "c \<in> set xs \<Longrightarrow> \<exists>ys. xs = takeWhile (\<lambda>x. x \<noteq> c) xs @ c # ys"
  by (induction xs) auto

lemma std_Ext_append: "std_Ext s = [] \<or> (\<exists>b. s = b @ std_Ext s)"
proof (cases "std_Ext s = []")
  case False
  let ?P = "\<lambda>c. c \<noteq> CHR ''/''" and ?Q = "\<lambda>c. c \<noteq> CHR ''.''"
  let ?r = "takeWhile ?P (rev s)"
  have dot: "CHR ''.'' \<in> set ?r" and ext: "std_Ext s = CHR ''.'' # rev (takeWhile ?Q ?r)"
    using False by (auto simp: std_Ext_def Let_def split: if_splits)
  obtain d where "?r = takeWhile ?Q ?r @ CHR ''.'' # d" using takeWhile_first [OF dot] by auto
  moreover have "rev s = ?r @ dropWhile ?P (rev s)" by simp
  ultimately have "rev s = (takeWhile ?Q ?r @ CHR ''.'' # d) @ dropWhile ?P (rev s)" by simp
  then have "rev (rev s) = rev ((takeWhile ?Q ?r @ CHR ''.'' # d) @ dropWhile ?P (rev s))" by (rule arg_cong)
  then have "s = rev (d @ dropWhile ?P (rev s)) @ std_Ext s" unfolding ext by simp
  then show ?thesis by blast
qed simp

function suffixes_loop :: "string \<Rightarrow> string list" where
  "suffixes_loop name =
     (let ext = std_Ext name in
      if ext = [] \<or> ext = name then [] else ext # suffixes_loop (trim_suffix name ext))"
  by pat_completeness auto

termination
proof (relation "measure length")
  fix name x assume x: "x = std_Ext name" "\<not> (x = [] \<or> x = name)"
  then obtain b where b: "name = b @ x" using std_Ext_append [of name] by auto
  then have "trim_suffix name x = b" by simp
  then show "(trim_suffix name x, name) \<in> measure length" using b x(2) by simp
qed simp

declare suffixes_loop.simps [simp del]

definition Suffixes :: "path \<Rightarrow> string list" where
  "Suffixes p = rev (suffixes_loop (Name p))"

definition Parts :: "path \<Rightarrow> string list" where
  "Parts p =
     (let s = p_s p in
      if s = ''.'' \<or> s = [] then [''.'']
      else if s = ''/'' then [''/'']
      else if std_IsAbs s
      then ''/'' # (if tl s \<noteq> [] then split_on (CHR ''/'') (tl s) else [])
      else split_on (CHR ''/'') s)"

definition IsAbs :: "path \<Rightarrow> bool" where
  "IsAbs p = std_IsAbs (p_s p)"

definition Valid :: "path \<Rightarrow> bool" where
  "Valid p \<longleftrightarrow> p_s p = ''.'' \<or> std_ValidPath (p_s p)"

definition Path_Clean :: "path \<Rightarrow> path" where
  "Path_Clean p = \<lparr>p_s = std_Clean (p_s p)\<rparr>"

definition WithName :: "path \<Rightarrow> string \<Rightarrow> path" where
  "WithName p name = Path_Join (Parent p) [name]"

definition WithStem :: "path \<Rightarrow> string \<Rightarrow> path" where
  "WithStem p stem = Path_Join (Parent p) [stem @ Suffix p]"

definition WithSuffix :: "path \<Rightarrow> string \<Rightarrow> path" where
  "WithSuffix p suffix = Path_Join (Parent p) [Stem p @ suffix]"

definition relParts :: "string \<Rightarrow> string list" where
  "relParts s = (if s = ''.'' then [] else if s = ''/'' then [[]] else split_on (CHR ''/'') s)"

definition rel :: "string \<Rightarrow> string \<Rightarrow> path_error + string" where
  "rel base0 target0 =
     (let base = std_Clean base0; target = std_Clean target0 in
      if std_IsAbs base \<noteq> std_IsAbs target then Inl (RelError target base)
      else if base = target then Inr ''.''
      else
        (let bp = relParts base; tp = relParts target;
             i = length (takeWhile (\<lambda>(a, b). a = b) (zip bp tp))
         in if list_ex (\<lambda>c. c = ''..'') (drop i bp) then Inl (RelError target base)
            else (let out = map (\<lambda>_. ''..'') (drop i bp) @ drop i tp
                  in if out = [] then Inr ''.'' else Inr (join_with (CHR ''/'') out))))"

definition Rel :: "path \<Rightarrow> path \<Rightarrow> path_error + path" where
  "Rel p base = bind_result (rel (p_s base) (p_s p)) (\<lambda>s. Inr \<lparr>p_s = s\<rparr>)"


section \<open>Clean names\<close>

abbreviation slash :: char where
  "slash \<equiv> CHR ''/''"

text \<open>A component that stands for itself, and the lists of components a clean name has.\<close>

definition plain_comp :: "string \<Rightarrow> bool" where
  "plain_comp x \<longleftrightarrow> x \<noteq> [] \<and> x \<noteq> ''.'' \<and> slash \<notin> set x"

definition clean_list :: "bool \<Rightarrow> string list \<Rightarrow> bool" where
  "clean_list rooted xs \<longleftrightarrow>
     (\<forall>x \<in> set xs. plain_comp x) \<and>
     (\<exists>k ys. xs = replicate k ''..'' @ ys \<and> ''..'' \<notin> set ys \<and> (rooted \<longrightarrow> k = 0))"

lemma clean_list_Nil [simp]: "clean_list r []"
  by (simp add: clean_list_def)

lemma clean_list_snoc:
  assumes "clean_list r xs" and "plain_comp x" and "x \<noteq> ''..''"
  shows "clean_list r (xs @ [x])"
proof -
  obtain k ys where "xs = replicate k ''..'' @ ys" "''..'' \<notin> set ys" "r \<longrightarrow> k = 0"
    using assms(1) by (auto simp: clean_list_def)
  then have "xs @ [x] = replicate k ''..'' @ (ys @ [x])" "''..'' \<notin> set (ys @ [x])" using assms(3) by auto
  then show ?thesis using assms \<open>r \<longrightarrow> k = 0\<close> unfolding clean_list_def by (metis Un_iff set_append list.set(1) list.set(2) empty_iff insert_iff)
qed

lemma clean_list_butlast:
  assumes "clean_list r (xs @ [x])"
  shows "clean_list r xs" and "x = ''..'' \<Longrightarrow> xs = replicate (length xs) ''..'' \<and> \<not> r"
proof -
  obtain k ys where k: "xs @ [x] = replicate k ''..'' @ ys" "''..'' \<notin> set ys" "r \<longrightarrow> k = 0" and c: "\<forall>x \<in> set xs. plain_comp x"
    using assms by (auto simp: clean_list_def)
  have "clean_list r xs \<and> (x = ''..'' \<longrightarrow> xs = replicate (length xs) ''..'' \<and> \<not> r)"
  proof (cases ys rule: rev_cases)
    case Nil
    then obtain k' where k': "k = Suc k'" using k(1) by (cases k) auto
    moreover have "replicate (Suc k') ''..'' = replicate k' ''..'' @ [''..'']" by (simp add: replicate_append_same)
    ultimately have "xs = replicate k' ''..''" using k(1) Nil by simp
    then have "clean_list r xs" using c k(3) k' unfolding clean_list_def by (metis append_Nil2 empty_iff list.set(1) nat.distinct(1))
    then show ?thesis using \<open>xs = replicate k' ''..''\<close> k(3) k' by simp
  next
    case (snoc zs z)
    then have z: "xs = replicate k ''..'' @ zs" "x = z" "''..'' \<notin> set zs" "z \<noteq> ''..''" using k by auto
    then show ?thesis using c k(3) unfolding clean_list_def by blast
  qed
  then show "clean_list r xs" "x = ''..'' \<Longrightarrow> xs = replicate (length xs) ''..'' \<and> \<not> r" by blast+
qed

lemma clean_step_clean_list:
  assumes "clean_list r (rev out)" and "slash \<notin> set c"
  shows "clean_list r (rev (clean_step r c out))"
proof -
  consider (skip) "c = [] \<or> c = ''.''" | (up) "c = ''..''" | (push) "plain_comp c" "c \<noteq> ''..''"
    using assms(2) by (auto simp: plain_comp_def)
  then show ?thesis
  proof cases
    case up
    show ?thesis
    proof (cases out)
      case Nil
      have "clean_list False [''..'']" by (auto simp: clean_list_def plain_comp_def intro: exI [of _ "Suc 0"])
      then show ?thesis using up Nil by (simp add: clean_step_def)
    next
      case (Cons x xs)
      then have x: "clean_list r (rev xs @ [x])" using assms(1) by simp
      show ?thesis
      proof (cases "x = ''..''")
        case True
        then have "rev xs = replicate (length xs) ''..''" "\<not> r" using clean_list_butlast(2) [OF x] by simp_all
        then have "rev (c # out) = replicate (Suc (Suc (length xs))) ''..''"
          using up True Cons by (simp add: replicate_append_same)
        moreover have "clean_list r (replicate n ''..'')" for n
          using \<open>\<not> r\<close> unfolding clean_list_def plain_comp_def by (intro conjI exI [of _ n] exI [of _ "[]"]) auto
        ultimately have "clean_list r (rev (c # out))" by (simp only:)
        then show ?thesis using up True Cons by (simp add: clean_step_def)
      next
        case False
        then show ?thesis using clean_list_butlast(1) [OF x] up Cons by (simp add: clean_step_def)
      qed
    qed
  qed (use assms(1) clean_list_snoc in \<open>auto simp: clean_step_def plain_comp_def\<close>)
qed

lemma fold_clean_clean_list:
  assumes "clean_list r (rev out)" and "\<forall>c \<in> set cs. slash \<notin> set c"
  shows "clean_list r (rev (fold (clean_step r) cs out))"
  using assms by (induction cs arbitrary: out) (auto simp: clean_step_clean_list)

lemma clean_comps_clean_list: "clean_list r (clean_comps r (split_on slash s))"
  using fold_clean_clean_list [of r "[]" "split_on slash s"] by (auto simp: clean_comps_def dest: split_on_elems)

text \<open>Components of a clean name are pushed as they are.\<close>

lemma fold_clean_push: "clean_list r (xs @ ys) \<Longrightarrow> fold (clean_step r) ys (rev xs) = rev (xs @ ys)"
proof (induction ys arbitrary: xs)
  case (Cons y ys)
  have y: "clean_list r (xs @ [y])" using Cons.prems
  proof (induction ys rule: rev_induct)
    case (snoc z zs)
    then show ?case using clean_list_butlast(1) [of r "xs @ y # zs" z] by simp
  qed simp
  have cy: "y \<noteq> []" "y \<noteq> ''.''" using Cons.prems by (auto simp: clean_list_def plain_comp_def)
  have "clean_step r y (rev xs) = rev (xs @ [y])"
  proof (cases "y = ''..''")
    case True
    then have "\<forall>z \<in> set xs. z = ''..''" "\<not> r" using clean_list_butlast(2) [OF y] by (metis in_set_replicate, blast)
    then show ?thesis using True by (cases xs rule: rev_cases) (simp_all add: clean_step_def)
  qed (use cy in \<open>simp add: clean_step_def\<close>)
  then show ?case using Cons.IH [of "xs @ [y]"] Cons.prems by simp
qed simp

lemma fold_clean_pop:
  assumes "''..'' \<notin> set b"
  shows "fold (clean_step r) (map (\<lambda>_. ''..'') b) (rev b @ s) = s"
  using assms
proof (induction b rule: rev_induct)
  case (snoc x xs)
  have "map (\<lambda>_. ''..'') (xs @ [x]) = ''..'' # map (\<lambda>_. ''..'') xs" by (induction xs) auto
  moreover have "clean_step r ''..'' (x # rev xs @ s) = rev xs @ s" using snoc.prems by (auto simp: clean_step_def)
  ultimately show ?case using snoc by simp
qed simp

lemma clean_list_slash: "clean_list r xs \<Longrightarrow> \<forall>x \<in> set xs. slash \<notin> set x"
  by (simp add: clean_list_def plain_comp_def)

lemma hd_slash: "x \<noteq> [] \<Longrightarrow> slash \<notin> set x \<Longrightarrow> hd x \<noteq> slash"
  by (cases x) auto

lemma render_abs:
  assumes "clean_list r xs"
  shows "std_IsAbs (render r xs) = r" and "render r xs \<noteq> []"
proof -
  have "join_with slash xs \<noteq> [] \<and> hd (join_with slash xs) \<noteq> slash" if "xs \<noteq> []"
  proof (cases xs)
    case (Cons x ys)
    then have "plain_comp x" using assms by (simp add: clean_list_def)
    then have "x \<noteq> []" "hd x \<noteq> slash" by (auto simp: plain_comp_def dest: hd_slash)
    then show ?thesis using Cons by (cases ys) auto
  qed (use that in simp)
  then show "std_IsAbs (render r xs) = r" "render r xs \<noteq> []" by (auto simp: render_def std_IsAbs_def)
qed

text \<open>The components of a clean name, as \<open>Clean\<close> reads them.\<close>

lemma split_render:
  assumes "clean_list r xs"
  shows "fold (clean_step r) (split_on slash (render r xs)) [] = rev xs"
  using split_join [of xs slash] clean_list_slash [OF assms] fold_clean_push [of r "[]" xs] assms
  by (cases "xs = []") (auto simp: render_def clean_step_def)

lemma Clean_render: "clean_list r xs \<Longrightarrow> std_Clean (render r xs) = render r xs"
  by (simp add: std_Clean_def render_abs clean_comps_def split_render)

lemma Clean_is_render: "\<exists>xs. clean_list (std_IsAbs s) xs \<and> std_Clean s = render (std_IsAbs s) xs"
  using clean_comps_clean_list by (auto simp: std_Clean_def)

lemma Clean_idem: "std_Clean (std_Clean s) = std_Clean s"
  using Clean_is_render [of s] Clean_render by auto

lemma Clean_abs: "std_IsAbs (std_Clean s) = std_IsAbs s"
  using Clean_is_render [of s] render_abs(1) by metis

lemma render_inj:
  assumes "clean_list r xs" and "clean_list r' ys" and "render r xs = render r' ys"
  shows "r' = r \<and> ys = xs"
proof -
  have "r' = r" using render_abs(1) [OF assms(1)] render_abs(1) [OF assms(2)] assms(3) by simp
  moreover have "rev xs = rev ys"
    using split_render [OF assms(1)] split_render [OF assms(2)] assms(3) \<open>r' = r\<close> by simp
  ultimately show ?thesis by simp
qed

section \<open>Relative names\<close>

lemma join_plain:
  assumes "clean_list r xs" and "xs \<noteq> []"
  shows "join_with slash xs \<noteq> ''.''" and "join_with slash xs \<noteq> ''/''" and "join_with slash xs \<noteq> []"
proof -
  have ne: "join_with slash xs \<noteq> u" if "split_on slash u \<noteq> xs" for u
    using split_join [OF assms(2) clean_list_slash [OF assms(1)]] that by blast
  have p: "\<forall>x \<in> set xs. x \<noteq> [] \<and> x \<noteq> ''.''" using assms(1) by (simp add: clean_list_def plain_comp_def)
  show "join_with slash xs \<noteq> ''.''" "join_with slash xs \<noteq> ''/''" "join_with slash xs \<noteq> []"
    using p by (intro ne; auto)+
qed

lemma relParts_render:
  assumes "clean_list r xs"
  shows "relParts (render r xs) = (if r then [[]] else []) @ xs"
proof (cases "xs = []")
  case False
  note j = split_join [OF False clean_list_slash [OF assms]]
  note ne = join_plain [OF assms False]
  show ?thesis using ne j False by (simp add: relParts_def render_def)
qed (simp add: relParts_def render_def)

lemma takeWhile_zip_prefix:
  "take (length (takeWhile (\<lambda>(a, b). a = b) (zip xs ys))) xs = take (length (takeWhile (\<lambda>(a, b). a = b) (zip xs ys))) ys"
  by (induction xs ys rule: list_induct2') auto

text \<open>The result in components: double dots for what is left of the base, then the rest of the target.\<close>

lemma rel_components:
  assumes r: "rel s t = Inr d" and b: "std_Clean s = render r bs" "clean_list r bs" and tt: "std_Clean t = render r' ts" "clean_list r' ts"
  obtains p b' t' where "r' = r" "bs = p @ b'" "ts = p @ t'" "''..'' \<notin> set b'"
    "d = render False (map (\<lambda>_. ''..'') b' @ t')"
proof -
  have "r' = r" using r b tt render_abs(1) by (auto simp: rel_def Let_def split: if_splits)
  show thesis
  proof (cases "std_Clean s = std_Clean t")
    case True
    then have "ts = bs" "d = ''.''" using r b tt render_inj by (auto simp: rel_def)
    then show thesis using that [of bs "[]" "[]"] \<open>r' = r\<close> by (simp add: render_def)
  next
    case False
    let ?bp = "(if r then [[]] else []) @ bs" and ?tp = "(if r then [[]] else []) @ ts"
    let ?i = "length (takeWhile (\<lambda>(a, b). a = b) (zip ?bp ?tp))"
    let ?j = "length (takeWhile (\<lambda>(a, b). a = b) (zip bs ts))"
    have i: "?i = (if r then Suc ?j else ?j)" by simp
    have d: "drop ?i ?bp = drop ?j bs" "drop ?i ?tp = drop ?j ts" by (simp_all add: i)
    have pp: "relParts (std_Clean s) = ?bp" "relParts (std_Clean t) = ?tp"
      using relParts_render b tt \<open>r' = r\<close> by simp_all
    have nd: "''..'' \<notin> set (drop ?j bs)" and
      dd: "d = render False (map (\<lambda>_. ''..'') (drop ?j bs) @ drop ?j ts)"
      using r False unfolding rel_def Let_def pp d by (auto simp: list_ex_iff render_def split: if_splits)
    show thesis
      by (rule that [of "take ?j bs" "drop ?j bs" "drop ?j ts"])
         (use \<open>r' = r\<close> nd dd takeWhile_zip_prefix [of bs ts] in \<open>simp_all add: append_take_drop_id\<close>, metis append_take_drop_id)
  qed
qed

lemma not_abs_render: "\<forall>x \<in> set xs. x \<noteq> [] \<and> slash \<notin> set x \<Longrightarrow> \<not> std_IsAbs (render False xs)"
proof (cases xs)
  case (Cons x ys)
  moreover assume "\<forall>x \<in> set xs. x \<noteq> [] \<and> slash \<notin> set x"
  ultimately have "x \<noteq> []" "hd x \<noteq> slash" by (auto dest: hd_slash)
  then show ?thesis using Cons by (cases ys) (auto simp: render_def std_IsAbs_def)
qed (simp add: render_def std_IsAbs_def)

lemma New_pair:
  assumes "b \<noteq> []" and "\<not> std_IsAbs d"
  shows "Path_New [b, d] = \<lparr>p_s = std_Clean (b @ slash # d)\<rparr>"
proof -
  have "std_Clean (b @ slash # d) \<noteq> []" using Clean_is_render render_abs(2) by metis
  then show ?thesis using assms by (simp add: Path_New_def std_Join_def Let_def)
qed

lemma split_render_plain:
  assumes "\<forall>x \<in> set xs. slash \<notin> set x"
  shows "fold (clean_step r) (split_on slash (render False xs)) out = fold (clean_step r) xs out"
  using split_join [of xs slash] assms by (cases "xs = []") (auto simp: render_def clean_step_def)

lemma rel_join:
  assumes "rel s t = Inr d"
  shows "Path_New [std_Clean s, d] = \<lparr>p_s = std_Clean t\<rparr>"
proof -
  obtain bs where b: "std_Clean s = render (std_IsAbs s) bs" "clean_list (std_IsAbs s) bs" using Clean_is_render by blast
  obtain ts where t: "std_Clean t = render (std_IsAbs t) ts" "clean_list (std_IsAbs t) ts" using Clean_is_render by blast
  let ?r = "std_IsAbs s"
  obtain p b' t' where p: "std_IsAbs t = ?r" "bs = p @ b'" "ts = p @ t'" "''..'' \<notin> set b'"
    "d = render False (map (\<lambda>_. ''..'') b' @ t')"
    using rel_components [OF assms b t] by blast
  let ?ds = "map (\<lambda>_. ''..'') b' @ t'"
  have ds: "\<forall>x \<in> set ?ds. x \<noteq> [] \<and> slash \<notin> set x" using t(2) p(3) by (auto simp: clean_list_def plain_comp_def)
  have na: "\<not> std_IsAbs d" using not_abs_render [OF ds] p(5) by simp
  have ne: "std_Clean s \<noteq> []" using b render_abs(2) by simp
  have ab: "std_IsAbs (std_Clean s @ slash # d) = ?r" using ne Clean_abs [of s] by (simp add: std_IsAbs_def)
  have "fold (clean_step ?r) (split_on slash (std_Clean s @ slash # d)) [] = fold (clean_step ?r) ?ds (rev bs)"
    using split_render [OF b(2)] b(1) split_render_plain [of ?ds] ds p(5) by (simp add: split_on_append)
  also have "\<dots> = fold (clean_step ?r) t' (rev p)" using fold_clean_pop [OF p(4), of ?r "rev p"] p(2) by simp
  also have "\<dots> = rev ts" using fold_clean_push [of ?r p t'] t(2) p(1,3) by simp
  finally have "std_Clean (std_Clean s @ slash # d) = std_Clean t"
    using ab t p(1) by (simp add: std_Clean_def clean_comps_def)
  then show ?thesis using New_pair [OF ne na] by simp
qed

text \<open>Names made by \<open>New\<close> are clean; a relative name exists unless the base climbs out of sight.\<close>

lemma New_clean: "std_Clean (p_s (Path_New parts)) = p_s (Path_New parts)"
proof -
  have "std_Clean ''.'' = ''.''" by (simp add: std_Clean_def clean_comps_def clean_step_def render_def std_IsAbs_def)
  then show ?thesis by (auto simp: Path_New_def Let_def std_Join_def Clean_idem)
qed

lemma Rel_join:
  assumes "std_Clean (p_s p) = p_s p" and "std_Clean (p_s base) = p_s base" and "Rel p base = Inr q"
  shows "Path_Join base [p_s q] = p"
  using assms rel_join [of "p_s base" "p_s p" "p_s q"] by (auto simp: Rel_def Path_Join_def)

lemma Rel_succeeds:
  assumes "IsAbs p" and "IsAbs base"
  shows "\<exists>q. Rel p base = Inr q"
proof -
  obtain bs where b: "std_Clean (p_s base) = render True bs" "clean_list True bs"
    using Clean_is_render [of "p_s base"] assms(2) by (auto simp: IsAbs_def)
  have "''..'' \<notin> set bs" using b(2) by (auto simp: clean_list_def)
  then have "\<not> list_ex (\<lambda>c. c = ''..'') (drop i (relParts (std_Clean (p_s base))))" for i
    using relParts_render [OF b(2)] b(1) by (auto simp: list_ex_iff dest: in_set_dropD)
  then show ?thesis using assms by (auto simp: Rel_def rel_def Let_def Clean_abs IsAbs_def)
qed

section \<open>Stems, suffixes and parts\<close>

lemma stem_suffix: "Stem p @ Suffix p = Name p"
  using std_Ext_append [of "Name p"] trim_suffix_append by (auto simp: Stem_def Suffix_def Let_def) (metis trim_suffix_append)

lemma suffixes_concat: "\<exists>stem. n = stem @ concat (rev (suffixes_loop n))"
proof (induction n rule: suffixes_loop.induct)
  case (1 n)
  show ?case
  proof (cases "std_Ext n = [] \<or> std_Ext n = n")
    case False
    then obtain b where b: "n = b @ std_Ext n" using std_Ext_append by blast
    then have t: "trim_suffix n (std_Ext n) = b" by (metis trim_suffix_append)
    obtain st where "b = st @ concat (rev (suffixes_loop b))" using 1 [OF refl False] t by auto
    moreover have "suffixes_loop n = std_Ext n # suffixes_loop b" using False t by (subst suffixes_loop.simps) (simp add: Let_def)
    ultimately have "b @ std_Ext n = st @ concat (rev (suffixes_loop n))" by simp
    then show ?thesis using b by metis
  qed (subst suffixes_loop.simps, auto simp: Let_def)
qed


lemma start_loop_none: "\<forall>x \<in> set parts. \<not> std_IsAbs x \<Longrightarrow> start_loop i parts st = st"
  by (induction parts arbitrary: i) auto

lemma plain_comp_rel: "plain_comp x \<Longrightarrow> \<not> std_IsAbs x"
  by (auto simp: plain_comp_def std_IsAbs_def dest: hd_slash)

lemma Parts_render:
  assumes "clean_list r xs"
  shows "Parts \<lparr>p_s = render r xs\<rparr> = (if r then ''/'' # xs else if xs = [] then [''.''] else xs)"
proof (cases "xs = []")
  case False
  note j = split_join [OF False clean_list_slash [OF assms]]
  note ne = join_plain [OF assms False]
  show ?thesis using ne j False render_abs(1) [OF assms] by (auto simp: Parts_def render_def)
qed (simp add: Parts_def render_def)

lemma New_Parts:
  assumes "std_Clean (p_s p) = p_s p"
  shows "Path_New (Parts p) = p"
proof -
  obtain r xs where x: "clean_list r xs" "p_s p = render r xs" using Clean_is_render [of "p_s p"] assms by metis
  then have parts: "Parts p = (if r then ''/'' # xs else if xs = [] then [''.''] else xs)"
    using Parts_render [OF x(1)] by (cases p) simp
  have cx: "\<forall>x \<in> set xs. \<not> std_IsAbs x" "\<forall>x \<in> set xs. x \<noteq> []" using x(1) plain_comp_rel by (auto simp: clean_list_def plain_comp_def)
  have st: "start_loop 0 (Parts p) 0 = 0"
    using cx start_loop_none [of xs] by (simp add: parts)
  have ne: "Parts p \<noteq> []" "hd (Parts p) \<noteq> []" using cx(2) by (auto simp: parts)
  then have dw: "dropWhile (\<lambda>e. e = []) (Parts p) = Parts p" "\<not> list_all (\<lambda>e. e = []) (Parts p)"
    by (cases "Parts p"; simp)+
  have ab: "std_IsAbs (join_with slash (Parts p)) = r"
    using render_abs(1) [OF x(1)] by (cases xs) (auto simp: parts render_def std_IsAbs_def)
  have "fold (clean_step r) (split_on slash (join_with slash (Parts p))) [] = rev xs"
  proof (cases "r \<and> xs \<noteq> []")
    case True
    then obtain y ys where "xs = y # ys" by (cases xs) auto
    then have "join_with slash (Parts p) = ''/'' @ slash # join_with slash xs" using True parts by simp
    then have "split_on slash (join_with slash (Parts p)) = [[], []] @ xs"
      using split_join [of xs slash] clean_list_slash [OF x(1)] True by (simp only: split_on_append) simp
    then show ?thesis using fold_clean_push [of r "[]" xs] x(1) by (simp add: clean_step_def)
  next
    case False
    then have "join_with slash (Parts p) = render r xs" by (auto simp: parts render_def)
    then show ?thesis using split_render [OF x(1)] by simp
  qed
  then have "std_Clean (join_with slash (Parts p)) = render r xs" using ab by (simp add: std_Clean_def clean_comps_def)
  then show ?thesis using st ne dw x render_abs(2) [OF x(1)] by (simp add: Path_New_def std_Join_def Let_def)
qed

end
