(* ===== verification/WorkflowRun.thy ===== *)
theory WorkflowRun
  imports Workflow PathName
begin

text \<open>
  Running the steps of \<open>x/workflow\<close>: host paths and output directories, the up-to-date test, the
  tasks of a step, the error of a future and environments (\<open>step.go\<close>, \<open>workflow.go\<close>).

  The file system is given by \<open>stat\<close>, the modification time of a file or \<^const>\<open>None\<close> when the stat
  fails, and \<open>mkdirAll\<close>, the error of making a directory. Host paths are those of Unix, where
  \<open>filepath\<close> and \<open>path\<close> agree; \<open>windows\<close> is the test \<open>GOOS == "windows"\<close> of \<open>StatOutput\<close>.
\<close>

section \<open>Host paths\<close>

definition Join_host :: "string \<Rightarrow> string \<Rightarrow> string" where
  "Join_host dir name =
     (if name = [] then []
      else if std_IsAbs name then name
      else
        (let p = Path_New [name] in
         if IsAbs p then p_s p
         else if dir = [] then name
         else if p_s p = ''.'' then dir
         else std_Join [dir, p_s p]))"

definition outputParent :: "string \<Rightarrow> string \<Rightarrow> string" where
  "outputParent dir name =
     (if name = [] then []
      else if std_IsAbs name then std_Dir name
      else
        (let p = Path_New [name] in
         if IsAbs p \<or> \<not> Valid p then std_Dir (Join_host dir name)
         else
           (let parent = Parent p in
            if p_s parent = ''.'' then (if dir = [] then ''.'' else dir)
            else if dir = [] then p_s parent
            else std_Join [dir, p_s parent])))"

fun mkdirOutputs :: "(string \<Rightarrow> 'e option) \<Rightarrow> string \<Rightarrow> string list \<Rightarrow> 'e option" where
  "mkdirOutputs mkdirAll dir [] = None"
| "mkdirOutputs mkdirAll dir (out # outs) =
     (let parent = outputParent dir out in
      if parent = [] \<or> parent = ''.'' then mkdirOutputs mkdirAll dir outs
      else (case mkdirAll parent of Some e \<Rightarrow> Some e | None \<Rightarrow> mkdirOutputs mkdirAll dir outs))"

definition StatOutput :: "bool \<Rightarrow> (string \<Rightarrow> nat option) \<Rightarrow> string \<Rightarrow> nat option" where
  "StatOutput windows stat p =
     (let info = stat p in
      if info \<noteq> None \<or> \<not> windows \<or> has_suffix (ToLower p) ''.exe'' then info
      else (case stat (p @ ''.exe'') of None \<Rightarrow> info | Some t \<Rightarrow> Some t))"

section \<open>Steps\<close>

text \<open>
  The up-to-date test; \<open>rebuilt\<close> is the map of names the runtime marked. The zero time before
  the first output is \<^const>\<open>None\<close>; a step with outputs always has read one.
\<close>

fun oldest_output :: "(string \<Rightarrow> nat option) \<Rightarrow> nat option \<Rightarrow> string list \<Rightarrow> nat option option" where
  "oldest_output statOut oldest [] = Some oldest"
| "oldest_output statOut oldest (out # outs) =
     (case statOut out of
        None \<Rightarrow> None
      | Some t \<Rightarrow>
          oldest_output statOut
            (Some (case oldest of None \<Rightarrow> t | Some o1 \<Rightarrow> if t < o1 then t else o1)) outs)"

definition stale :: "bool \<Rightarrow> (string \<Rightarrow> nat option) \<Rightarrow> string \<Rightarrow> step \<Rightarrow> string set \<Rightarrow> bool" where
  "stale windows stat dir s rebuilt \<longleftrightarrow>
     (if w_phony s \<or> w_outputs s = [] then w_tasks s \<noteq> []
      else if list_ex (\<lambda>d. d \<in> rebuilt) (w_deps s) then True
      else
        (case oldest_output (\<lambda>out. StatOutput windows stat (Join_host dir out)) None (w_outputs s) of
           None \<Rightarrow> True
         | Some None \<Rightarrow> False
         | Some (Some oldest) \<Rightarrow>
             list_ex (\<lambda>i. case stat (Join_host dir i) of None \<Rightarrow> True | Some t \<Rightarrow> t > oldest) (w_inputs s)))"

text \<open>
  \<open>runStep\<close>: the tasks run in order while they succeed (\<open>task work n\<close> is the error of task \<open>n\<close> in
  the directory \<open>work\<close>); the result is the error, if any, the tasks started and the marks.
\<close>

fun run_tasks :: "(nat \<Rightarrow> 'e option) \<Rightarrow> nat option list \<Rightarrow> 'e option \<times> nat list" where
  "run_tasks task [] = (None, [])"
| "run_tasks task (None # ts) = run_tasks task ts"
| "run_tasks task (Some n # ts) =
     (case task n of
        Some e \<Rightarrow> (Some e, [n])
      | None \<Rightarrow> (let (r, started) = run_tasks task ts in (r, n # started)))"

definition runStep :: "bool \<Rightarrow> (string \<Rightarrow> nat option) \<Rightarrow> (string \<Rightarrow> 'e option) \<Rightarrow> (string \<Rightarrow> nat \<Rightarrow> 'e option)
    \<Rightarrow> string \<Rightarrow> step \<Rightarrow> string set \<Rightarrow> 'e option \<times> nat list \<times> string set" where
  "runStep windows stat mkdirAll task dir s rebuilt =
     (let work = (if w_dir s = [] then dir else w_dir s) in
      if \<not> stale windows stat work s rebuilt then (None, [], rebuilt)
      else if w_tasks s = [] then (None, [], rebuilt)
      else
        (case mkdirOutputs mkdirAll work (w_outputs s) of
           Some e \<Rightarrow> (Some e, [], rebuilt)
         | None \<Rightarrow>
             (case run_tasks (task work) (w_tasks s) of
                (Some e, started) \<Rightarrow> (Some e, started, rebuilt)
              | (None, started) \<Rightarrow> (None, started, insert (w_name s) rebuilt))))"

text \<open>\<open>Future.Wait\<close>: fold the errors of the tasks; \<open>cancelled\<close> is \<open>errors.Is(_, context.Canceled)\<close>.\<close>

fun wait_loop :: "('e \<Rightarrow> bool) \<Rightarrow> 'e option \<Rightarrow> 'e option list \<Rightarrow> 'e option" where
  "wait_loop cancelled err [] = err"
| "wait_loop cancelled err (None # ws) = wait_loop cancelled err ws"
| "wait_loop cancelled err (Some werr # ws) =
     wait_loop cancelled
       (if err = None \<or> (cancelled (the err) \<and> \<not> cancelled werr) then Some werr else err) ws"

definition Future_Wait :: "('e \<Rightarrow> bool) \<Rightarrow> 'e option list \<Rightarrow> 'e option" where
  "Future_Wait cancelled ws = wait_loop cancelled None ws"

text \<open>Environments: \<open>strings.Cut(kv, "=")\<close>, \<open>envIndex\<close> and \<open>mergeEnv\<close>.\<close>

definition cut_eq :: "string \<Rightarrow> string \<times> bool" where
  "cut_eq kv = (takeWhile (\<lambda>c. c \<noteq> CHR ''='') kv, CHR ''='' \<in> set kv)"

fun envIndex_loop :: "nat \<Rightarrow> string list \<Rightarrow> string \<Rightarrow> nat option" where
  "envIndex_loop i [] key = None"
| "envIndex_loop i (kv # env) key =
     (if has_prefix kv (key @ ''='') then Some i else envIndex_loop (i + 1) env key)"

definition envIndex :: "string list \<Rightarrow> string \<Rightarrow> nat option" where
  "envIndex env key = envIndex_loop 0 env key"

fun merge_loop_env :: "string list \<Rightarrow> (string \<rightharpoonup> nat) \<Rightarrow> string list \<Rightarrow> string list" where
  "merge_loop_env [] ix out = out"
| "merge_loop_env (kv # kvs) ix out =
     (let (key, ok) = cut_eq kv in
      if \<not> ok \<or> key = [] then merge_loop_env kvs ix out
      else
        (case ix key of
           Some i \<Rightarrow> merge_loop_env kvs ix (out[i := kv])
         | None \<Rightarrow>
             (case envIndex out key of
                Some i \<Rightarrow> merge_loop_env kvs (ix(key \<mapsto> i)) (out[i := kv])
              | None \<Rightarrow> merge_loop_env kvs (ix(key \<mapsto> length out)) (out @ [kv]))))"

definition mergeEnv :: "string list \<Rightarrow> string list \<Rightarrow> string list" where
  "mergeEnv base overlay = (if overlay = [] then base else merge_loop_env overlay Map.empty base)"

section \<open>Running steps\<close>

text \<open>The tasks that run: those before the first failure, and it.\<close>

lemma run_tasks_spec:
  "run_tasks task ts =
     (let ns = List.map_filter id ts; ok = takeWhile (\<lambda>n. task n = None) ns; rest = dropWhile (\<lambda>n. task n = None) ns
      in (if rest = [] then None else task (hd rest), ok @ take 1 rest))"
  by (induction task ts rule: run_tasks.induct) (auto simp: Let_def map_filter_simps split: option.splits)

lemma runStep_marks:
  assumes "runStep windows stat mkdirAll task dir s rebuilt = (err, started, rebuilt')"
  shows "rebuilt' = (if err = None \<and> w_tasks s \<noteq> [] \<and> stale windows stat (if w_dir s = [] then dir else w_dir s) s rebuilt
      then insert (w_name s) rebuilt else rebuilt)"
    and "\<not> stale windows stat (if w_dir s = [] then dir else w_dir s) s rebuilt \<Longrightarrow> started = [] \<and> err = None"
  using assms by (auto simp: runStep_def Let_def split: if_splits option.splits prod.splits)

text \<open>The up-to-date test sees a rebuilt dependency only under the name the step lists.\<close>

lemma stale_rebuilt:
  assumes "\<not> w_phony s" and "w_outputs s \<noteq> []"
  shows "stale windows stat dir s rebuilt \<longleftrightarrow> set (w_deps s) \<inter> rebuilt \<noteq> {} \<or> stale windows stat dir s {}"
  using assms by (auto simp: stale_def list_ex_iff)

section \<open>Waiting\<close>

lemma wait_loop_eq:
  "wait_loop cancelled err ws =
     (case find (\<lambda>e. \<not> cancelled e) (List.map_filter id (err # ws)) of
        Some e \<Rightarrow> Some e
      | None \<Rightarrow> (case List.map_filter id (err # ws) of [] \<Rightarrow> None | e # _ \<Rightarrow> Some e))"
  by (induction cancelled err ws rule: wait_loop.induct) (auto simp: map_filter_simps split: option.splits list.splits)


section \<open>Environments\<close>

text \<open>The entry of a key: the first one whose name, up to the equals sign, is the key.\<close>

definition env_key :: "string \<Rightarrow> string \<Rightarrow> bool" where
  "env_key key kv \<longleftrightarrow> cut_eq kv = (key, True)"

definition env_get :: "string list \<Rightarrow> string \<Rightarrow> string option" where
  "env_get env key = find (env_key key) env"

lemma has_prefix_key:
  assumes "CHR ''='' \<notin> set key"
  shows "has_prefix kv (key @ ''='') \<longleftrightarrow> env_key key kv"
proof
  assume "has_prefix kv (key @ ''='')"
  then have "take (length (key @ ''='')) kv = key @ ''=''" by (simp add: has_prefix_def)
  then have "kv = (key @ ''='') @ drop (length (key @ ''='')) kv" by (metis append_take_drop_id)
  then have "kv = key @ CHR ''='' # drop (length (key @ ''='')) kv" by simp
  then obtain r where r: "kv = key @ CHR ''='' # r" ..
  have "takeWhile (\<lambda>c. c \<noteq> CHR ''='') key = key" using assms by (simp add: takeWhile_eq_all_conv) metis
  then show "env_key key kv" using assms r by (auto simp: env_key_def cut_eq_def takeWhile_append)
next
  assume k: "env_key key kv"
  then obtain r where "kv = takeWhile (\<lambda>c. c \<noteq> CHR ''='') kv @ CHR ''='' # r"
    using takeWhile_first [of "CHR ''=''" kv] by (auto simp: env_key_def cut_eq_def)
  then have "kv = key @ CHR ''='' # r" using k by (simp add: env_key_def cut_eq_def)
  then show "has_prefix kv (key @ ''='')" by (simp add: has_prefix_def)
qed

lemma cut_key: "cut_eq kv = (key, True) \<Longrightarrow> CHR ''='' \<notin> set key"
  by (auto simp: cut_eq_def dest: set_takeWhileD)

lemma envIndex_loop_None:
  "CHR ''='' \<notin> set key \<Longrightarrow> envIndex_loop i env key = None \<longleftrightarrow> (\<forall>kv \<in> set env. \<not> env_key key kv)"
  by (induction env arbitrary: i) (auto simp: has_prefix_key)

lemma envIndex_loop_Some:
  assumes "CHR ''='' \<notin> set key"
  shows "envIndex_loop i env key = Some j \<Longrightarrow>
    i \<le> j \<and> j - i < length env \<and> env_key key (env ! (j - i)) \<and> (\<forall>m < j - i. \<not> env_key key (env ! m))"
proof (induction env arbitrary: i)
  case (Cons kv env)
  show ?case
  proof (cases "env_key key kv")
    case False
    then have "envIndex_loop (i + 1) env key = Some j" using Cons.prems has_prefix_key [OF assms] by simp
    note ih = Cons.IH [OF this]
    then have "j - i = Suc (j - (i + 1))" by linarith
    then show ?thesis using ih False by (auto simp: nth_Cons split: nat.splits)
  qed (use Cons.prems has_prefix_key [OF assms] in auto)
qed simp

lemma find_append: "find P (xs @ ys) = (case find P xs of Some x \<Rightarrow> Some x | None \<Rightarrow> find P ys)"
  by (induction xs) auto

text \<open>Writing the entry of one key at its place.\<close>

lemma env_get_update:
  assumes "i < length out" and "env_key key (out ! i)" and "\<forall>m < i. \<not> env_key key (out ! m)" and "env_key key kv"
  shows "env_get (out[i := kv]) k = (if k = key then Some kv else env_get out k)"
proof -
  have o: "out = take i out @ out ! i # drop (Suc i) out" by (rule id_take_nth_drop [OF assms(1)])
  have u: "out[i := kv] = take i out @ kv # drop (Suc i) out" by (rule upd_conv_take_nth_drop [OF assms(1)])
  have n: "find (env_key key) (take i out) = None" using assms(1,3) by (auto simp: find_None_iff in_set_conv_nth)
  have "\<not> env_key k kv" "\<not> env_key k (out ! i)" if "k \<noteq> key" using assms(2,4) that by (auto simp: env_key_def)
  then show ?thesis using n assms(4)
    by (subst (2) o) (auto simp: env_get_def u find_append split: option.split)
qed

lemma env_get_append:
  assumes "\<forall>x \<in> set out. \<not> env_key key x" and "env_key key kv"
  shows "env_get (out @ [kv]) k = (if k = key then Some kv else env_get out k)"
proof -
  have "find (env_key key) out = None" using assms(1) by (simp add: find_None_iff)
  moreover have "\<not> env_key k kv" if "k \<noteq> key" using assms(2) that by (auto simp: env_key_def)
  ultimately show ?thesis using assms(2) by (auto simp: env_get_def find_append split: option.split)
qed

definition ix_ok :: "(string \<rightharpoonup> nat) \<Rightarrow> string list \<Rightarrow> bool" where
  "ix_ok ix out \<longleftrightarrow> (\<forall>key i. ix key = Some i \<longrightarrow>
     i < length out \<and> env_key key (out ! i) \<and> (\<forall>m < i. \<not> env_key key (out ! m)))"

lemma ix_ok_update:
  assumes "ix_ok ix out" and "i < length out" and "env_key key (out ! i)" and "env_key key kv" and "\<forall>m < i. \<not> env_key key (out ! m)"
  shows "ix_ok (ix(key \<mapsto> i)) (out[i := kv])" and "ix_ok ix (out[i := kv])"
proof -
  have k: "env_key k (out[i := kv] ! m) = env_key k (out ! m)" if "m < length out" for k m
    using assms(3,4) that by (cases "m = i") (auto simp: env_key_def)
  have up: "ix_ok ix' (out[i := kv])" if "ix_ok ix' out" for ix'
    unfolding ix_ok_def
  proof (intro allI impI)
    fix k2 j assume "ix' k2 = Some j"
    then have "j < length out" "env_key k2 (out ! j)" "\<forall>m < j. \<not> env_key k2 (out ! m)"
      using that by (simp_all add: ix_ok_def)
    then show "j < length (out[i := kv]) \<and> env_key k2 (out[i := kv] ! j) \<and> (\<forall>m < j. \<not> env_key k2 (out[i := kv] ! m))"
      by (simp add: k)
  qed
  show "ix_ok ix (out[i := kv])" by (rule up [OF assms(1)])
  show "ix_ok (ix(key \<mapsto> i)) (out[i := kv])" by (rule up) (use assms in \<open>simp add: ix_ok_def\<close>)
qed

lemma ix_ok_append:
  assumes "ix_ok ix out" and "\<forall>x \<in> set out. \<not> env_key key x" and "env_key key kv"
  shows "ix_ok (ix(key \<mapsto> length out)) (out @ [kv])"
  unfolding ix_ok_def
proof (intro allI impI)
  fix k2 j assume j: "(ix(key \<mapsto> length out)) k2 = Some j"
  show "j < length (out @ [kv]) \<and> env_key k2 ((out @ [kv]) ! j) \<and> (\<forall>m < j. \<not> env_key k2 ((out @ [kv]) ! m))"
  proof (cases "k2 = key")
    case False
    then have "j < length out" "env_key k2 (out ! j)" "\<forall>m < j. \<not> env_key k2 (out ! m)"
      using j assms(1) by (simp_all add: ix_ok_def)
    then show ?thesis by (simp add: nth_append)
  qed (use j assms(2,3) in \<open>simp add: nth_append\<close>)
qed

lemma merge_loop_get:
  assumes "ix_ok ix out"
  shows "env_get (merge_loop_env kvs ix out) k =
    (if k = [] then env_get out k
     else case find (env_key k) (rev kvs) of Some kv \<Rightarrow> Some kv | None \<Rightarrow> env_get out k)"
  using assms
proof (induction kvs arbitrary: ix out)
  case (Cons kv kvs)
  obtain key ok where c: "cut_eq kv = (key, ok)" by (cases "cut_eq kv")
  have rv: "find (env_key k) (rev (kv # kvs)) = (case find (env_key k) (rev kvs) of Some x \<Rightarrow> Some x
      | None \<Rightarrow> if env_key k kv then Some kv else None)" by (simp add: find_append split: option.split)
  show ?case
  proof (cases "\<not> ok \<or> key = []")
    case True
    then have "env_key k kv \<Longrightarrow> k = []" using c by (auto simp: env_key_def)
    then show ?thesis using True Cons c rv by (auto split: option.splits)
  next
    case False
    then have kk: "env_key key kv" and ne: "key \<noteq> []" and nq: "CHR ''='' \<notin> set key" using c cut_key by (auto simp: env_key_def)
    have one: ?thesis
      if "merge_loop_env (kv # kvs) ix out = merge_loop_env kvs ix' out'" "ix_ok ix' out'"
        "env_get out' k = (if k = key then Some kv else env_get out k)" for ix' out'
    proof -
      have "env_key k kv \<longleftrightarrow> k = key" using kk by (auto simp: env_key_def)
      then show ?thesis unfolding that(1) Cons.IH [OF that(2)] rv that(3) using ne
        by (cases "find (env_key k) (rev kvs)") auto
    qed
    show ?thesis
    proof (cases "ix key")
      case (Some i)
      then have i: "i < length out" "env_key key (out ! i)" "\<forall>m < i. \<not> env_key key (out ! m)"
        using Cons.prems by (auto simp: ix_ok_def)
      show ?thesis
        by (rule one [of ix "out[i := kv]"])
           (use Some c False ix_ok_update(2) [OF Cons.prems i(1,2) kk i(3)] env_get_update [OF i kk] in auto)
    next
      case None
      show ?thesis
      proof (cases "envIndex out key")
        case (Some i)
        then have i: "i < length out" "env_key key (out ! i)" "\<forall>m < i. \<not> env_key key (out ! m)"
          using envIndex_loop_Some [OF nq, of 0 out i] by (simp_all add: envIndex_def)
        show ?thesis
          by (rule one [of "ix(key \<mapsto> i)" "out[i := kv]"])
             (use Some None c False ix_ok_update(1) [OF Cons.prems i(1,2) kk i(3)] env_get_update [OF i kk] in auto)
      next
        case none: None
        then have a: "\<forall>x \<in> set out. \<not> env_key key x" using envIndex_loop_None [OF nq] by (simp add: envIndex_def)
        have ixa: "ix_ok (ix(key \<mapsto> length out)) (out @ [kv])" by (rule ix_ok_append [OF Cons.prems a kk])
        show ?thesis
          by (rule one [of "ix(key \<mapsto> length out)" "out @ [kv]"])
             (use none None c False env_get_append [OF a kk] ixa in auto)
      qed
    qed
  qed
qed simp

lemma mergeEnv_get:
  "env_get (mergeEnv base overlay) k =
    (if k = [] then env_get base k
     else case find (env_key k) (rev overlay) of Some kv \<Rightarrow> Some kv | None \<Rightarrow> env_get base k)"
  using merge_loop_get [of Map.empty base overlay k] by (auto simp: mergeEnv_def ix_ok_def)

end
