(* ===== verification/NinjaParse.thy ===== *)
theory NinjaParse
  imports WorkflowRun
begin

text \<open>
  The ninja front end of \<open>x/workflow\<close> (\<open>ninja/expand.go\<close>, \<open>ninja/parse.go\<close>): expansion of variables, tokens, and
  the reader of build files. Files are given by \<open>read\<close>. Expansion and reading recurse as deep as the
  input says, so they are partial functions: \<^const>\<open>None\<close> is not returning. A cancelled context is
  not modelled; errors are told apart by their kind, not by their message.
\<close>

section \<open>Expansion\<close>

datatype nj_error = NjSyntax | NjCycle string | NjNoTarget | NjRead nat

definition nameChar :: "char \<Rightarrow> bool" where
  "nameChar c \<longleftrightarrow> (let n = (of_char c :: nat) in c = CHR ''_'' \<or> c = CHR ''-'' \<or> 97 \<le> n \<and> n \<le> 122 \<or> 65 \<le> n \<and> n \<le> 90 \<or> 48 \<le> n \<and> n \<le> 57)"

text \<open>
  The bytes an escaped space, colon and bar are kept as until the line is cut into tokens.
\<close>

abbreviation kept_space :: char where "kept_space \<equiv> CHR 0x00"
abbreviation kept_colon :: char where "kept_colon \<equiv> CHR 0x01"
abbreviation kept_bar :: char where "kept_bar \<equiv> CHR 0x02"

text \<open>
  A variable is resolved to its text and whether that is literal. The names being expanded are a
  list: the code adds a name before it expands its text and deletes it after, so it passes a set down.
\<close>

type_synonym nj_resolve = "string \<Rightarrow> (string \<times> bool) option"

text \<open>What follows a dollar: a byte to write, a name and the rest, or an error.\<close>

datatype nj_piece = Byte char string | NameRef string string | Bad

definition dollar :: "bool \<Rightarrow> string \<Rightarrow> nj_piece" where
  "dollar keepSpace s =
     (case s of
        [] \<Rightarrow> Bad
      | c # t \<Rightarrow>
          if c = CHR ''$'' then Byte c t
          else if c = CHR '' '' then Byte (if keepSpace then kept_space else c) t
          else if c = CHR '':'' then Byte (if keepSpace then kept_colon else c) t
          else if c = CHR ''|'' then Byte (if keepSpace then kept_bar else c) t
          else if c = CHR ''{'' then (case Cut ''}'' t of None \<Rightarrow> Bad | Some (name, r) \<Rightarrow> NameRef name r)
          else if \<not> nameChar c then Bad
          else NameRef (takeWhile nameChar s) (dropWhile nameChar s))"

partial_function (option) expandDepth :: "nj_resolve \<Rightarrow> string list \<Rightarrow> bool \<Rightarrow> string \<Rightarrow> (nj_error + string) option" where
  "expandDepth resolve stack keepSpace s =
     (if s = [] then Some (Inr [])
      else if hd s \<noteq> CHR ''$'' then
        Option.bind (expandDepth resolve stack keepSpace (tl s))
          (\<lambda>x. case x of Inl e \<Rightarrow> Some (Inl e) | Inr out \<Rightarrow> Some (Inr (hd s # out)))
      else
        (case dollar keepSpace (tl s) of
           Bad \<Rightarrow> Some (Inl NjSyntax)
         | Byte b r \<Rightarrow>
             Option.bind (expandDepth resolve stack keepSpace r)
               (\<lambda>x. case x of Inl e \<Rightarrow> Some (Inl e) | Inr out \<Rightarrow> Some (Inr (b # out)))
         | NameRef name r \<Rightarrow>
             Option.bind
               (if name \<in> set stack then Some (Inl (NjCycle name))
                else
                  (case resolve name of
                     None \<Rightarrow> Some (Inr [])
                   | Some (val, literal) \<Rightarrow>
                       if literal then Some (Inr val) else expandDepth resolve (name # stack) keepSpace val))
               (\<lambda>x. case x of
                  Inl e \<Rightarrow> Some (Inl e)
                | Inr part \<Rightarrow>
                    Option.bind (expandDepth resolve stack keepSpace r)
                      (\<lambda>y. case y of Inl e \<Rightarrow> Some (Inl e) | Inr out \<Rightarrow> Some (Inr (part @ out))))))"

declare expandDepth.simps [code]

definition expandName :: "nj_resolve \<Rightarrow> string list \<Rightarrow> bool \<Rightarrow> string \<Rightarrow> (nj_error + string) option" where
  "expandName resolve stack keepSpace name =
     (if name \<in> set stack then Some (Inl (NjCycle name))
      else
        (case resolve name of
           None \<Rightarrow> Some (Inr [])
         | Some (val, literal) \<Rightarrow>
             if literal then Some (Inr val) else expandDepth resolve (name # stack) keepSpace val))"

definition nj_expand :: "string \<Rightarrow> nj_resolve \<Rightarrow> bool \<Rightarrow> (nj_error + string) option" where
  "nj_expand s resolve keepSpace = expandDepth resolve [] keepSpace s"

section \<open>Lines and tokens\<close>

definition restoreToken :: "string \<Rightarrow> string" where
  "restoreToken s = replace_char kept_bar (CHR ''|'') (replace_char kept_colon (CHR '':'') (replace_char kept_space (CHR '' '') s))"

definition flush_token :: "string \<Rightarrow> string list" where
  "flush_token b = (if b = [] then [] else [restoreToken b])"

fun tokens_loop :: "string \<Rightarrow> string \<Rightarrow> string list" where
  "tokens_loop b [] = flush_token b"
| "tokens_loop b (c # s) =
     (if c = CHR '' '' \<or> c = CHR 0x09 then flush_token b @ tokens_loop [] s
      else if c = CHR ''|'' then
        (if s \<noteq> [] \<and> hd s = CHR ''|'' then flush_token b @ ''||'' # tokens_loop [] (tl s)
         else flush_token b @ ''|'' # tokens_loop [] s)
      else if c = CHR '':'' then flush_token b @ '':'' # tokens_loop [] s
      else tokens_loop (b @ [c]) s)"

definition tokenize :: "string \<Rightarrow> string list" where
  "tokenize s = tokens_loop [] s"

fun continue_loop :: "string \<Rightarrow> string" where
  "continue_loop [] = []"
| "continue_loop [c] = [c]"
| "continue_loop (c # d # s) = (if c = CHR ''$'' \<and> d = CHR 0x0A then continue_loop s else c # continue_loop (d # s))"

definition joinContinued :: "string \<Rightarrow> string" where
  "joinContinued src = continue_loop (ReplaceAll src [CHR 0x0D, CHR 0x0A] [CHR 0x0A])"

definition is_blank :: "char \<Rightarrow> bool" where
  "is_blank c \<longleftrightarrow> c = CHR '' '' \<or> c = CHR 0x09"

definition stripComment :: "string \<Rightarrow> string" where
  "stripComment s = (if has_prefix (dropWhile is_blank s) ''#'' then [] else s)"

definition binding :: "string \<Rightarrow> (string \<times> string) option" where
  "binding trim =
     (case Cut ''='' trim of
        None \<Rightarrow> None
      | Some (key0, val) \<Rightarrow>
          (let key = TrimSpace key0 in
           if key = [] \<or> list_ex is_blank key then None
           else Some (key, if has_prefix val '' '' then tl val else val)))"

section \<open>The file\<close>

type_synonym nj_vars = "string \<rightharpoonup> string"

record nj_edge =
  e_outs :: "string list"
  e_explicit :: "string list"
  e_implicit :: "string list"
  e_order :: "string list"
  e_rule :: string
  e_vars :: nj_vars
  e_line :: nat

text \<open>\<open>f_scope\<close> is the outermost scope; it is filled in when the file has been read.\<close>

record nj_file =
  f_dir :: string
  f_scope :: nj_vars
  f_rules :: "string \<rightharpoonup> nj_vars"
  f_edges :: "nj_edge list"
  f_defaults :: "string list"

text \<open>A scope with its parents, the innermost first.\<close>

fun scope_get :: "nj_vars list \<Rightarrow> string \<Rightarrow> string option" where
  "scope_get [] name = None"
| "scope_get (m # sc) name = (case m name of Some v \<Rightarrow> Some v | None \<Rightarrow> scope_get sc name)"

definition scope_resolve :: "nj_vars list \<Rightarrow> nj_resolve" where
  "scope_resolve sc name = map_option (\<lambda>v. (v, False)) (scope_get sc name)"

fun outs_loop :: "bool \<Rightarrow> string list \<Rightarrow> string list \<Rightarrow> string list \<Rightarrow> (nj_error + (string list \<times> string list)) " where
  "outs_loop imp outs implicitOut [] = Inr (outs @ implicitOut, [])"
| "outs_loop imp outs implicitOut (t # toks) =
     (if t = '':'' then Inr (outs @ implicitOut, t # toks)
      else if t = ''|'' then outs_loop True outs implicitOut toks
      else if t = ''||'' then Inl NjSyntax
      else if imp then outs_loop imp outs (implicitOut @ [t]) toks
      else outs_loop imp (outs @ [t]) implicitOut toks)"

datatype nj_dst = Explicit | Implicit | Order

fun ins_loop :: "nj_dst \<Rightarrow> string list \<Rightarrow> string list \<Rightarrow> string list \<Rightarrow> string list \<Rightarrow> string list \<times> string list \<times> string list" where
  "ins_loop d ex im ord [] = (ex, im, ord)"
| "ins_loop d ex im ord (t # toks) =
     (if t = ''|'' then ins_loop Implicit ex im ord toks
      else if t = ''||'' then ins_loop Order ex im ord toks
      else
        (case d of
           Explicit \<Rightarrow> ins_loop d (ex @ [t]) im ord toks
         | Implicit \<Rightarrow> ins_loop d ex (im @ [t]) ord toks
         | Order \<Rightarrow> ins_loop d ex im (ord @ [t]) toks))"

definition build_edge :: "nat \<Rightarrow> string list \<Rightarrow> nj_error + nj_edge" where
  "build_edge no toks =
     bind_result (outs_loop False [] [] toks) (\<lambda>(outs, rest).
       if rest = [] \<or> outs = [] then Inl NjSyntax
       else
         (case tl rest of
            [] \<Rightarrow> Inl NjSyntax
          | rule # ins \<Rightarrow>
              (let (ex, im, ord) = ins_loop Explicit [] [] [] ins in
               Inr \<lparr>e_outs = outs, e_explicit = ex, e_implicit = im, e_order = ord, e_rule = rule, e_vars = Map.empty, e_line = no\<rparr>)))"

definition parseBuild :: "nat \<Rightarrow> string \<Rightarrow> nj_vars list \<Rightarrow> (nj_error + nj_edge) option" where
  "parseBuild no rest sc =
     map_option (\<lambda>x. bind_result x (\<lambda>expanded. build_edge no (tokenize expanded))) (nj_expand (TrimSpace rest) (scope_resolve sc) True)"

datatype nj_block = BlockNone | BlockRule string | BlockEdge | BlockPool

datatype nj_line = Fail nj_error | Next nj_block "nj_vars list" nj_file | IncludeFile bool string

text \<open>An indented line; the rule or edge that is open is the last one, by its name or its place.\<close>

definition parse_indented :: "string \<Rightarrow> nj_block \<Rightarrow> nj_vars list \<Rightarrow> nj_file \<Rightarrow> nj_line" where
  "parse_indented trim opn sc f =
     (case binding trim of
        None \<Rightarrow> Fail NjSyntax
      | Some (key, val) \<Rightarrow>
          (case opn of
             BlockRule r \<Rightarrow> Next opn sc (f\<lparr>f_rules := (f_rules f)(r \<mapsto> (the (f_rules f r))(key \<mapsto> val))\<rparr>)
           | BlockEdge \<Rightarrow>
               (let e = last (f_edges f) in
                Next opn sc (f\<lparr>f_edges := butlast (f_edges f) @ [e\<lparr>e_vars := (e_vars e)(key \<mapsto> val)\<rparr>]\<rparr>))
           | BlockPool \<Rightarrow> Next opn sc f
           | BlockNone \<Rightarrow> Fail NjSyntax))"

definition add_edge_line :: "nj_edge \<Rightarrow> nj_vars list \<Rightarrow> nj_file \<Rightarrow> nj_line" where
  "add_edge_line e sc f =
     (if e_rule e \<noteq> ''phony'' \<and> f_rules f (e_rule e) = None then Fail NjSyntax
      else Next BlockEdge sc (f\<lparr>f_edges := f_edges f @ [e]\<rparr>))"

definition parse_statement :: "nat \<Rightarrow> string \<Rightarrow> nj_vars list \<Rightarrow> nj_file \<Rightarrow> nj_line option" where
  "parse_statement no trim sc f =
     (let fields = Fields trim; kw = hd fields in
      if kw = ''rule'' then
        (if length fields \<noteq> 2 \<or> f_rules f (fields ! 1) \<noteq> None then Some (Fail NjSyntax)
         else Some (Next (BlockRule (fields ! 1)) sc (f\<lparr>f_rules := (f_rules f)(fields ! 1 \<mapsto> Map.empty)\<rparr>)))
      else if kw = ''build'' then
        map_option (\<lambda>x. case x of Inl e \<Rightarrow> Fail e | Inr e \<Rightarrow> add_edge_line e sc f) (parseBuild no (drop 5 trim) sc)
      else if kw = ''default'' then
        map_option (\<lambda>x. case x of Inl e \<Rightarrow> Fail e | Inr rest \<Rightarrow> Next BlockNone sc (f\<lparr>f_defaults := f_defaults f @ tokenize rest\<rparr>))
          (nj_expand (TrimSpace (drop 7 trim)) (scope_resolve sc) True)
      else if kw = ''include'' \<or> kw = ''subninja'' then
        map_option (\<lambda>x. case x of Inl e \<Rightarrow> Fail e
            | Inr expanded \<Rightarrow> IncludeFile (kw = ''subninja'') (TrimSpace (replace_char kept_space (CHR '' '') expanded)))
          (nj_expand (TrimSpace (drop (length kw) trim)) (scope_resolve sc) True)
      else if kw = ''pool'' then
        Some (if length fields \<noteq> 2 then Fail NjSyntax else Next BlockPool sc f)
      else
        Some (case binding trim of
          None \<Rightarrow> Fail NjSyntax
        | Some (name, val) \<Rightarrow> Next BlockNone ((hd sc)(name \<mapsto> val) # tl sc) f))"

definition parse_line :: "nat \<Rightarrow> string \<Rightarrow> nj_block \<Rightarrow> nj_vars list \<Rightarrow> nj_file \<Rightarrow> nj_line option" where
  "parse_line no line opn sc f =
     (if TrimSpace line = [] then Some (Next opn sc f)
      else
        (let trim = TrimSpace (stripComment line) in
         if trim = [] then Some (Next opn sc f)
         else if is_blank (hd line) then Some (parse_indented trim opn sc f)
         else parse_statement no trim sc f))"

text \<open>The loop over the lines of a file, and the files it includes in their place.\<close>

partial_function (option) parse_lines :: "(string \<Rightarrow> nat + string) \<Rightarrow> string \<Rightarrow> nat \<Rightarrow> string list \<Rightarrow> nj_block \<Rightarrow> nj_vars list
    \<Rightarrow> nj_file \<Rightarrow> (nj_error + nj_vars list \<times> nj_file) option" where
  "parse_lines read path no lines opn sc f =
     (if lines = [] then Some (Inr (sc, f))
      else
        (case parse_line no (hd lines) opn sc f of
           None \<Rightarrow> None
         | Some (Fail e) \<Rightarrow> Some (Inl e)
         | Some (Next opn' sc' f') \<Rightarrow> parse_lines read path (no + 1) (tl lines) opn' sc' f'
         | Some (IncludeFile sub rest) \<Rightarrow>
             (case read (Join_host (std_Dir path) rest) of
                Inl e \<Rightarrow> Some (Inl (NjRead e))
              | Inr data \<Rightarrow>
                  Option.bind
                    (parse_lines read (Join_host (std_Dir path) rest) 1 (split_on (CHR 0x0A) (joinContinued data)) BlockNone
                       (if sub then Map.empty # sc else sc) f)
                    (\<lambda>x. case x of
                       Inl e \<Rightarrow> Some (Inl e)
                     | Inr (sc', f') \<Rightarrow>
                         parse_lines read path (no + 1) (tl lines) BlockNone (if sub then tl sc' else sc') f'))))"

declare parse_lines.simps [code]

definition parseFile :: "(string \<Rightarrow> nat + string) \<Rightarrow> string \<Rightarrow> nj_vars list \<Rightarrow> nj_file \<Rightarrow> (nj_error + nj_vars list \<times> nj_file) option" where
  "parseFile read path sc f =
     (case read path of
        Inl e \<Rightarrow> Some (Inl (NjRead e))
      | Inr data \<Rightarrow> parse_lines read path 1 (split_on (CHR 0x0A) (joinContinued data)) BlockNone sc f)"

text \<open>\<open>path\<close> and \<open>work\<close> have been made absolute; an empty \<open>work\<close> is the directory of the file.\<close>

definition Load :: "(string \<Rightarrow> nat + string) \<Rightarrow> string \<Rightarrow> string \<Rightarrow> (nj_error + nj_file) option" where
  "Load read path work =
     (let f = \<lparr>f_dir = (if work = [] then std_Dir path else work), f_scope = Map.empty, f_rules = Map.empty, f_edges = [], f_defaults = []\<rparr>
      in map_option (\<lambda>x. bind_result x (\<lambda>(sc, f). Inr (f\<lparr>f_scope := hd sc\<rparr>))) (parseFile read path [Map.empty] f))"

section \<open>Expansion returns\<close>

lemma dollar_length:
  "dollar k s = Byte b r \<Longrightarrow> length r < length s" "dollar k s = NameRef n r \<Longrightarrow> length r < length s"
proof -
  have c: "Cut ''}'' t = Some (n, r) \<Longrightarrow> length r < Suc (length t)" for t using Cut_sound [of "''}''" t n r] by auto
  show "dollar k s = Byte b r \<Longrightarrow> length r < length s"
    by (auto simp: dollar_def split: list.splits if_splits option.splits)
  show "dollar k s = NameRef n r \<Longrightarrow> length r < length s"
    using c by (auto simp: dollar_def less_Suc_eq_le length_dropWhile_le split: list.splits if_splits option.splits)
qed

lemma expandDepth_Nil [simp]: "expandDepth rs st k [] = Some (Inr [])"
  by (simp add: expandDepth.simps [of _ _ _ "[]"])

text \<open>Each nested expansion is of a name that is not being expanded, so the depth is bounded by the number of variables.\<close>

lemma expandDepth_returns:
  assumes "finite N" and N: "\<And>n v. resolve n = Some (v, False) \<Longrightarrow> n \<in> N"
  shows "\<exists>r. expandDepth resolve stack k s = Some r"
proof (induction "card (N - set stack)" arbitrary: stack s rule: less_induct)
  case less
  show ?case
  proof (induction "length s" arbitrary: s rule: less_induct)
    case inner: less
    have name: "\<exists>x. expandName resolve stack k n = Some x" for n
    proof -
      have "\<exists>r. expandDepth resolve (n # stack) k v = Some r" if "n \<notin> set stack" "resolve n = Some (v, False)" for v
      proof (rule less.hyps)
        have "n \<in> N" using N that(2) .
        then have "N - set (n # stack) \<subset> N - set stack" using that(1) by auto
        then show "card (N - set (n # stack)) < card (N - set stack)" using assms(1) by (simp add: psubset_card_mono)
      qed
      then show ?thesis by (auto simp: expandName_def split: option.split)
    qed
    show ?case
    proof (cases "s = [] \<or> hd s \<noteq> CHR ''$''")
      case True
      then show ?thesis using inner(1) [of "tl s"] by (cases "s = []") (simp, auto simp: expandDepth.simps [of _ _ _ s] split: sum.split)
    next
      case False
      show ?thesis
      proof (cases "dollar k (tl s)")
        case Bad
        then show ?thesis using False by (simp add: expandDepth.simps [of _ _ _ s])
      next
        case (Byte b r)
        then have "length r < length s" using dollar_length(1) [OF Byte] False by (cases s) auto
        then show ?thesis using inner(1) [of r] False Byte by (auto simp: expandDepth.simps [of _ _ _ s] split: sum.split)
      next
        case (NameRef n r)
        then have "length r < length s" using dollar_length(2) [OF NameRef] False by (cases s) auto
        then obtain y where y: "expandDepth resolve stack k r = Some y" using inner(1) by blast
        obtain x where x: "expandName resolve stack k n = Some x" using name by blast
        show ?thesis using False NameRef y x by (auto simp: expandDepth.simps [of _ _ _ s] expandName_def split: sum.split)
      qed
    qed
  qed
qed

lemma nj_expand_returns:
  "finite N \<Longrightarrow> (\<And>n v. resolve n = Some (v, False) \<Longrightarrow> n \<in> N) \<Longrightarrow> \<exists>r. nj_expand s resolve k = Some r"
  unfolding nj_expand_def by (rule expandDepth_returns)

section \<open>Escaped text\<close>

text \<open>How a token is written so that it is read back, and what expansion makes of it.\<close>

definition special :: "char \<Rightarrow> bool" where
  "special c \<longleftrightarrow> c = CHR ''$'' \<or> c = CHR '' '' \<or> c = CHR '':'' \<or> c = CHR ''|''"

definition esc :: "string \<Rightarrow> string" where
  "esc t = concat (map (\<lambda>c. if special c then [CHR ''$'', c] else [c]) t)"

definition keep_char :: "char \<Rightarrow> char" where
  "keep_char c = (if c = CHR '' '' then kept_space else if c = CHR '':'' then kept_colon else if c = CHR ''|'' then kept_bar else c)"

lemma expand_plain:
  "c \<noteq> CHR ''$'' \<Longrightarrow> expandDepth rs st k t = Some (Inr out) \<Longrightarrow> expandDepth rs st k (c # t) = Some (Inr (c # out))"
  by (simp add: expandDepth.simps [of _ _ _ "c # t"])

lemma expand_special:
  "special c \<Longrightarrow> expandDepth rs st True t = Some (Inr out) \<Longrightarrow> expandDepth rs st True (CHR ''$'' # c # t) = Some (Inr (keep_char c # out))"
  by (auto simp: expandDepth.simps [of _ _ _ "CHR ''$'' # c # t"] dollar_def special_def keep_char_def)

lemma expand_esc:
  "expandDepth rs st True t = Some (Inr out) \<Longrightarrow> expandDepth rs st True (esc w @ t) = Some (Inr (map keep_char w @ out))"
proof (induction w)
  case (Cons c w)
  then have e: "expandDepth rs st True (esc w @ t) = Some (Inr (map keep_char w @ out))" by simp
  show ?case
  proof (cases "special c")
    case True
    then show ?thesis using expand_special [OF True e] by (simp add: esc_def)
  next
    case False
    then have "keep_char c = c" "c \<noteq> CHR ''$''" by (auto simp: special_def keep_char_def)
    then show ?thesis using expand_plain [of c, OF _ e] False by (simp add: esc_def)
  qed
qed (simp add: esc_def)

definition mark :: "string \<Rightarrow> bool" where
  "mark t \<longleftrightarrow> t = '':'' \<or> t = ''|'' \<or> t = ''||''"

definition write_token :: "string \<Rightarrow> string" where
  "write_token t = (if mark t then t else esc t)"

definition kept_token :: "string \<Rightarrow> string" where
  "kept_token t = (if mark t then t else map keep_char t)"

lemma expand_tokens: "expandDepth rs st True (join_with (CHR '' '') (map write_token ts)) = Some (Inr (join_with (CHR '' '') (map kept_token ts)))"
proof -
  have e: "expandDepth rs st True [] = Some (Inr [])" by simp
  have w: "expandDepth rs st True (write_token t @ r) = Some (Inr (kept_token t @ out))"
    if "expandDepth rs st True r = Some (Inr out)" for t r out
    using that expand_plain expand_esc by (auto simp: write_token_def kept_token_def mark_def)
  show ?thesis
  proof (induction ts rule: induct_list012)
    case (2 t)
    then show ?case using w [OF e, of t] by simp
  next
    case (3 t u ts)
    then show ?case using w [OF expand_plain [OF _ 3(2), of "CHR '' ''"], of t] by simp
  qed (simp add: e)
qed

text \<open>A token that can be written: not empty, none of the bytes used for escapes, no white space but spaces, no mark.\<close>

definition token_char :: "char \<Rightarrow> bool" where
  "token_char c \<longleftrightarrow> c \<noteq> kept_space \<and> c \<noteq> kept_colon \<and> c \<noteq> kept_bar \<and> (is_space c \<longrightarrow> c = CHR '' '')"

definition token_ok :: "string \<Rightarrow> bool" where
  "token_ok t \<longleftrightarrow> t \<noteq> [] \<and> list_all token_char t \<and> \<not> mark t"

lemma keep_char_word:
  assumes "token_char c"
  shows "keep_char c \<noteq> CHR '' '' \<and> keep_char c \<noteq> CHR 0x09 \<and> keep_char c \<noteq> CHR ''|'' \<and> keep_char c \<noteq> CHR '':''"
proof -
  have "is_space (CHR 0x09)" by code_simp
  then have "c \<noteq> CHR 0x09" using assms by (auto simp: token_char_def)
  then show ?thesis by (simp add: keep_char_def)
qed

lemma restore_keep: "list_all token_char t \<Longrightarrow> restoreToken (map keep_char t) = t"
  by (induction t) (auto simp: restoreToken_def replace_char_def keep_char_def token_char_def)

lemma tokenize_word:
  "list_all (\<lambda>c. c \<noteq> CHR '' '' \<and> c \<noteq> CHR 0x09 \<and> c \<noteq> CHR ''|'' \<and> c \<noteq> CHR '':'') w \<Longrightarrow> tokens_loop b (w @ s) = tokens_loop (b @ w) s"
  by (induction w arbitrary: b) auto

lemma keep_word:
  "list_all token_char t \<Longrightarrow> list_all (\<lambda>c. c \<noteq> CHR '' '' \<and> c \<noteq> CHR 0x09 \<and> c \<noteq> CHR ''|'' \<and> c \<noteq> CHR '':'') (map keep_char t)"
  by (induction t) (simp_all add: keep_char_word)

lemma tokenize_token:
  assumes "mark t \<or> token_ok t"
  shows "tokens_loop [] (kept_token t @ CHR '' '' # s) = t # tokens_loop [] s" and "tokens_loop [] (kept_token t) = [t]"
proof -
  show "tokens_loop [] (kept_token t @ CHR '' '' # s) = t # tokens_loop [] s"
  proof (cases "mark t")
    case True
    then show ?thesis by (auto simp: kept_token_def mark_def flush_token_def)
  next
    case False
    then have t: "token_ok t" using assms by simp
    then have "tokens_loop [] (map keep_char t @ CHR '' '' # s) = tokens_loop (map keep_char t) (CHR '' '' # s)"
      using tokenize_word [OF keep_word] by (simp add: token_ok_def)
    then show ?thesis using t False by (simp add: kept_token_def flush_token_def token_ok_def restore_keep)
  qed
  show "tokens_loop [] (kept_token t) = [t]"
  proof (cases "mark t")
    case True
    then show ?thesis by (auto simp: kept_token_def mark_def flush_token_def)
  next
    case False
    then have t: "token_ok t" using assms by simp
    then have "tokens_loop [] (map keep_char t @ []) = tokens_loop (map keep_char t) []"
      using tokenize_word [OF keep_word, of t "[]" "[]"] by (simp add: token_ok_def)
    then show ?thesis using t False by (simp add: kept_token_def flush_token_def token_ok_def restore_keep)
  qed
qed

lemma tokenize_tokens:
  "list_all (\<lambda>t. mark t \<or> token_ok t) ts \<Longrightarrow> tokenize (join_with (CHR '' '') (map kept_token ts)) = ts"
proof (induction ts rule: induct_list012)
  case (2 t)
  then show ?case using tokenize_token(2) by (simp add: tokenize_def)
next
  case (3 t u ts)
  then show ?case using tokenize_token(1) [of t "join_with (CHR '' '') (map kept_token (u # ts))"] by (simp add: tokenize_def)
qed (simp add: tokenize_def flush_token_def)

section \<open>Build lines are read back\<close>

definition edge_tokens :: "nj_edge \<Rightarrow> string list" where
  "edge_tokens e = e_outs e @ '':'' # e_rule e # e_explicit e @ ''|'' # e_implicit e @ ''||'' # e_order e"

definition write_build :: "nj_edge \<Rightarrow> string" where
  "write_build e = join_with (CHR '' '') (map write_token (edge_tokens e))"

definition edge_ok :: "nj_edge \<Rightarrow> bool" where
  "edge_ok e \<longleftrightarrow> e_outs e \<noteq> [] \<and> list_all token_ok (e_outs e @ e_rule e # e_explicit e @ e_implicit e @ e_order e) \<and>
     (e_order e \<noteq> [] \<longrightarrow> last (last (e_order e)) \<noteq> CHR '' '')"

lemma TrimSpace_id: "s \<noteq> [] \<Longrightarrow> \<not> is_space (hd s) \<Longrightarrow> \<not> is_space (last s) \<Longrightarrow> TrimSpace s = s"
proof -
  assume a: "s \<noteq> []" "\<not> is_space (hd s)" "\<not> is_space (last s)"
  then have "dropWhile is_space s = s" by (cases s) auto
  moreover have "dropWhile is_space (rev s) = rev s" using a by (cases s rule: rev_cases) auto
  ultimately show ?thesis by (simp add: TrimSpace_def)
qed

lemma space_chars: "is_space (CHR '' '')" "\<not> is_space (CHR ''$'')" "\<not> is_space (CHR '':'')" "\<not> is_space (CHR ''|'')"
  by code_simp+

lemma esc_ends:
  assumes "token_ok t"
  shows "esc t \<noteq> []" and "\<not> is_space (hd (esc t))" and "last (esc t) = last t"
proof -
  obtain c u where t: "t = c # u" using assms by (cases t) (auto simp: token_ok_def)
  then show "esc t \<noteq> []" by (simp add: esc_def)
  have "special c \<or> \<not> is_space c" using assms t by (auto simp: token_ok_def token_char_def special_def)
  then show "\<not> is_space (hd (esc t))" using t space_chars by (auto simp: esc_def)
  obtain d v where "t = v @ [d]" using assms by (cases t rule: rev_cases) (auto simp: token_ok_def)
  then show "last (esc t) = last t" by (simp add: esc_def)
qed

lemma write_token_ends:
  assumes "mark t \<or> token_ok t"
  shows "write_token t \<noteq> []" and "\<not> is_space (hd (write_token t))" and "last (write_token t) = last t"
  using assms esc_ends [of t] space_chars by (auto simp: write_token_def mark_def)

lemma join_ends:
  assumes "ts \<noteq> []" "\<forall>t \<in> set ts. t \<noteq> []"
  shows "join_with c ts \<noteq> []" and "hd (join_with c ts) = hd (hd ts)" and "last (join_with c ts) = last (last ts)"
  using assms by (induction ts rule: induct_list012) auto

lemma write_build_trim:
  assumes "edge_ok e"
  shows "TrimSpace (write_build e) = write_build e"
proof -
  let ?ts = "map write_token (edge_tokens e)"
  have m: "mark t \<or> token_ok t" if "t \<in> set (edge_tokens e)" for t
    using that assms by (auto simp: edge_tokens_def edge_ok_def list_all_iff mark_def)
  then have n: "\<forall>t \<in> set ?ts. t \<noteq> []" using write_token_ends(1) by auto
  have ne: "edge_tokens e \<noteq> []" by (simp add: edge_tokens_def)
  then have "hd (edge_tokens e) \<in> set (edge_tokens e)" "last (edge_tokens e) \<in> set (edge_tokens e)" by simp_all
  then have h: "\<not> is_space (hd (hd ?ts))" and l: "last (last ?ts) = last (last (edge_tokens e))"
    using write_token_ends(2,3) [OF m] ne by (simp_all add: hd_map last_map)
  have "\<not> is_space (last (last (edge_tokens e)))"
  proof (cases "e_order e = []")
    case False
    then have "last (edge_tokens e) = last (e_order e)" by (simp add: edge_tokens_def)
    moreover have "token_ok (last (e_order e))" "last (last (e_order e)) \<noteq> CHR '' ''"
      using assms False by (auto simp: edge_ok_def list_all_iff)
    ultimately show ?thesis by (cases "last (e_order e)" rule: rev_cases) (auto simp: token_ok_def token_char_def)
  qed (simp add: edge_tokens_def space_chars)
  then show ?thesis unfolding write_build_def using join_ends [OF _ n] ne h l by (intro TrimSpace_id) simp_all
qed

lemma outs_loop_words:
  "\<forall>t \<in> set ws. \<not> mark t \<Longrightarrow> outs_loop False outs [] (ws @ '':'' # r) = Inr (outs @ ws, '':'' # r)"
  by (induction ws arbitrary: outs) (auto simp: mark_def)

lemma ins_loop_words:
  "\<forall>t \<in> set ws. \<not> mark t \<Longrightarrow> ins_loop d ex im ord (ws @ r) =
    ins_loop d (if d = Explicit then ex @ ws else ex) (if d = Implicit then im @ ws else im) (if d = Order then ord @ ws else ord) r"
  by (induction ws arbitrary: ex im ord) (auto simp: mark_def split: nj_dst.splits)

lemma build_edge_tokens:
  assumes "edge_ok e" "e_vars e = Map.empty" "e_line e = no"
  shows "build_edge no (edge_tokens e) = Inr e"
proof -
  have m: "\<forall>t \<in> set (e_outs e). \<not> mark t" "\<forall>t \<in> set (e_explicit e). \<not> mark t" "\<forall>t \<in> set (e_implicit e). \<not> mark t" "\<forall>t \<in> set (e_order e). \<not> mark t"
    using assms(1) by (auto simp: edge_ok_def list_all_iff token_ok_def)
  have o: "ins_loop Order ex im [] (e_order e) = (ex, im, e_order e)" for ex im
    using ins_loop_words [OF m(4), of Order ex im "[]" "[]"] by simp
  have "ins_loop Explicit [] [] [] (e_explicit e @ ''|'' # e_implicit e @ ''||'' # e_order e @ []) = (e_explicit e, e_implicit e, e_order e)"
    using m o by (simp add: ins_loop_words)
  then have "ins_loop Explicit [] [] [] (e_explicit e @ ''|'' # e_implicit e @ ''||'' # e_order e) = (e_explicit e, e_implicit e, e_order e)" by simp
  then show ?thesis using assms outs_loop_words [OF m(1), of "[]"] by (cases e) (simp add: build_edge_def edge_tokens_def edge_ok_def)
qed

lemma parseBuild_write:
  assumes "edge_ok e" "e_vars e = Map.empty" "e_line e = no"
  shows "parseBuild no (CHR '' '' # write_build e) sc = Some (Inr e)"
proof -
  have "TrimSpace (CHR '' '' # write_build e) = TrimSpace (write_build e)" by (simp add: TrimSpace_def space_chars)
  moreover have "list_all (\<lambda>t. mark t \<or> token_ok t) (edge_tokens e)"
    using assms(1) by (auto simp: edge_tokens_def edge_ok_def list_all_iff mark_def)
  ultimately show ?thesis
    using write_build_trim [OF assms(1)] expand_tokens [of "scope_resolve sc" "[]" "edge_tokens e"] tokenize_tokens build_edge_tokens [OF assms]
    by (simp add: parseBuild_def nj_expand_def write_build_def)
qed

section \<open>Files that include themselves\<close>

lemma self_include:
  assumes "\<And>no f. \<forall>sc. parse_line no line BlockNone sc f = Some (IncludeFile sub rest)"
    and "Join_host (std_Dir path) rest = path" "read path = Inr data" "split_on (CHR 0x0A) (joinContinued data) = line # ls"
  shows "parse_lines read path no (line # ls) BlockNone sc f = None"
proof (rule ccontr)
  assume "parse_lines read path no (line # ls) BlockNone sc f \<noteq> None"
  then obtain r where r: "parse_lines read path no (line # ls) BlockNone sc f = Some r" by auto
  have "\<not> (read' = read \<and> path' = path \<and> lines = line # ls \<and> opn = BlockNone)" if "parse_lines read' path' no lines opn sc f = Some r"
    for read' path' no lines opn sc f r
  proof (rule parse_lines.raw_induct [where P = "\<lambda>read' path' no lines opn sc f r. \<not> (read' = read \<and> path' = path \<and> lines = line # ls \<and> opn = BlockNone)", OF _ that])
    fix rec read' path' no lines opn sc f y
    assume IH: "\<And>read' path' no lines opn sc f y. rec read' path' no lines opn sc f = Some y \<Longrightarrow>
        \<not> (read' = read \<and> path' = path \<and> lines = line # ls \<and> opn = BlockNone)"
      and eq: "(if lines = [] then Some (Inr (sc, f))
       else (case parse_line no (hd lines) opn sc f of
           None \<Rightarrow> None
         | Some (Fail e) \<Rightarrow> Some (Inl e)
         | Some (Next opn' sc' f') \<Rightarrow> rec read' path' (no + 1) (tl lines) opn' sc' f'
         | Some (IncludeFile sub rest) \<Rightarrow>
             (case read' (Join_host (std_Dir path') rest) of
                Inl e \<Rightarrow> Some (Inl (NjRead e))
              | Inr data \<Rightarrow>
                  Option.bind
                    (rec read' (Join_host (std_Dir path') rest) 1 (split_on (CHR 0x0A) (joinContinued data)) BlockNone
                       (if sub then Map.empty # sc else sc) f)
                    (\<lambda>x. case x of
                       Inl e \<Rightarrow> Some (Inl e)
                     | Inr (sc', f') \<Rightarrow>
                         rec read' path' (no + 1) (tl lines) BlockNone (if sub then tl sc' else sc') f')))) = Some y"
    have none: "rec read path 1 (line # ls) BlockNone sc2 f2 = None" for sc2 f2
      using IH [of read path 1 "line # ls" BlockNone sc2 f2] by (cases "rec read path 1 (line # ls) BlockNone sc2 f2") auto
    show "\<not> (read' = read \<and> path' = path \<and> lines = line # ls \<and> opn = BlockNone)"
    proof
      assume h: "read' = read \<and> path' = path \<and> lines = line # ls \<and> opn = BlockNone"
      then have "parse_line no (hd lines) opn sc f = Some (IncludeFile sub rest)" using assms(1) by simp
      then show False using eq h none assms(2,3,4) by simp
    qed
  qed
  then show False using r by blast
qed

section \<open>What is read is well formed\<close>

text \<open>Edges have outputs, no name is empty, and there are finitely many variables.\<close>

definition nj_edge_ok :: "nj_edge \<Rightarrow> bool" where
  "nj_edge_ok e \<longleftrightarrow> e_outs e \<noteq> [] \<and> [] \<notin> set (e_outs e) \<and> finite (dom (e_vars e))"

definition nj_file_ok :: "nj_file \<Rightarrow> bool" where
  "nj_file_ok f \<longleftrightarrow> (\<forall>e \<in> set (f_edges f). nj_edge_ok e) \<and> (\<forall>r vs. f_rules f r = Some vs \<longrightarrow> finite (dom vs)) \<and>
     finite (dom (f_scope f)) \<and> [] \<notin> set (f_defaults f)"

definition scope_ok :: "nj_vars list \<Rightarrow> bool" where
  "scope_ok sc \<longleftrightarrow> sc \<noteq> [] \<and> list_all (\<lambda>m. finite (dom m)) sc"

lemma tokenize_nonempty: "[] \<notin> set (tokenize s)"
proof -
  have "[] \<notin> set (tokens_loop b s)" for b
    by (induction b s rule: tokens_loop.induct) (auto simp: flush_token_def restoreToken_def replace_char_def)
  then show ?thesis by (simp add: tokenize_def)
qed

lemma outs_loop_set: "outs_loop imp outs io toks = Inr (res, r) \<Longrightarrow> set res \<subseteq> set outs \<union> set io \<union> set toks"
  by (induction imp outs io toks rule: outs_loop.induct) (auto split: if_splits)

lemma parseBuild_ok:
  assumes "parseBuild no rest sc = Some (Inr e)"
  shows "nj_edge_ok e"
proof -
  obtain s where s: "build_edge no (tokenize s) = Inr e" using assms by (auto simp: parseBuild_def)
  then obtain r where "outs_loop False [] [] (tokenize s) = Inr (e_outs e, r)" "e_outs e \<noteq> []" "e_vars e = Map.empty"
    by (auto simp: build_edge_def split: if_splits list.splits prod.splits)
  then show ?thesis using outs_loop_set [of False "[]" "[]" "tokenize s"] tokenize_nonempty [of s] by (auto simp: nj_edge_ok_def)
qed

definition line_ok :: "nat \<Rightarrow> nj_line \<Rightarrow> bool" where
  "line_ok n l = (case l of Next opn sc f \<Rightarrow> scope_ok sc \<and> length sc = n \<and> nj_file_ok f \<and> (opn = BlockEdge \<longrightarrow> f_edges f \<noteq> []) | _ \<Rightarrow> True)"

lemma parse_indented_ok:
  assumes "scope_ok sc" "nj_file_ok f" "opn = BlockEdge \<longrightarrow> f_edges f \<noteq> []"
    and "\<And>r. opn = BlockRule r \<Longrightarrow> f_rules f r \<noteq> None"
  shows "line_ok (length sc) (parse_indented trim opn sc f)"
proof (cases "binding trim")
  case (Some kv)
  obtain key val where kv: "kv = (key, val)" by (cases kv)
  show ?thesis
  proof (cases opn)
    case (BlockRule r)
    then obtain vs where "f_rules f r = Some vs" "finite (dom vs)" using assms(2) assms(4) by (auto simp: nj_file_ok_def)
    then show ?thesis using Some kv BlockRule assms by (auto simp: parse_indented_def line_ok_def nj_file_ok_def)
  next
    case BlockEdge
    then obtain es e where "f_edges f = es @ [e]" using assms(3) by (cases "f_edges f" rule: rev_cases) auto
    then show ?thesis using Some kv BlockEdge assms by (auto simp: parse_indented_def line_ok_def nj_file_ok_def nj_edge_ok_def)
  qed (use assms Some kv in \<open>auto simp: parse_indented_def line_ok_def\<close>)
qed (simp add: parse_indented_def line_ok_def)

lemma parse_statement_ok:
  assumes "scope_ok sc" "nj_file_ok f" "parse_statement no trim sc f = Some l"
  shows "line_ok (length sc) l \<and> (\<forall>r sc' f'. l = Next (BlockRule r) sc' f' \<longrightarrow> f_rules f' r \<noteq> None)"
proof -
  have b: "line_ok (length sc) (add_edge_line e sc f) \<and> (\<forall>r sc' f'. add_edge_line e sc f \<noteq> Next (BlockRule r) sc' f')"
    if "parseBuild no (drop 5 trim) sc = Some (Inr e)" for e
    using parseBuild_ok [OF that] assms(1,2) by (auto simp: add_edge_line_def line_ok_def nj_file_ok_def)
  consider (rule) "hd (Fields trim) = ''rule''" | (build) "hd (Fields trim) = ''build''" | (dflt) "hd (Fields trim) = ''default''"
    | (inc) "hd (Fields trim) = ''include'' \<or> hd (Fields trim) = ''subninja''" | (pool) "hd (Fields trim) = ''pool''"
    | (var) "hd (Fields trim) \<notin> {''rule'', ''build'', ''default'', ''include'', ''subninja'', ''pool''}" by blast
  then show ?thesis
  proof cases
    case rule
    then show ?thesis using assms by (auto simp: parse_statement_def Let_def line_ok_def nj_file_ok_def split: if_splits)
  next
    case build
    then obtain x where x: "parseBuild no (drop 5 trim) sc = Some x" "l = (case x of Inl e \<Rightarrow> Fail e | Inr e \<Rightarrow> add_edge_line e sc f)"
      using assms(3) by (auto simp: parse_statement_def Let_def)
    then show ?thesis using b by (cases x) (auto simp: line_ok_def [of _ "Fail _"])
  next
    case dflt
    then obtain x where "l = (case x of Inl e \<Rightarrow> Fail e | Inr rest \<Rightarrow> Next BlockNone sc (f\<lparr>f_defaults := f_defaults f @ tokenize rest\<rparr>))"
      using assms(3) by (auto simp: parse_statement_def Let_def)
    then show ?thesis using assms tokenize_nonempty by (cases x) (auto simp: line_ok_def nj_file_ok_def)
  next
    case inc
    then obtain x sub where "l = (case x of Inl e \<Rightarrow> Fail e
        | Inr expanded \<Rightarrow> IncludeFile sub (TrimSpace (replace_char kept_space (CHR '' '') expanded)))"
      using assms(3) by (auto simp: parse_statement_def Let_def)
    then show ?thesis by (cases x) (auto simp: line_ok_def)
  next
    case pool
    then show ?thesis using assms by (auto simp: parse_statement_def Let_def line_ok_def split: if_splits)
  next
    case var
    then show ?thesis using assms by (cases sc) (auto simp: parse_statement_def Let_def line_ok_def scope_ok_def split: option.splits)
  qed
qed

text \<open>The rule or edge that is open exists.\<close>

definition open_ok :: "nj_block \<Rightarrow> nj_file \<Rightarrow> bool" where
  "open_ok opn f = (case opn of BlockRule r \<Rightarrow> f_rules f r \<noteq> None | BlockEdge \<Rightarrow> f_edges f \<noteq> [] | _ \<Rightarrow> True)"

lemma parse_line_ok:
  assumes "scope_ok sc" "nj_file_ok f" "open_ok opn f" "parse_line no line opn sc f = Some (Next opn' sc' f')"
  shows "scope_ok sc' \<and> nj_file_ok f' \<and> open_ok opn' f' \<and> length sc' = length sc"
proof -
  have st: "scope_ok sc' \<and> nj_file_ok f' \<and> open_ok opn' f' \<and> length sc' = length sc" if "parse_statement no trim sc f = Some (Next opn' sc' f')" for trim
    using parse_statement_ok [OF assms(1,2) that] by (auto simp: line_ok_def open_ok_def split: nj_block.splits)
  have ind: "scope_ok sc' \<and> nj_file_ok f' \<and> open_ok opn' f' \<and> length sc' = length sc" if "parse_indented trim opn sc f = Next opn' sc' f'" for trim
  proof -
    have "opn = BlockEdge \<longrightarrow> f_edges f \<noteq> []" "\<And>r. opn = BlockRule r \<Longrightarrow> f_rules f r \<noteq> None"
      using assms(3) by (auto simp: open_ok_def)
    from parse_indented_ok [OF assms(1,2) this, of trim] show ?thesis using that assms(3)
      by (auto simp: line_ok_def open_ok_def parse_indented_def Let_def split: option.splits nj_block.splits)
  qed
  show ?thesis
    using st ind assms by (auto simp: parse_line_def Let_def split: if_splits)
qed

lemma parse_lines_ok:
  assumes "parse_lines read path no lines opn sc f = Some r"
  shows "scope_ok sc \<and> nj_file_ok f \<and> open_ok opn f \<longrightarrow> (\<forall>sc' f'. r = Inr (sc', f') \<longrightarrow> scope_ok sc' \<and> length sc' = length sc \<and> nj_file_ok f')"
proof (rule parse_lines.raw_induct [where P = "\<lambda>read path no lines opn sc f r.
    scope_ok sc \<and> nj_file_ok f \<and> open_ok opn f \<longrightarrow> (\<forall>sc' f'. r = Inr (sc', f') \<longrightarrow> scope_ok sc' \<and> length sc' = length sc \<and> nj_file_ok f')", OF _ assms])
  fix rec read path no lines opn sc f y
  assume IH: "\<And>read path no lines opn sc f y. rec read path no lines opn sc f = Some y \<Longrightarrow>
      scope_ok sc \<and> nj_file_ok f \<and> open_ok opn f \<longrightarrow> (\<forall>sc' f'. y = Inr (sc', f') \<longrightarrow> scope_ok sc' \<and> length sc' = length sc \<and> nj_file_ok f')"
    and eq: "(if lines = [] then Some (Inr (sc, f))
       else (case parse_line no (hd lines) opn sc f of
           None \<Rightarrow> None
         | Some (Fail e) \<Rightarrow> Some (Inl e)
         | Some (Next opn' sc' f') \<Rightarrow> rec read path (no + 1) (tl lines) opn' sc' f'
         | Some (IncludeFile sub rest) \<Rightarrow>
             (case read (Join_host (std_Dir path) rest) of
                Inl e \<Rightarrow> Some (Inl (NjRead e))
              | Inr data \<Rightarrow>
                  Option.bind
                    (rec read (Join_host (std_Dir path) rest) 1 (split_on (CHR 0x0A) (joinContinued data)) BlockNone
                       (if sub then Map.empty # sc else sc) f)
                    (\<lambda>x. case x of
                       Inl e \<Rightarrow> Some (Inl e)
                     | Inr (sc', f') \<Rightarrow>
                         rec read path (no + 1) (tl lines) BlockNone (if sub then tl sc' else sc') f')))) = Some y"
  show "scope_ok sc \<and> nj_file_ok f \<and> open_ok opn f \<longrightarrow> (\<forall>sc' f'. y = Inr (sc', f') \<longrightarrow> scope_ok sc' \<and> length sc' = length sc \<and> nj_file_ok f')"
  proof (intro impI allI)
    fix sc2 f2
    assume ok: "scope_ok sc \<and> nj_file_ok f \<and> open_ok opn f" and y: "y = Inr (sc2, f2)"
    consider "lines = []" | opn' sc' f' where "lines \<noteq> []" "parse_line no (hd lines) opn sc f = Some (Next opn' sc' f')"
      | sub rest where "lines \<noteq> []" "parse_line no (hd lines) opn sc f = Some (IncludeFile sub rest)"
      using eq y by (auto split: if_splits option.splits nj_line.splits)
    then show "scope_ok sc2 \<and> length sc2 = length sc \<and> nj_file_ok f2"
    proof cases
      case 2
      then have r: "rec read path (no + 1) (tl lines) opn' sc' f' = Some y" using eq by simp
      show ?thesis using IH [OF r] parse_line_ok [OF _ _ _ 2(2)] ok y by simp
    next
      case 3
      define sc0 where "sc0 = (if sub then Map.empty # sc else sc)"
      obtain data sc' f' where r: "rec read (Join_host (std_Dir path) rest) 1 (split_on (CHR 0x0A) (joinContinued data)) BlockNone sc0 f = Some (Inr (sc', f'))"
        "rec read path (no + 1) (tl lines) BlockNone (if sub then tl sc' else sc') f' = Some y"
        using eq 3 y by (auto simp: sc0_def split: sum.splits bind_splits simp del: if_split)
      have inner: "scope_ok sc' \<and> length sc' = length sc0 \<and> nj_file_ok f'"
        using IH [OF r(1)] ok by (auto simp: sc0_def scope_ok_def open_ok_def)
      then have "scope_ok (if sub then tl sc' else sc')" "length (if sub then tl sc' else sc') = length sc"
        using ok by (cases sc'; auto simp: scope_ok_def sc0_def split: if_splits)+
      then show ?thesis using IH [OF r(2)] inner y by (simp add: open_ok_def)
    qed (use eq y ok in simp)
  qed
qed

lemma Load_ok:
  assumes "Load read path work = Some (Inr f)"
  shows "nj_file_ok f"
proof -
  let ?f = "\<lparr>f_dir = (if work = [] then std_Dir path else work), f_scope = Map.empty, f_rules = Map.empty, f_edges = [], f_defaults = []\<rparr>"
  obtain sc g where g: "parseFile read path [Map.empty] ?f = Some (Inr (sc, g))" "f = g\<lparr>f_scope := hd sc\<rparr>"
    using assms unfolding Load_def Let_def by (auto elim!: bind_result_InrE)
  then obtain data where "parse_lines read path 1 (split_on (CHR 0x0A) (joinContinued data)) BlockNone [Map.empty] ?f = Some (Inr (sc, g))"
    by (auto simp: parseFile_def split: sum.splits)
  from parse_lines_ok [OF this] have "scope_ok sc" "nj_file_ok g" by (auto simp: scope_ok_def nj_file_ok_def open_ok_def)
  then show ?thesis using g(2) by (cases sc) (auto simp: nj_file_ok_def scope_ok_def)
qed

end
