(* ===== verification/NinjaGraph.thy ===== *)
theory NinjaGraph
  imports NinjaParse
begin

text \<open>
  From a ninja file to a workflow graph (\<open>ninja/ninja.go\<close>): one step per build edge, with its command
  expanded, and dependencies on the edges that make its inputs. \<open>command\<close> numbers the command tasks.
\<close>

section \<open>Steps\<close>

definition edge_resolve :: "nj_file \<Rightarrow> nj_edge \<Rightarrow> nj_resolve" where
  "edge_resolve f e name =
     (if name = ''in'' then Some (join_with (CHR '' '') (e_explicit e), True)
      else if name = ''out'' then Some (join_with (CHR '' '') (e_outs e), True)
      else if name = ''in_newline'' then Some (join_with (CHR 0x0A) (e_explicit e), True)
      else
        (case e_vars e name of
           Some v \<Rightarrow> Some (v, False)
         | None \<Rightarrow>
             (case Option.bind (f_rules f (e_rule e)) (\<lambda>r. r name) of
                Some v \<Rightarrow> Some (v, False)
              | None \<Rightarrow> map_option (\<lambda>v. (v, False)) (f_scope f name))))"

text \<open>A variable of the edge or of its rule; an edge without a rule has neither.\<close>

definition rule_text :: "nj_file \<Rightarrow> nj_edge \<Rightarrow> string \<Rightarrow> string" where
  "rule_text f e name =
     (case f_rules f (e_rule e) of
        None \<Rightarrow> []
      | Some r \<Rightarrow> (case e_vars e name of Some v \<Rightarrow> v | None \<Rightarrow> (case r name of Some v \<Rightarrow> v | None \<Rightarrow> [])))"

definition parseDepfile :: "string \<Rightarrow> string list" where
  "parseDepfile src =
     (let src = ReplaceAll (ReplaceAll src [CHR 0x5C, CHR 0x0A] '' '') [CHR 0x5C, CHR 0x0D, CHR 0x0A] '' '' in
      concat (map (\<lambda>line. case Cut '':'' line of None \<Rightarrow> [] | Some (_, rest) \<Rightarrow> filter (\<lambda>w. w \<noteq> [CHR 0x5C]) (Fields rest))
        (split_on (CHR 0x0A) src)))"

text \<open>A depfile is read if it exists: \<open>depread\<close> has no file, an error, or the text.\<close>

definition depfile :: "(string \<Rightarrow> (nat + string) option) \<Rightarrow> nj_file \<Rightarrow> nj_edge \<Rightarrow> (nj_error + string list) option" where
  "depfile depread f e =
     (let raw = (case e_vars e ''depfile'' of
          Some v \<Rightarrow> v
        | None \<Rightarrow> (case Option.bind (f_rules f (e_rule e)) (\<lambda>r. r ''depfile'') of Some v \<Rightarrow> v | None \<Rightarrow> []))
      in
      if TrimSpace raw = [] then Some (Inr [])
      else
        map_option (\<lambda>x. bind_result x (\<lambda>name.
            if TrimSpace name = [] then Inr []
            else
              (case depread (Join_host (f_dir f) (TrimSpace name)) of
                 None \<Rightarrow> Inr []
               | Some (Inl err) \<Rightarrow> Inl (NjRead err)
               | Some (Inr data) \<Rightarrow> Inr (parseDepfile data))))
          (nj_expand raw (edge_resolve f e) False))"

fun deps_loop :: "(string \<rightharpoonup> string) \<Rightarrow> string \<Rightarrow> string list \<Rightarrow> string list \<Rightarrow> string list" where
  "deps_loop byOutput own deps [] = deps"
| "deps_loop byOutput own deps (p # ps) =
     (case byOutput p of
        None \<Rightarrow> deps_loop byOutput own deps ps
      | Some name \<Rightarrow>
          if name = own \<or> name \<in> set deps then deps_loop byOutput own deps ps
          else deps_loop byOutput own (deps @ [name]) ps)"

definition make_step :: "(string \<times> string \<Rightarrow> nat) \<Rightarrow> nj_file \<Rightarrow> nj_edge \<Rightarrow> (string \<rightharpoonup> string) \<Rightarrow> string \<Rightarrow> string \<Rightarrow> string list \<Rightarrow> step" where
  "make_step command f e byOutput expanded desc0 depfiles =
     (let desc1 = TrimSpace desc0;
          phony = (e_rule e = ''phony'' \<or> TrimSpace expanded = []);
          desc2 = (if \<not> phony \<and> desc1 = [] then expanded else desc1);
          inputs = e_explicit e @ e_implicit e @ depfiles
      in \<lparr>w_name = hd (e_outs e), w_deps = deps_loop byOutput (hd (e_outs e)) [] (inputs @ e_order e), w_inputs = inputs,
          w_outputs = (if phony then [] else e_outs e), w_dir = f_dir f,
          w_tasks = (if phony then [] else [Some (command (expanded, f_dir f))]),
          w_desc = (if desc2 = [] then hd (e_outs e) else desc2), w_phony = phony, w_pool = Control, w_orchestrator = False\<rparr>)"

definition nj_step :: "(string \<times> string \<Rightarrow> nat) \<Rightarrow> (string \<Rightarrow> (nat + string) option) \<Rightarrow> nj_file \<Rightarrow> nj_edge \<Rightarrow> (string \<rightharpoonup> string)
    \<Rightarrow> (nj_error + step) option" where
  "nj_step command depread f e byOutput =
     Option.bind (nj_expand (rule_text f e ''command'') (edge_resolve f e) False) (\<lambda>x. case x of Inl err \<Rightarrow> Some (Inl err) | Inr expanded \<Rightarrow>
       Option.bind (nj_expand (rule_text f e ''description'') (edge_resolve f e) False) (\<lambda>y. case y of Inl err \<Rightarrow> Some (Inl err) | Inr desc \<Rightarrow>
         map_option (\<lambda>z. bind_result z (\<lambda>deps. Inr (make_step command f e byOutput expanded desc deps))) (depfile depread f e)))"

section \<open>The graph\<close>

fun outputs_loop :: "string \<Rightarrow> string list \<Rightarrow> (string \<rightharpoonup> string) \<Rightarrow> nj_error + (string \<rightharpoonup> string)" where
  "outputs_loop name [] m = Inr m"
| "outputs_loop name (out # outs) m = (if m out \<noteq> None then Inl NjSyntax else outputs_loop name outs (m(out \<mapsto> name)))"

fun byOutput_loop :: "nj_edge list \<Rightarrow> (string \<rightharpoonup> string) \<Rightarrow> nj_error + (string \<rightharpoonup> string)" where
  "byOutput_loop [] m = Inr m"
| "byOutput_loop (e # es) m =
     (if e_outs e = [] then Inl NjSyntax
      else bind_result (outputs_loop (hd (e_outs e)) (e_outs e) m) (byOutput_loop es))"

fun steps_loop :: "(nj_edge \<Rightarrow> (nj_error + step) option) \<Rightarrow> nj_edge list \<Rightarrow> (nj_error + step list) option" where
  "steps_loop mk [] = Some (Inr [])"
| "steps_loop mk (e # es) =
     Option.bind (mk e) (\<lambda>x. case x of Inl err \<Rightarrow> Some (Inl err) | Inr st \<Rightarrow>
       map_option (\<lambda>y. bind_result y (\<lambda>ss. Inr (st # ss))) (steps_loop mk es))"

definition alias_of :: "nj_edge list \<Rightarrow> (string \<times> string) list" where
  "alias_of es = concat (map (\<lambda>e. map (\<lambda>out. (out, hd (e_outs e))) (tl (e_outs e))) es)"

definition Graph :: "(string \<times> string \<Rightarrow> nat) \<Rightarrow> (string \<Rightarrow> (nat + string) option) \<Rightarrow> nj_file \<Rightarrow> string list \<Rightarrow> (nj_error + wgraph) option" where
  "Graph command depread f targets =
     (case byOutput_loop (f_edges f) Map.empty of
        Inl e \<Rightarrow> Some (Inl e)
      | Inr byOutput \<Rightarrow>
          map_option (\<lambda>x. bind_result x (\<lambda>steps.
              (let defaults = (if targets = [] then f_defaults f else targets);
                   defaults = (if defaults = [] \<and> f_edges f \<noteq> [] then [hd (e_outs (hd (f_edges f)))] else defaults)
               in if defaults = [] then Inl NjNoTarget
                  else Inr \<lparr>wg_dir = f_dir f, wg_steps = steps, wg_defaults = defaults, wg_alias = alias_of (f_edges f)\<rparr>)))
            (steps_loop (\<lambda>e. nj_step command depread f e byOutput) (f_edges f)))"

section \<open>Outputs and dependencies\<close>

lemma outputs_loop_eq:
  "outputs_loop n outs m = Inr m' \<Longrightarrow> distinct outs \<and> set outs \<inter> dom m = {} \<and> m' = (\<lambda>p. if p \<in> set outs then Some n else m p)"
proof (induction outs arbitrary: m)
  case (Cons a outs)
  then have h: "m a = None" "outputs_loop n outs (m(a \<mapsto> n)) = Inr m'" by (auto split: if_splits)
  from Cons.IH [OF h(2)] show ?case using h(1) by (auto simp: fun_eq_iff domIff)
qed auto

lemma byOutput_loop_eq:
  assumes "byOutput_loop es m = Inr b"
  shows "distinct (concat (map e_outs es)) \<and> (\<forall>e \<in> set es. e_outs e \<noteq> [] \<and> set (e_outs e) \<inter> dom m = {}) \<and>
    (\<forall>p n. b p = Some n \<longleftrightarrow> m p = Some n \<or> (\<exists>e \<in> set es. p \<in> set (e_outs e) \<and> n = hd (e_outs e)))"
  using assms
proof (induction es arbitrary: m)
  case (Cons e es)
  then obtain m' where m: "e_outs e \<noteq> []" "outputs_loop (hd (e_outs e)) (e_outs e) m = Inr m'" "byOutput_loop es m' = Inr b"
    by (auto split: if_splits)
  note o = outputs_loop_eq [OF m(2)] and ih = Cons.IH [OF m(3)]
  have d: "dom m' = dom m \<union> set (e_outs e)" using o by (auto simp: dom_def split: if_splits)
  have "set (e_outs e) \<inter> set (concat (map e_outs es)) = {}" using ih d by fastforce
  moreover have "\<forall>e \<in> set es. set (e_outs e) \<inter> dom m = {}" using ih d by blast
  moreover have "b p = Some n \<longleftrightarrow> m p = Some n \<or> (\<exists>e \<in> set (e # es). p \<in> set (e_outs e) \<and> n = hd (e_outs e))" for p n
  proof -
    have "m' p = Some n \<longleftrightarrow> m p = Some n \<or> p \<in> set (e_outs e) \<and> n = hd (e_outs e)" using o by (auto simp: domIff)
    then show ?thesis using ih by auto
  qed
  ultimately show ?case using ih o m(1) by auto
qed simp

lemma deps_loop_set:
  "set (deps_loop b own deps ps) = set deps \<union> {n. n \<noteq> own \<and> (\<exists>p \<in> set ps. b p = Some n)}"
  "distinct deps \<Longrightarrow> distinct (deps_loop b own deps ps)"
  by (induction b own deps ps rule: deps_loop.induct) (auto split: option.splits)

lemma steps_loop_all: "steps_loop mk es = Some (Inr ss) \<Longrightarrow> list_all2 (\<lambda>e s. mk e = Some (Inr s)) es ss"
  by (induction es arbitrary: ss) (auto split: bind_splits sum.splits)

lemma nj_step_make:
  assumes "nj_step command depread f e b = Some (Inr s)"
  obtains expanded desc deps where "s = make_step command f e b expanded desc deps"
  using assms by (auto simp: nj_step_def split: bind_splits sum.splits)

text \<open>The step of an edge: its name, its inputs, and the edges it waits for.\<close>

lemma nj_step_deps:
  assumes "nj_step command depread f e b = Some (Inr s)"
  shows "w_name s = hd (e_outs e)" and "set (e_explicit e) \<union> set (e_implicit e) \<subseteq> set (w_inputs s)" and "distinct (w_deps s)"
    and "set (w_deps s) = {n. n \<noteq> w_name s \<and> (\<exists>p \<in> set (w_inputs s @ e_order e). b p = Some n)}"
proof -
  obtain expanded desc deps where s: "s = make_step command f e b expanded desc deps" using assms by (rule nj_step_make)
  show "w_name s = hd (e_outs e)" "set (e_explicit e) \<union> set (e_implicit e) \<subseteq> set (w_inputs s)" "distinct (w_deps s)"
    by (auto simp: s make_step_def Let_def deps_loop_set(2))
  show "set (w_deps s) = {n. n \<noteq> w_name s \<and> (\<exists>p \<in> set (w_inputs s @ e_order e). b p = Some n)}"
    by (auto simp: s make_step_def Let_def deps_loop_set(1))
qed

text \<open>What is known of a graph that was made.\<close>

lemma Graph_parts:
  assumes "Graph command depread f targets = Some (Inr g)"
  obtains b where "byOutput_loop (f_edges f) Map.empty = Inr b"
    and "list_all2 (\<lambda>e s. nj_step command depread f e b = Some (Inr s)) (f_edges f) (wg_steps g)"
    and "wg_alias g = alias_of (f_edges f)" and "wg_defaults g \<noteq> []"
  using assms by (auto simp: Graph_def Let_def split: sum.splits if_splits dest!: steps_loop_all)

lemma Graph_steps:
  assumes "Graph command depread f targets = Some (Inr g)"
  shows "map w_name (wg_steps g) = map (\<lambda>e. hd (e_outs e)) (f_edges f)" and "distinct (map w_name (wg_steps g))"
    and "distinct (concat (map e_outs (f_edges f)))" and "\<forall>e \<in> set (f_edges f). e_outs e \<noteq> []"
proof -
  obtain b where b: "byOutput_loop (f_edges f) Map.empty = Inr b" and l: "list_all2 (\<lambda>e s. nj_step command depread f e b = Some (Inr s)) (f_edges f) (wg_steps g)"
    using Graph_parts [OF assms] by metis
  show d: "distinct (concat (map e_outs (f_edges f)))" and ne: "\<forall>e \<in> set (f_edges f). e_outs e \<noteq> []" using byOutput_loop_eq [OF b] by auto
  show m: "map w_name (wg_steps g) = map (\<lambda>e. hd (e_outs e)) (f_edges f)"
    using l nj_step_deps(1) by (induction rule: list_all2_induct) auto
  have "distinct (map (\<lambda>e. hd (e_outs e)) es)" if "distinct (concat (map e_outs es))" "\<forall>e \<in> set es. e_outs e \<noteq> []" for es
    using that by (induction es) (auto, metis IntI UN_iff empty_iff hd_in_set)
  then show "distinct (map w_name (wg_steps g))" unfolding m using d ne .
qed

lemma Graph_deps:
  assumes "Graph command depread f targets = Some (Inr g)" "i < length (f_edges f)"
  shows "distinct (w_deps (wg_steps g ! i)) \<and> set (e_explicit (f_edges f ! i)) \<union> set (e_implicit (f_edges f ! i)) \<subseteq> set (w_inputs (wg_steps g ! i)) \<and>
    set (w_deps (wg_steps g ! i)) = {n. n \<noteq> w_name (wg_steps g ! i) \<and>
      (\<exists>e \<in> set (f_edges f). n = hd (e_outs e) \<and> set (e_outs e) \<inter> set (w_inputs (wg_steps g ! i) @ e_order (f_edges f ! i)) \<noteq> {})}"
proof -
  obtain b where b: "byOutput_loop (f_edges f) Map.empty = Inr b" and l: "list_all2 (\<lambda>e s. nj_step command depread f e b = Some (Inr s)) (f_edges f) (wg_steps g)"
    using Graph_parts [OF assms(1)] by metis
  have s: "nj_step command depread f (f_edges f ! i) b = Some (Inr (wg_steps g ! i))" using l assms(2) by (simp add: list_all2_conv_all_nth)
  have "b p = Some n \<longleftrightarrow> (\<exists>e \<in> set (f_edges f). p \<in> set (e_outs e) \<and> n = hd (e_outs e))" for p n
    using byOutput_loop_eq [OF b] by simp
  then show ?thesis using nj_step_deps [OF s] by auto
qed

section \<open>Building the graph\<close>

lemma byName_loop_total:
  "distinct (map w_name ss) \<Longrightarrow> \<forall>s \<in> set ss. w_name s \<noteq> [] \<and> m (w_name s) = None \<Longrightarrow> \<exists>m'. byName_loop ss m = Inr m'"
proof (induction ss arbitrary: m)
  case (Cons s ss)
  have "\<forall>t \<in> set ss. w_name t \<noteq> [] \<and> (m(w_name s \<mapsto> s)) (w_name t) = None" using Cons.prems by (auto simp: image_iff)
  then show ?case using Cons by simp
qed simp

lemma Graph_names:
  assumes "Graph command depread f targets = Some (Inr g)" "nj_file_ok f"
  obtains byName where "byName_loop (wg_steps g) Map.empty = Inr byName" and "named (wg_steps g) byName"
proof -
  have "w_name s \<noteq> []" if "s \<in> set (wg_steps g)" for s
  proof -
    have "w_name s \<in> (\<lambda>e. hd (e_outs e)) ` set (f_edges f)" using that Graph_steps(1) [OF assms(1)] by (metis image_eqI image_set)
    then obtain e where "e \<in> set (f_edges f)" "w_name s = hd (e_outs e)" by auto
    then show ?thesis using assms(2) by (metis hd_in_set nj_edge_ok_def nj_file_ok_def)
  qed
  then obtain byName where "byName_loop (wg_steps g) Map.empty = Inr byName"
    using byName_loop_total [OF Graph_steps(2) [OF assms(1)], of Map.empty] by auto
  then show ?thesis using that byName_named by blast
qed

lemma step_of_edge:
  assumes "Graph command depread f targets = Some (Inr g)" "named (wg_steps g) byName" "e \<in> set (f_edges f)"
  shows "byName (hd (e_outs e)) \<noteq> None"
proof -
  have "hd (e_outs e) \<in> set (map w_name (wg_steps g))" unfolding Graph_steps(1) [OF assms(1)] using assms(3) by auto
  then have "hd (e_outs e) \<in> dom byName" using named_dom [OF assms(2)] by simp
  then show ?thesis by auto
qed

text \<open>Every output of an edge resolves to its step: the first is its name, the others are aliases.\<close>

lemma in_tlD: "x \<in> set (tl xs) \<Longrightarrow> x \<in> set xs"
  by (cases xs) auto

lemma map_of_alias:
  assumes "distinct (concat (map e_outs es))" "e \<in> set es" "p \<in> set (tl (e_outs e))"
  shows "map_of (alias_of es) p = Some (hd (e_outs e))"
proof -
  have k: "map fst (alias_of es) = concat (map (\<lambda>e. tl (e_outs e)) es)" by (induction es) (simp_all add: alias_of_def comp_def)
  have "distinct (concat (map (\<lambda>e. tl (e_outs e)) es))" using assms(1)
  proof (induction es)
    case (Cons a es)
    have "set (concat (map (\<lambda>e. tl (e_outs e)) es)) \<subseteq> set (concat (map e_outs es))" by (auto dest: in_tlD)
    then show ?case using Cons by (auto simp: distinct_tl dest: in_tlD)
  qed simp
  moreover have "(p, hd (e_outs e)) \<in> set (alias_of es)" using assms(2,3) by (auto simp: alias_of_def)
  ultimately show ?thesis using k by (metis map_of_eq_Some_iff)
qed

lemma resolve_output:
  assumes "Graph command depread f targets = Some (Inr g)" "named (wg_steps g) byName" "e \<in> set (f_edges f)" "p \<in> set (e_outs e)"
  shows "resolveAlias p byName (wg_alias g) = Inr (hd (e_outs e)) \<or> byName p \<noteq> None \<and> resolveAlias p byName (wg_alias g) = Inr p"
proof (cases "byName p = None")
  case True
  have h: "byName (hd (e_outs e)) \<noteq> None" by (rule step_of_edge [OF assms(1-3)])
  then have "p \<noteq> hd (e_outs e)" using True by auto
  then have t: "p \<in> set (tl (e_outs e))" using assms(4) by (cases "e_outs e") auto
  have "map_of (wg_alias g) p = Some (hd (e_outs e))"
    using map_of_alias [OF Graph_steps(3) [OF assms(1)] assms(3) t] Graph_parts [OF assms(1)] by metis
  then show ?thesis using True h \<open>p \<noteq> hd (e_outs e)\<close>
    by (simp add: resolveAlias_def resolve_loop.simps [of byName "wg_alias g" "[]" p] resolve_loop.simps [of byName "wg_alias g" "[p]"])
qed (simp add: resolve_self)

lemma resolve_unknown:
  assumes "Graph command depread f targets = Some (Inr g)" "named (wg_steps g) byName"
    and "resolveAlias p byName (wg_alias g) = Inl err"
  shows "err = ErrUnknownStep \<and> (\<forall>e \<in> set (f_edges f). p \<notin> set (e_outs e))"
proof -
  have n: "\<forall>e \<in> set (f_edges f). p \<notin> set (e_outs e)" using resolve_output [OF assms(1,2), of _ p] assms(3) by fastforce
  have "wg_alias g = alias_of (f_edges f)" using Graph_parts [OF assms(1)] by metis
  moreover have "p \<notin> fst ` set (alias_of (f_edges f))" using n by (auto simp: alias_of_def dest: in_tlD)
  ultimately have "map_of (wg_alias g) p = None" by (simp add: map_of_eq_None_iff)
  moreover have "byName p = None" using assms(3) resolve_self [of byName p] by (cases "byName p") auto
  ultimately show ?thesis using assms(3) n by (simp add: resolveAlias_def resolve_loop.simps [of byName "wg_alias g" "[]" p])
qed

lemma closure_ninja_error:
  assumes "Graph command depread f targets = Some (Inr g)" "nj_file_ok f" "closure g ts = Some (Inl err)"
  shows "err = ErrCycle \<or> err = ErrUnknownStep \<and> (\<exists>n \<in> set (if ts = [] then wg_defaults g else ts). \<forall>e \<in> set (f_edges f). n \<notin> set (e_outs e))"
proof -
  obtain byName where b: "byName_loop (wg_steps g) Map.empty = Inr byName" "named (wg_steps g) byName" using Graph_names [OF assms(1,2)] .
  have ne: "(if ts = [] then wg_defaults g else ts) \<noteq> []" using Graph_parts [OF assms(1)] by (metis (full_types))
  have dep: "resolveAlias d byName (wg_alias g) \<noteq> Inl x" if "byName c = Some s" "d \<in> set (w_deps s)" for c s d x
  proof -
    have "s \<in> set (wg_steps g)" using b(2) that(1) by (auto simp: named_def)
    then obtain i where i: "i < length (wg_steps g)" "s = wg_steps g ! i" by (auto simp: in_set_conv_nth)
    moreover have "length (wg_steps g) = length (f_edges f)" using Graph_steps(1) [OF assms(1)] by (metis length_map)
    ultimately have "d \<in> {n. n \<noteq> w_name s \<and> (\<exists>e \<in> set (f_edges f). n = hd (e_outs e) \<and> set (e_outs e) \<inter> set (w_inputs s @ e_order (f_edges f ! i)) \<noteq> {})}"
      using Graph_deps [OF assms(1), of i] that(2) by simp
    then obtain e where "e \<in> set (f_edges f)" "d = hd (e_outs e)" by blast
    then have "byName d \<noteq> None" using step_of_edge [OF assms(1) b(2)] by simp
    then show ?thesis by (simp add: resolve_self)
  qed
  consider "err = ErrCycle" | "bad_name byName (wg_alias g) (if ts = [] then wg_defaults g else ts) err"
    using closure_error [OF assms(3) b(1)] ne by auto
  then show ?thesis
  proof cases
    case 2
    then obtain n where "n \<in> set (if ts = [] then wg_defaults g else ts)" "resolveAlias n byName (wg_alias g) = Inl err"
      unfolding bad_name_def using dep by blast
    then show ?thesis using resolve_unknown [OF assms(1) b(2)] by blast
  qed simp
qed

text \<open>A step comes after the steps that make its inputs.\<close>

lemma closure_ninja_order:
  assumes "Graph command depread f targets = Some (Inr g)" "closure g ts = Some (Inr (ord, byName))"
    and "i < length ord" "e \<in> set (f_edges f)" "hd (e_outs e) = w_name (ord ! i)" "e' \<in> set (f_edges f)" "hd (e_outs e') \<noteq> hd (e_outs e)"
    and "set (e_outs e') \<inter> set (w_inputs (ord ! i) @ e_order e) \<noteq> {}"
  shows "set (e_explicit e @ e_implicit e) \<subseteq> set (w_inputs (ord ! i)) \<and> (\<exists>j < i. w_name (ord ! j) = hd (e_outs e'))"
proof -
  note c = closure_sound [OF assms(2)] and st = Graph_steps [OF assms(1)]
  have len: "length (wg_steps g) = length (f_edges f)" using st(1) by (metis length_map)
  have nm: "w_name (wg_steps g ! k) = hd (e_outs (f_edges f ! k))" if "k < length (f_edges f)" for k
    using that st(1) len by (metis (no_types, lifting) nth_map)
  have "ord ! i \<in> set (wg_steps g)" using c(4) assms(3) by auto
  then obtain k where k: "k < length (f_edges f)" "ord ! i = wg_steps g ! k" using len by (auto simp: in_set_conv_nth)
  obtain l where l: "l < length (f_edges f)" "e = f_edges f ! l" using assms(4) by (auto simp: in_set_conv_nth)
  have "map w_name (wg_steps g) ! k = map w_name (wg_steps g) ! l" using assms(5) nm k l len by simp
  then have kl: "k = l" using nth_eq_iff_index_eq [OF st(2), of k l] k(1) l(1) len by simp
  note d = Graph_deps [OF assms(1) k(1), folded k(2), unfolded kl, folded l(2)]
  have "hd (e_outs e') \<in> set (w_deps (ord ! i))" using d assms(5-8) by auto
  then obtain j where j: "j < i" "resolveAlias (hd (e_outs e')) byName (wg_alias g) = Inr (w_name (ord ! j))"
    using c(3) assms(3) by (auto simp: deps_before_def)
  have "byName (hd (e_outs e')) \<noteq> None" by (rule step_of_edge [OF assms(1) c(1) assms(6)])
  then have "w_name (ord ! j) = hd (e_outs e')" using resolve_self [of byName "hd (e_outs e')" "wg_alias g"] j(2) by simp
  then show ?thesis using d j(1) by auto
qed

section \<open>Making a graph returns\<close>

lemma edge_resolve_finite:
  assumes "nj_file_ok f" "e \<in> set (f_edges f)"
  shows "finite {n. \<exists>v. edge_resolve f e n = Some (v, False)}"
proof -
  have "finite (dom (e_vars e))" "finite (dom (f_scope f))" using assms by (auto simp: nj_file_ok_def nj_edge_ok_def)
  moreover have "finite {n. \<exists>v. Option.bind (f_rules f (e_rule e)) (\<lambda>r. r n) = Some v}"
    using assms(1) by (cases "f_rules f (e_rule e)") (auto simp: nj_file_ok_def dom_def)
  ultimately have "finite (dom (e_vars e) \<union> {n. \<exists>v. Option.bind (f_rules f (e_rule e)) (\<lambda>r. r n) = Some v} \<union> dom (f_scope f))" by simp
  moreover have "{n. \<exists>v. edge_resolve f e n = Some (v, False)} \<subseteq> dom (e_vars e) \<union> {n. \<exists>v. Option.bind (f_rules f (e_rule e)) (\<lambda>r. r n) = Some v} \<union> dom (f_scope f)"
    by (auto simp: edge_resolve_def split: if_splits option.splits)
  ultimately show ?thesis by (rule finite_subset [rotated])
qed

lemma nj_step_returns:
  assumes "nj_file_ok f" "e \<in> set (f_edges f)"
  shows "\<exists>r. nj_step command depread f e b = Some r"
proof -
  have x: "\<exists>r. nj_expand s (edge_resolve f e) False = Some r" for s
    by (rule nj_expand_returns [OF edge_resolve_finite [OF assms]]) blast
  have d: "\<exists>r. depfile depread f e = Some r" unfolding depfile_def Let_def by (auto intro: x)
  obtain r1 where r1: "nj_expand (rule_text f e ''command'') (edge_resolve f e) False = Some r1" using x by blast
  obtain r2 where r2: "nj_expand (rule_text f e ''description'') (edge_resolve f e) False = Some r2" using x by blast
  obtain r3 where r3: "depfile depread f e = Some r3" using d by blast
  show ?thesis unfolding nj_step_def by (simp add: r1 r2 r3 split: sum.split)
qed

lemma Graph_returns:
  assumes "nj_file_ok f"
  shows "\<exists>r. Graph command depread f targets = Some r"
proof -
  have "\<exists>r. steps_loop (\<lambda>e. nj_step command depread f e b) es = Some r" if "set es \<subseteq> set (f_edges f)" for b es
    using that
  proof (induction es)
    case (Cons e es)
    obtain r where "nj_step command depread f e b = Some r" using nj_step_returns [OF assms, of e command depread b] Cons.prems by auto
    then show ?case using Cons by (auto split: sum.split)
  qed simp
  then show ?thesis by (auto simp: Graph_def split: sum.split)
qed

section \<open>A file that includes itself\<close>

lemma include_line: "parse_line no ''include a'' opn sc f = Some (IncludeFile False ''a'')"
proof -
  have x: "nj_expand ''a'' rs k = Some (Inr ''a'')" for rs k
    unfolding nj_expand_def by (rule expand_plain) simp_all
  have t: "TrimSpace (stripComment ''include a'') = ''include a''" "Fields ''include a'' = [''include'', ''a'']"
    "TrimSpace ''include a'' = ''include a''" "TrimSpace (drop 7 ''include a'') = ''a''" "\<not> is_blank (CHR ''i'')"
    "TrimSpace (replace_char kept_space (CHR '' '') ''a'') = ''a''"
    by code_simp+
  have "parse_statement no ''include a'' sc f = Some (IncludeFile False ''a'')"
    using t(4,6) x by (simp add: parse_statement_def Let_def t(2))
  then show ?thesis by (simp add: parse_line_def Let_def t(1,3,5))
qed

lemma Load_self: "Load (\<lambda>_. Inr ''include a'') ''/a'' [] = None"
proof -
  have "Join_host (std_Dir ''/a'') ''a'' = ''/a''" "split_on (CHR 0x0A) (joinContinued ''include a'') = [''include a'']" by code_simp+
  then show ?thesis using self_include [of "''include a''" False "''a''" "''/a''" "\<lambda>_. Inr ''include a''" "''include a''" "[]"] include_line
    by (simp add: Load_def parseFile_def Let_def)
qed

end
