(* ===== verification/TaskGroupSafe.thy ===== *)
theory TaskGroupSafe
  imports TaskGroup
begin

text \<open>
  What one locked section of \<open>x/taskgroup\<close> does to a session. \<open>evolves\<close> relates the session
  before and after: tasks keep their links, a finished task stays as it is, the counter of the wait
  group follows the unfinished tasks, dependency counts follow the waiters, and a task gets into a
  ready queue only when nothing it waits for is unfinished. The locale \<open>runner\<close> states this of the
  calls \<open>finishLocked\<close>, \<open>failSubtree\<close> and \<open>failOutsideIsolates\<close> make of each other; its
  interpretation shows it of \<open>tg_run\<close>.
\<close>

section \<open>Observations\<close>

abbreviation fin :: "'e session \<Rightarrow> nat \<Rightarrow> bool" where
  "fin s i \<equiv> finished (task_of s i)"

abbreviation tg_len :: "'e session \<Rightarrow> nat" where
  "tg_len s \<equiv> length (tg_slots s)"

text \<open>How often the unfinished task \<open>t\<close> lists \<open>i\<close> as a waiter, and the sum over all tasks.\<close>

definition pend :: "nat \<Rightarrow> 'e task \<Rightarrow> nat" where
  "pend i t = (if finished t then 0 else count_list (t_waiters t) i)"

definition waits :: "'e session \<Rightarrow> nat \<Rightarrow> nat" where
  "waits s i = sum_list (map (pend i) (tg_slots s))"

definition open1 :: "'e task \<Rightarrow> nat" where
  "open1 t = (if finished t then 0 else 1)"

definition unfin :: "'e session \<Rightarrow> nat" where
  "unfin s = sum_list (map open1 (tg_slots s))"

definition queued :: "'e session \<Rightarrow> nat \<Rightarrow> bool" where
  "queued s i \<longleftrightarrow> i \<in> set (tg_spawned s) \<or> (\<exists>k q. tg_ready s k = Some q \<and> i \<in> set (q_ids q))"

definition closed :: "'e session \<Rightarrow> pool_kind \<Rightarrow> bool" where
  "closed s k \<longleftrightarrow> (case tg_ready s k of None \<Rightarrow> False | Some q \<Rightarrow> q_closed q)"

text \<open>The fields that only \<open>alloc\<close> sets (apart from the links of the children), and those the scheduling looks at.\<close>

definition links :: "'e task \<Rightarrow> nat \<times> nat \<times> nat \<times> nat \<times> string \<times> pool_kind \<times> bool" where
  "links t = (t_parent t, t_firstChild t, t_lastChild t, t_nextSib t, t_name t, t_pool t, t_isolate t)"

definition core :: "'e task \<Rightarrow> (nat \<times> nat \<times> nat \<times> nat \<times> string \<times> pool_kind \<times> bool) \<times> tstate \<times> nat \<times> nat list" where
  "core t = (links t, t_state t, t_remainingDeps t, t_waiters t)"

lemma upd_simps [simp]:
  "tg_len (upd i f s) = tg_len s" "tg_root (upd i f s) = tg_root s" "tg_latest (upd i f s) = tg_latest s"
  "tg_ready (upd i f s) = tg_ready s" "tg_spawned (upd i f s) = tg_spawned s" "tg_tasks (upd i f s) = tg_tasks s"
  "tg_err (upd i f s) = tg_err s" "tg_cause (upd i f s) = tg_cause s" "tg_hard (upd i f s) = tg_hard s"
  by (simp_all add: upd_def)

lemma task_of_upd: "j < tg_len s \<Longrightarrow> task_of (upd i f s) j = (if i = j then f (task_of s j) else task_of s j)"
  by (simp add: upd_def)

lemma task_of_upd_same [simp]: "i < tg_len s \<Longrightarrow> task_of (upd i f s) i = f (task_of s i)"
  by (simp add: upd_def)

lemma task_of_upd_other [simp]: "i \<noteq> j \<Longrightarrow> task_of (upd i f s) j = task_of s j"
  by (simp add: upd_def)

lemma sum_list_upd:
  fixes g :: "'e task \<Rightarrow> nat"
  assumes "d < tg_len s"
  shows "sum_list (map g (tg_slots (upd d f s))) + g (task_of s d) = sum_list (map g (tg_slots s)) + g (f (task_of s d))"
proof -
  have "g (task_of s d) \<le> sum_list (map g (tg_slots s))"
    using assms by (intro member_le_sum_list) (auto intro: imageI)
  then show ?thesis
    using assms by (simp add: upd_def map_update sum_list_update)
qed

lemmas waits_upd = sum_list_upd [of _ _ "pend i" for i, folded waits_def]
lemmas unfin_upd = sum_list_upd [of _ _ open1, folded unfin_def]

lemma sum_list_nth_mono:
  fixes g h :: "'a \<Rightarrow> nat"
  assumes "length ys = length xs" and "\<And>i. i < length xs \<Longrightarrow> h (ys ! i) \<le> g (xs ! i)"
  shows "sum_list (map h ys) \<le> sum_list (map g xs)"
  unfolding sum_list_sum_nth using assms by (auto intro!: sum_mono)

lemma pend_0_iff: "pend i t = 0 \<longleftrightarrow> (\<not> finished t \<longrightarrow> i \<notin> set (t_waiters t))"
  by (simp add: pend_def count_list_0_iff)

lemma waits_0_iff: "waits s i = 0 \<longleftrightarrow> (\<forall>d < tg_len s. \<not> fin s d \<longrightarrow> i \<notin> set (t_waiters (task_of s d)))"
  by (simp add: waits_def sum_list_eq_0_iff pend_0_iff all_set_conv_all_nth)

section \<open>Sessions that make sense\<close>

text \<open>
  Children and siblings have larger numbers, waiters too; the root is never finished; the counted
  dependencies are at least the waits.
\<close>

definition task_ok :: "'e session \<Rightarrow> nat \<Rightarrow> bool" where
  "task_ok s i \<longleftrightarrow>
     (let t = task_of s i in
      (if i < 2 then t_parent t = 0 \<and> t_state t = Pending \<and> t_waiters t = [] else 0 < t_parent t \<and> t_parent t < i) \<and>
      (t_firstChild t = 0 \<or> i < t_firstChild t \<and> t_firstChild t < tg_len s) \<and>
      (t_lastChild t = 0 \<or> i < t_lastChild t \<and> t_lastChild t < tg_len s) \<and>
      (t_nextSib t = 0 \<or> i < t_nextSib t \<and> t_nextSib t < tg_len s) \<and>
      (\<forall>w \<in> set (t_waiters t). i < w \<and> w < tg_len s) \<and>
      waits s i \<le> t_remainingDeps t)"

definition tg_ok :: "'e session \<Rightarrow> bool" where
  "tg_ok s \<longleftrightarrow> 2 \<le> tg_len s \<and> tg_root s = 1 \<and> t_firstChild (task_of s 0) = 0 \<and> (\<forall>k. tg_ready s k = None \<longleftrightarrow> k = Control) \<and>
     (\<forall>i < tg_len s. task_ok s i)"

definition task_evolves :: "'e task \<Rightarrow> 'e task \<Rightarrow> bool" where
  "task_evolves t t' \<longleftrightarrow>
     links t' = links t \<and>
     (t_state t' = t_state t \<and> t_waiters t' = t_waiters t \<or> \<not> finished t \<and> finished t' \<and> t_waiters t' = [])"

text \<open>\<open>n i\<close> counts the dependencies of \<open>i\<close> that were ticked off without their task having finished in between.\<close>

definition evolves_by :: "(nat \<Rightarrow> nat) \<Rightarrow> 'e session \<Rightarrow> 'e session \<Rightarrow> bool" where
  "evolves_by n s s' \<longleftrightarrow>
     tg_len s' = tg_len s \<and> tg_root s' = tg_root s \<and>
     (\<forall>k. map_option q_closed (tg_ready s' k) = map_option q_closed (tg_ready s k)) \<and>
     tg_tasks s' + int (unfin s) = tg_tasks s + int (unfin s') \<and>
     (\<forall>i < tg_len s.
        task_evolves (task_of s i) (task_of s' i) \<and>
        (i < 2 \<longrightarrow> t_state (task_of s' i) = t_state (task_of s i)) \<and>
        (\<not> fin s i \<and> t_state (task_of s' i) = Failed \<longrightarrow> (\<forall>w \<in> set (t_waiters (task_of s i)). fin s' w)) \<and>
        t_remainingDeps (task_of s' i) + n i + waits s i = t_remainingDeps (task_of s i) + waits s' i) \<and>
     (\<forall>i. (queued s i \<longrightarrow> queued s' i) \<and>
          (queued s' i \<longrightarrow> queued s i \<or> 2 \<le> i \<and> i < tg_len s \<and> waits s' i = 0) \<and>
          (i < tg_len s \<and> t_remainingDeps (task_of s i) \<noteq> 0 \<and> t_remainingDeps (task_of s' i) = 0 \<and> t_state (task_of s' i) = Pending
           \<longrightarrow> queued s' i \<or> closed s' (t_pool (task_of s' i))))"

abbreviation evolves :: "'e session \<Rightarrow> 'e session \<Rightarrow> bool" where
  "evolves \<equiv> evolves_by (\<lambda>_. 0)"

text \<open>A change that the scheduling does not see: live links, progress, errors.\<close>

definition quiet :: "'e session \<Rightarrow> 'e session \<Rightarrow> bool" where
  "quiet s s' \<longleftrightarrow>
     map core (tg_slots s') = map core (tg_slots s) \<and> tg_root s' = tg_root s \<and>
     tg_ready s' = tg_ready s \<and> tg_spawned s' = tg_spawned s \<and> tg_tasks s' = tg_tasks s"

lemma quiet_refl [simp, intro]: "quiet s s"
  by (simp add: quiet_def)

lemma quiet_trans [trans]: "quiet s s' \<Longrightarrow> quiet s' s'' \<Longrightarrow> quiet s s''"
  by (simp add: quiet_def)

lemma quiet_upd:
  assumes "\<And>t. core (f t) = core t" and "quiet s s'"
  shows "quiet s (upd i f s')"
proof -
  have "map core (tg_slots (upd i f s')) = map core (tg_slots s')"
    using assms(1) by (cases "i < tg_len s'") (simp_all add: upd_def map_update list_update_same_conv list_update_beyond)
  then show ?thesis
    using assms(2) by (simp add: quiet_def)
qed

lemma quiet_len: "quiet s s' \<Longrightarrow> tg_len s' = tg_len s"
  by (metis quiet_def length_map)

lemma quiet_core: "quiet s s' \<Longrightarrow> i < tg_len s \<Longrightarrow> core (task_of s' i) = core (task_of s i)"
  by (metis quiet_def length_map nth_map)

lemma core_eqD:
  assumes "core t = core u"
  shows "links t = links u" "t_state t = t_state u" "t_remainingDeps t = t_remainingDeps u" "t_waiters t = t_waiters u"
    "finished t = finished u" "pend i t = pend i u"
  using assms by (auto simp: core_def finished_def pend_def)

lemma links_eqD:
  assumes "links t = links u"
  shows "t_parent t = t_parent u" "t_firstChild t = t_firstChild u" "t_lastChild t = t_lastChild u"
    "t_nextSib t = t_nextSib u" "t_name t = t_name u" "t_pool t = t_pool u" "t_isolate t = t_isolate u"
  using assms by (auto simp: links_def)

lemma quiet_sums:
  assumes "quiet s s'"
  shows "waits s' i = waits s i" "unfin s' = unfin s" "queued s' = queued s" "closed s' = closed s"
proof -
  note core = quiet_core [OF assms]
  have "map (pend i) (tg_slots s') = map (pend i) (tg_slots s)"
    by (rule nth_equalityI) (auto simp: quiet_len [OF assms] dest!: core intro: core_eqD(6))
  then show "waits s' i = waits s i"
    by (simp add: waits_def)
  have "map open1 (tg_slots s') = map open1 (tg_slots s)"
    by (rule nth_equalityI) (auto simp: quiet_len [OF assms] open1_def core_eqD(5) [OF core])
  then show "unfin s' = unfin s"
    by (simp add: unfin_def)
  show "queued s' = queued s" "closed s' = closed s"
    using assms by (auto simp: quiet_def queued_def closed_def fun_eq_iff)
qed

lemma quiet_evolves:
  assumes "quiet s s'"
  shows "evolves s s'"
  unfolding evolves_by_def task_evolves_def
  using assms quiet_len [OF assms] quiet_core [OF assms, THEN core_eqD(1)] quiet_core [OF assms, THEN core_eqD(2)]
    quiet_core [OF assms, THEN core_eqD(3)] quiet_core [OF assms, THEN core_eqD(4)] quiet_core [OF assms, THEN core_eqD(5)]
  by (auto simp: quiet_sums [OF assms]) (auto simp: quiet_def finished_def)


section \<open>Laws of the relation\<close>

lemma tg_okD:
  assumes "tg_ok s"
  shows "2 \<le> tg_len s" "tg_root s = 1" "t_firstChild (task_of s 0) = 0" "\<And>k. tg_ready s k = None \<longleftrightarrow> k = Control"
    "\<And>i. i < tg_len s \<Longrightarrow> task_ok s i"
    "\<And>i w. i < tg_len s \<Longrightarrow> w \<in> set (t_waiters (task_of s i)) \<Longrightarrow> 2 \<le> i \<and> i < w \<and> w < tg_len s"
    "\<And>i. i < tg_len s \<Longrightarrow> waits s i \<le> t_remainingDeps (task_of s i)"
    "\<And>i. i < tg_len s \<Longrightarrow> i < 2 \<Longrightarrow> t_parent (task_of s i) = 0 \<and> t_state (task_of s i) = Pending \<and> t_waiters (task_of s i) = []"
    "\<And>i. i < tg_len s \<Longrightarrow> 2 \<le> i \<Longrightarrow> 0 < t_parent (task_of s i) \<and> t_parent (task_of s i) < i"
proof -
  show ok: "task_ok s i" if "i < tg_len s" for i using assms that by (simp add: tg_ok_def)
  show "2 \<le> tg_len s" "tg_root s = 1" "t_firstChild (task_of s 0) = 0" "\<And>k. tg_ready s k = None \<longleftrightarrow> k = Control"
    using assms by (simp_all add: tg_ok_def)
  fix i w assume i: "i < tg_len s"
  note t = ok [OF i, unfolded task_ok_def Let_def]
  show "w \<in> set (t_waiters (task_of s i)) \<Longrightarrow> 2 \<le> i \<and> i < w \<and> w < tg_len s"
    using t by (cases "i < 2") simp_all
  show "waits s i \<le> t_remainingDeps (task_of s i)" using t by simp
  show "i < 2 \<Longrightarrow> t_parent (task_of s i) = 0 \<and> t_state (task_of s i) = Pending \<and> t_waiters (task_of s i) = []"
    "2 \<le> i \<Longrightarrow> 0 < t_parent (task_of s i) \<and> t_parent (task_of s i) < i"
    using t by simp_all
qed

lemma finished_cong: "t_state t = t_state u \<Longrightarrow> finished t = finished u"
  by (simp add: finished_def)

lemma task_evolves_trans:
  assumes "task_evolves t u" "task_evolves u v"
  shows "task_evolves t v"
  using assms unfolding task_evolves_def by (metis finished_cong)

lemma task_evolves_finished: "task_evolves t u \<Longrightarrow> finished t \<Longrightarrow> finished u \<and> t_state u = t_state t"
  unfolding task_evolves_def by (metis finished_cong)

lemma task_evolves_unfinished: "task_evolves t u \<Longrightarrow> \<not> finished u \<Longrightarrow> \<not> finished t \<and> t_state u = t_state t \<and> t_waiters u = t_waiters t"
  unfolding task_evolves_def by (metis finished_cong)

lemma task_evolves_pend: "task_evolves t u \<Longrightarrow> pend i u \<le> pend i t"
  using finished_cong [of u t] by (auto simp: task_evolves_def pend_def)

lemma pending_unfinished: "t_state t = Pending \<Longrightarrow> \<not> finished t"
  by (simp add: finished_def)

lemma evolvesD:
  assumes "evolves_by n s s'"
  shows "tg_len s' = tg_len s" "tg_root s' = tg_root s"
    "\<And>k. map_option q_closed (tg_ready s' k) = map_option q_closed (tg_ready s k)"
    "tg_tasks s' + int (unfin s) = tg_tasks s + int (unfin s')"
    "\<And>i. i < tg_len s \<Longrightarrow> task_evolves (task_of s i) (task_of s' i)"
    "\<And>i w. i < tg_len s \<Longrightarrow> \<not> fin s i \<Longrightarrow> t_state (task_of s' i) = Failed \<Longrightarrow> w \<in> set (t_waiters (task_of s i)) \<Longrightarrow> fin s' w"
    "\<And>i. i < tg_len s \<Longrightarrow> t_remainingDeps (task_of s' i) + n i + waits s i = t_remainingDeps (task_of s i) + waits s' i"
    "\<And>i. queued s i \<Longrightarrow> queued s' i"
    "\<And>i. queued s' i \<Longrightarrow> queued s i \<or> 2 \<le> i \<and> i < tg_len s \<and> waits s' i = 0"
    "\<And>i. i < tg_len s \<Longrightarrow> t_remainingDeps (task_of s i) \<noteq> 0 \<Longrightarrow> t_remainingDeps (task_of s' i) = 0 \<Longrightarrow>
       t_state (task_of s' i) = Pending \<Longrightarrow> queued s' i \<or> closed s' (t_pool (task_of s' i))"
    "\<And>i. i < tg_len s \<Longrightarrow> i < 2 \<Longrightarrow> t_state (task_of s' i) = t_state (task_of s i)"
  using assms by (auto simp: evolves_by_def)

lemma evolves_links:
  assumes "evolves_by n s s'" "i < tg_len s"
  shows "links (task_of s' i) = links (task_of s i)"
  using evolvesD(5) [OF assms] by (simp add: task_evolves_def)

lemma evolves_closed: "evolves_by n s s' \<Longrightarrow> closed s' k = closed s k"
  using evolvesD(3) [of n s s' k] by (auto simp: closed_def split: option.splits)

lemma evolves_waits: "evolves_by n s s' \<Longrightarrow> waits s' i \<le> waits s i"
  unfolding waits_def by (rule sum_list_nth_mono) (auto simp: evolvesD(1) intro: task_evolves_pend dest: evolvesD(5))

lemma evolves_unfin: "evolves_by n s s' \<Longrightarrow> unfin s' \<le> unfin s"
  unfolding unfin_def
  by (rule sum_list_nth_mono) (auto simp: evolvesD(1) open1_def dest: evolvesD(5) task_evolves_finished)

lemma evolves_fin: "evolves_by n s s' \<Longrightarrow> i < tg_len s \<Longrightarrow> fin s i \<Longrightarrow> fin s' i"
  by (blast dest: evolvesD(5) task_evolves_finished)

lemma evolves_refl [simp, intro]: "evolves s s"
  by (rule quiet_evolves) simp

lemma evolves_by_trans:
  assumes st: "evolves_by m s s'" and tu: "evolves_by n s' s''" and ok: "tg_ok s"
  shows "evolves_by (\<lambda>i. m i + n i) s s''"
  unfolding evolves_by_def
proof (intro conjI allI impI ballI)
  note D1 = evolvesD [OF st] and D2 = evolvesD [OF tu]
  have len: "tg_len s' = tg_len s" by (rule D1(1))
  show "tg_len s'' = tg_len s" "tg_root s'' = tg_root s" using D1(1,2) D2(1,2) by simp_all
  show "tg_tasks s'' + int (unfin s) = tg_tasks s + int (unfin s'')" using D1(4) D2(4) by simp
  fix i
  show "map_option q_closed (tg_ready s'' k) = map_option q_closed (tg_ready s k)" for k using D1(3) D2(3) by simp
  show "queued s i \<Longrightarrow> queued s'' i" using D1(8) D2(8) by blast
  show "queued s i \<or> 2 \<le> i \<and> i < tg_len s \<and> waits s'' i = 0" if "queued s'' i"
    using D2(9) [OF that] D1(9) [of i] evolves_waits [OF tu, of i] len by auto
  assume i: "i < tg_len s"
  then have i': "i < tg_len s'" by (simp add: len)
  show "task_evolves (task_of s i) (task_of s'' i)" using D1(5) [OF i] D2(5) [OF i'] by (rule task_evolves_trans)
  show "t_state (task_of s'' i) = t_state (task_of s i)" if "i < 2" using D1(11) [OF i that] D2(11) [OF i' that] by simp
  show "t_remainingDeps (task_of s'' i) + (m i + n i) + waits s i = t_remainingDeps (task_of s i) + waits s'' i"
    using D1(7) [OF i] D2(7) [OF i'] by simp
next
  note D1 = evolvesD [OF st] and D2 = evolvesD [OF tu]
  fix i w
  assume i: "i < tg_len s" and f: "\<not> fin s i \<and> t_state (task_of s'' i) = Failed" and w: "w \<in> set (t_waiters (task_of s i))"
  have i': "i < tg_len s'" using i D1(1) by simp
  have wl: "w < tg_len s" using tg_okD(6) [OF ok i w] by simp
  show "fin s'' w"
  proof (cases "fin s' i")
    case True
    then have "t_state (task_of s' i) = Failed" using D2(5) [OF i'] f by (metis task_evolves_finished)
    then have "fin s' w" using D1(6) [OF i] f w by blast
    then show ?thesis using tu wl D1(1) by (metis evolves_fin)
  next
    case False
    then have "t_waiters (task_of s' i) = t_waiters (task_of s i)" using D1(5) [OF i] by (metis task_evolves_unfinished)
    then show ?thesis using D2(6) [OF i' False] f w by simp
  qed
next
  note D1 = evolvesD [OF st] and D2 = evolvesD [OF tu]
  fix i
  assume a: "i < tg_len s \<and> t_remainingDeps (task_of s i) \<noteq> 0 \<and> t_remainingDeps (task_of s'' i) = 0 \<and> t_state (task_of s'' i) = Pending"
  have i': "i < tg_len s'" using a D1(1) by simp
  show "queued s'' i \<or> closed s'' (t_pool (task_of s'' i))"
  proof (cases "t_remainingDeps (task_of s' i) = 0")
    case True
    have "t_state (task_of s' i) = Pending"
      using a D2(5) [OF i'] by (metis pending_unfinished task_evolves_unfinished)
    then have "queued s' i \<or> closed s' (t_pool (task_of s' i))" using D1(10) [of i] a True by blast
    then show ?thesis using D2(8) evolves_closed [OF tu] links_eqD(6) [OF evolves_links [OF tu i']] by auto
  next
    case False
    show ?thesis by (rule D2(10) [OF i' False]) (simp_all add: a)
  qed
qed

lemma evolves_trans:
  assumes "evolves s s'" "evolves s' s''" "tg_ok s"
  shows "evolves s s''"
  using evolves_by_trans [OF assms] by simp

lemma evolves_by_ok:
  assumes ev: "evolves_by n s s'" and ok: "tg_ok s" and n: "\<And>i. i < tg_len s \<Longrightarrow> waits s i + n i \<le> t_remainingDeps (task_of s i)"
  shows "tg_ok s'"
proof -
  note D = evolvesD [OF ev]
  have "task_ok s' i" if i: "i < tg_len s" for i
  proof -
    have t: "task_ok s i" using ok i by (simp add: tg_ok_def)
    note l = links_eqD [OF evolves_links [OF ev i]]
    have w: "set (t_waiters (task_of s' i)) \<subseteq> set (t_waiters (task_of s i))"
      using D(5) [OF i] by (auto simp: task_evolves_def)
    have "waits s' i \<le> t_remainingDeps (task_of s' i)"
      using D(7) [OF i] n [OF i] by simp
    moreover have "t_waiters (task_of s' i) = []" if "i < 2"
      using tg_okD(8) [OF ok i that] w by simp
    moreover have "\<forall>x \<in> set (t_waiters (task_of s' i)). i < x \<and> x < tg_len s'"
      using w tg_okD(6) [OF ok i] D(1) by auto
    ultimately show ?thesis
      using t [unfolded task_ok_def Let_def] D(11) [OF i] unfolding task_ok_def Let_def l D(1) by presburger
  qed
  moreover have "tg_ready s' k = None \<longleftrightarrow> tg_ready s k = None" for k
    using D(3) [of k] by (metis option.map_disc_iff)
  moreover have "0 < tg_len s" using tg_okD(1) [OF ok] by linarith
  ultimately show ?thesis
    using ok D(1,2) links_eqD(2) [OF evolves_links [OF ev, of 0]] by (auto simp: tg_ok_def)
qed

lemma evolves_ok:
  assumes "evolves s s'" "tg_ok s"
  shows "tg_ok s'"
  using evolves_by_ok [OF assms] tg_okD(7) [OF assms(2)] by simp

section \<open>The small steps\<close>

lemma core_updates [simp]:
  "core (t\<lparr>t_firstLive := x\<rparr>) = core t" "core (t\<lparr>t_lastLive := x\<rparr>) = core t"
  "core (t\<lparr>t_prevLive := x\<rparr>) = core t" "core (t\<lparr>t_nextLive := x\<rparr>) = core t"
  "core (t\<lparr>t_liveN := v\<rparr>) = core t" "core (t\<lparr>t_err := e\<rparr>) = core t" "core (t\<lparr>t_cancelled := e\<rparr>) = core t"
  "core (t\<lparr>t_message := m\<rparr>) = core t" "core (t\<lparr>t_current := v\<rparr>) = core t" "core (t\<lparr>t_total := v\<rparr>) = core t"
  by (simp_all add: core_def links_def)

lemma quiet_unlinkLive: "quiet s (unlinkLive i s)"
  by (auto simp: unlinkLive_def Let_def intro!: quiet_upd)

lemma quiet_moveLiveFront: "quiet s (moveLiveFront i s)"
  by (auto simp: moveLiveFront_def Let_def intro!: quiet_upd quiet_unlinkLive)

lemma quiet_linkLive: "quiet s (linkLive p i s)"
  by (auto simp: linkLive_def Let_def intro!: quiet_upd)

lemma quiet_pruneIdleAncestors: "pruneIdleAncestors f i s = Some s' \<Longrightarrow> quiet s s'"
proof (induction f arbitrary: i s)
  case 0
  then show ?case by (auto simp: pruneIdleAncestors.simps [of 0] split: if_splits)
next
  case (Suc f)
  show ?case
    using Suc.prems by (auto simp: pruneIdleAncestors.simps [of "Suc f"] split: if_splits
        intro: quiet_trans [OF quiet_unlinkLive] dest: Suc.IH)
qed

lemma quiet_leave_live: "leave_live i s = Some s' \<Longrightarrow> quiet s s'"
  by (auto simp: leave_live_def split: if_splits dest!: quiet_pruneIdleAncestors intro: quiet_trans [OF quiet_unlinkLive])

lemma quiet_session [simp]:
  "quiet s (s\<lparr>tg_err := e\<rparr>)" "quiet s (s\<lparr>tg_cause := e\<rparr>)" "quiet s (s\<lparr>tg_hard := b\<rparr>)" "quiet s (s\<lparr>tg_latest := l\<rparr>)"
  by (simp_all add: quiet_def)

lemma quiet_set_cause [simp]: "quiet s (set_cause e s)"
  by (simp add: set_cause_def)

lemma evolves_enqueue:
  assumes "tg_ok s" "2 \<le> w" "w < tg_len s" "waits s w = 0"
  shows "evolves s (enqueueLocked w s)" "queued (enqueueLocked w s) w \<or> closed (enqueueLocked w s) (t_pool (task_of s w))"
proof -
  let ?s' = "enqueueLocked w s"
  have same: "tg_slots ?s' = tg_slots s" "tg_root ?s' = tg_root s" "tg_tasks ?s' = tg_tasks s"
    by (auto simp: enqueueLocked_def Let_def split: option.splits)
  have "\<exists>q'. tg_ready ?s' k = Some q' \<and> set (q_ids q) \<subseteq> set (q_ids q')" if "tg_ready s k = Some q" for k q
    using that by (auto simp: enqueueLocked_def Let_def q_push_def split: option.splits)
  moreover have "set (tg_spawned s) \<subseteq> set (tg_spawned ?s')"
    by (auto simp: enqueueLocked_def Let_def split: option.splits)
  ultimately have q1: "queued s i \<Longrightarrow> queued ?s' i" for i
    unfolding queued_def by blast
  have q2: "queued ?s' i \<Longrightarrow> queued s i \<or> i = w" for i
    by (auto simp: enqueueLocked_def Let_def queued_def q_push_def split: option.splits if_splits)
  have k: "map_option q_closed (tg_ready ?s' k) = map_option q_closed (tg_ready s k)" for k
    by (auto simp: enqueueLocked_def Let_def q_push_def split: option.splits)
  show "evolves s ?s'"
    using assms same q1 q2 k by (auto simp: evolves_by_def task_evolves_def waits_def unfin_def finished_def)
  show "queued ?s' w \<or> closed ?s' (t_pool (task_of s w))"
    using tg_okD(4) [OF assms(1), of "t_pool (task_of s w)"]
    by (auto simp: enqueueLocked_def Let_def queued_def closed_def q_push_def)
qed

lemma dec_deps_simps [simp]:
  "tg_len (dec_deps w s) = tg_len s" "tg_root (dec_deps w s) = tg_root s" "tg_ready (dec_deps w s) = tg_ready s"
  "tg_tasks (dec_deps w s) = tg_tasks s" "queued (dec_deps w s) = queued s" "closed (dec_deps w s) = closed s"
  by (simp_all add: dec_deps_def queued_def closed_def fun_eq_iff)

lemma dec_deps_same:
  assumes "i < tg_len s"
  shows "links (task_of (dec_deps w s) i) = links (task_of s i)" "t_state (task_of (dec_deps w s) i) = t_state (task_of s i)"
    "t_waiters (task_of (dec_deps w s) i) = t_waiters (task_of s i)" "fin (dec_deps w s) i = fin s i"
    "t_remainingDeps (task_of (dec_deps w s) i) = t_remainingDeps (task_of s i) - (if i = w then 1 else 0)"
  using assms by (simp_all add: dec_deps_def task_of_upd links_def finished_def)

lemma dec_deps_sums:
  assumes "w < tg_len s"
  shows "waits (dec_deps w s) i = waits s i" "unfin (dec_deps w s) = unfin s"
  using waits_upd [OF assms, of "\<lambda>d. d\<lparr>t_remainingDeps := t_remainingDeps d - 1\<rparr>" i]
    unfin_upd [OF assms, of "\<lambda>d. d\<lparr>t_remainingDeps := t_remainingDeps d - 1\<rparr>"]
  by (simp_all add: dec_deps_def pend_def open1_def finished_def split: if_splits)

lemma dec_deps_ok:
  assumes "tg_ok s" "w < tg_len s" "waits s w < t_remainingDeps (task_of s w)"
  shows "tg_ok (dec_deps w s)"
proof -
  have "task_ok (dec_deps w s) i" if "i < tg_len s" for i
    using tg_okD(5) [OF assms(1) that] assms(3) dec_deps_same [OF that, of w] links_eqD [OF dec_deps_same(1) [OF that, of w]]
    by (cases "i = w") (simp_all add: task_ok_def Let_def dec_deps_sums [OF assms(2)])
  moreover have "0 < tg_len s" using assms(2) by linarith
  ultimately show ?thesis
    using tg_okD(1-4) [OF assms(1)] links_eqD(2) [OF dec_deps_same(1), of 0 s w] by (simp add: tg_ok_def)
qed

lemma evolves_dec_deps:
  assumes ev: "evolves (dec_deps w s) s'" and w: "w < tg_len s" and pos: "0 < t_remainingDeps (task_of s w)"
    and out: "t_state (task_of s' w) \<noteq> Pending \<or> queued s' w \<or> closed s' (t_pool (task_of s w)) \<or> t_remainingDeps (task_of s' w) \<noteq> 0"
  shows "evolves_by (count_list [w]) s s'"
  unfolding evolves_by_def
proof (intro conjI allI impI ballI)
  note D = evolvesD [OF ev, unfolded dec_deps_simps dec_deps_sums [OF w]] and S = dec_deps_same [of _ s w]
  show "tg_len s' = tg_len s" "tg_root s' = tg_root s" "tg_tasks s' + int (unfin s) = tg_tasks s + int (unfin s')"
    by (simp_all add: D(1,2,4))
  fix i
  show "map_option q_closed (tg_ready s' k) = map_option q_closed (tg_ready s k)" for k by (rule D(3))
  show "queued s i \<Longrightarrow> queued s' i" by (rule D(8))
  show "queued s' i \<Longrightarrow> queued s i \<or> 2 \<le> i \<and> i < tg_len s \<and> waits s' i = 0" by (rule D(9))
  assume i: "i < tg_len s"
  show "task_evolves (task_of s i) (task_of s' i)"
    using D(5) [OF i] S(1-4) [OF i] by (simp add: task_evolves_def)
  show "t_state (task_of s' i) = t_state (task_of s i)" if "i < 2" using D(11) [OF i that] S(2) [OF i] by simp
  show "t_remainingDeps (task_of s' i) + count_list [w] i + waits s i = t_remainingDeps (task_of s i) + waits s' i"
    using D(7) [OF i] S(5) [OF i] pos by auto
  show "fin s' v" if "\<not> fin s i \<and> t_state (task_of s' i) = Failed" "v \<in> set (t_waiters (task_of s i))" for v
    using D(6) [OF i] S(3,4) [OF i] that by simp
next
  note D = evolvesD [OF ev, unfolded dec_deps_simps dec_deps_sums [OF w]] and S = dec_deps_same [of _ s w]
  fix i
  assume a: "i < tg_len s \<and> t_remainingDeps (task_of s i) \<noteq> 0 \<and> t_remainingDeps (task_of s' i) = 0 \<and> t_state (task_of s' i) = Pending"
  then have i: "i < tg_len s" by simp
  have l: "t_pool (task_of s' i) = t_pool (task_of s i)"
    using links_eqD(6) [OF evolves_links [OF ev]] links_eqD(6) [OF S(1) [OF i]] i by simp
  show "queued s' i \<or> closed s' (t_pool (task_of s' i))"
  proof (cases "i = w")
    case True
    then show ?thesis using out a l by auto
  next
    case False
    then show ?thesis using D(10) [OF i] S(5) [OF i] a by simp
  qed
qed

text \<open>Marking a task finished, and the bookkeeping at the end of \<open>finishLocked\<close>.\<close>

lemma mark_finished_simps [simp]:
  "tg_len (mark_finished i err s) = tg_len s" "tg_root (mark_finished i err s) = tg_root s"
  "tg_ready (mark_finished i err s) = tg_ready s" "tg_tasks (mark_finished i err s) = tg_tasks s"
  "j \<noteq> i \<Longrightarrow> task_of (mark_finished i err s) j = task_of s j"
  "queued (mark_finished i err s) = queued s" "closed (mark_finished i err s) = closed s"
  by (simp_all add: mark_finished_def queued_def closed_def fun_eq_iff)

lemma mark_finished_task:
  assumes "i < tg_len s"
  shows "links (task_of (mark_finished i err s) i) = links (task_of s i)"
    "t_waiters (task_of (mark_finished i err s) i) = t_waiters (task_of s i)"
    "t_remainingDeps (task_of (mark_finished i err s) i) = t_remainingDeps (task_of s i)"
    "t_state (task_of (mark_finished i err s) i) = (if err = None then Done else Failed)"
    "fin (mark_finished i err s) i"
  using assms by (auto simp: mark_finished_def links_def finished_def split: option.splits)

lemma mark_finished_sums:
  assumes "i < tg_len s" "\<not> fin s i"
  shows "waits (mark_finished i err s) j + count_list (t_waiters (task_of s i)) j = waits s j"
    "Suc (unfin (mark_finished i err s)) = unfin s"
  using waits_upd [OF assms(1), of _ j] unfin_upd [OF assms(1)] assms(2)
  by (auto simp: mark_finished_def pend_def open1_def finished_def split: option.splits)

lemma mark_finished_ok:
  assumes ok: "tg_ok s" and i: "2 \<le> i" "i < tg_len s" "\<not> fin s i"
  shows "tg_ok (mark_finished i err s)"
proof -
  let ?s = "mark_finished i err s"
  have "task_ok ?s j" if j: "j < tg_len s" for j
    using tg_okD(5) [OF ok j] mark_finished_sums(1) [OF i(2,3), of err j] mark_finished_task [OF i(2), of err] i(1)
      links_eqD [OF mark_finished_task(1) [OF i(2), of err]]
    by (cases "j = i") (simp_all add: task_ok_def Let_def)
  then show ?thesis
    using tg_okD(1-4) [OF ok] i(1) by (simp add: tg_ok_def)
qed

lemma account_simps [simp]:
  "tg_len (account i s) = tg_len s" "tg_root (account i s) = tg_root s" "tg_ready (account i s) = tg_ready s"
  "tg_tasks (account i s) = tg_tasks s - 1" "queued (account i s) = queued s" "closed (account i s) = closed s"
  by (simp_all add: account_def Let_def queued_def closed_def fun_eq_iff)

lemma account_task:
  "j < tg_len s \<Longrightarrow> task_of (account i s) j = (if i = j then (task_of s j)\<lparr>t_waiters := []\<rparr> else task_of s j)"
  by (simp add: account_def Let_def task_of_upd)

lemma account_sums:
  assumes "i < tg_len s" "fin s i"
  shows "waits (account i s) j = waits s j" "unfin (account i s) = unfin s"
proof -
  have "tg_slots (account i s) = tg_slots (upd i (\<lambda>t. t\<lparr>t_waiters := []\<rparr>) s)"
    by (simp add: account_def Let_def)
  then show "waits (account i s) j = waits s j" "unfin (account i s) = unfin s"
    using waits_upd [OF assms(1), of "\<lambda>t. t\<lparr>t_waiters := []\<rparr>" j] unfin_upd [OF assms(1), of "\<lambda>t. t\<lparr>t_waiters := []\<rparr>"] assms(2)
    by (simp_all add: waits_def unfin_def pend_def open1_def finished_def)
qed

lemma finish_evolves:
  assumes ok: "tg_ok s" and i: "2 \<le> i" "i < tg_len s" "\<not> fin s i"
    and ev: "evolves_by (count_list (t_waiters (task_of s i))) (mark_finished i err s) s'"
    and ws: "err \<noteq> None \<Longrightarrow> \<forall>w \<in> set (t_waiters (task_of s i)). fin s' w"
  shows "evolves s (account i s')" "fin (account i s') i"
proof -
  let ?m = "mark_finished i err s"
  note D = evolvesD [OF ev, unfolded mark_finished_simps] and M = mark_finished_task [OF i(2), of err]
  have fin_i: "fin s' i" using D(5) [OF i(2)] M(5) by (metis task_evolves_finished)
  have st_i: "t_state (task_of s' i) = (if err = None then Done else Failed)"
    using D(5) [OF i(2)] M(4,5) by (metis task_evolves_finished)
  note A = account_sums [OF _ fin_i] and T = account_task [of _ s' i]
  have len: "tg_len s' = tg_len s" by (rule D(1))
  have fin: "fin (account i s') j = fin s' j" if "j < tg_len s" for j
    using T [of j] that len by (simp add: finished_def)
  have w_lt: "w < tg_len s" if "j < tg_len s" "w \<in> set (t_waiters (task_of s j))" for j w
    using tg_okD(6) [OF ok that] by simp
  show "fin (account i s') i" using fin [OF i(2)] fin_i by simp
  show "evolves s (account i s')"
    unfolding evolves_by_def account_simps
  proof (intro conjI allI impI ballI)
    show "tg_len s' = tg_len s" "tg_root s' = tg_root s" by (simp_all add: D(1,2))
    show "tg_tasks s' - 1 + int (unfin s) = tg_tasks s + int (unfin (account i s'))"
      using D(4) mark_finished_sums(2) [OF i(2,3), of err] A(2) len i(2) by simp
    fix j
    show "map_option q_closed (tg_ready s' k) = map_option q_closed (tg_ready s k)" for k by (rule D(3))
    show "queued s j \<Longrightarrow> queued s' j" by (rule D(8))
    show "queued s' j \<Longrightarrow> queued s j \<or> 2 \<le> j \<and> j < tg_len s \<and> waits (account i s') j = 0"
      using D(9) [of j] A(1) len i(2) by simp
    assume j: "j < tg_len s"
    note mj = mark_finished_simps(5) [of j i err s]
    show "task_evolves (task_of s j) (task_of (account i s') j)"
    proof (cases "j = i")
      case True
      have "links (task_of s' i) = links (task_of s i)" using evolves_links [OF ev] i(2) M(1) by simp
      then show ?thesis using T [of i] True i fin_i len by (simp add: task_evolves_def finished_def links_def)
    next
      case False
      then show ?thesis using D(5) [OF j] mj T [of j] j len by simp
    qed
    show "t_state (task_of (account i s') j) = t_state (task_of s j)" if "j < 2"
      using D(11) [OF j that] mj T [of j] j len i(1) that by simp
    show "t_remainingDeps (task_of (account i s') j) + 0 + waits s j = t_remainingDeps (task_of s j) + waits (account i s') j"
      using D(7) [OF j] mark_finished_sums(1) [OF i(2,3), of err j] A(1) T [of j] j len i(2) mj M(3) by (cases "j = i") simp_all
    show "fin (account i s') w" if f: "\<not> fin s j \<and> t_state (task_of (account i s') j) = Failed" and w: "w \<in> set (t_waiters (task_of s j))" for w
    proof -
      have "fin s' w"
      proof (cases "j = i")
        case True
        then have "err \<noteq> None" using f st_i T [of i] i(2) len by (auto split: if_splits)
        then show ?thesis using ws w True by blast
      next
        case False
        then show ?thesis using D(6) [OF j] mj T [of j] f w j len by simp
      qed
      then show ?thesis using fin [OF w_lt [OF j w]] by simp
    qed
  next
    fix j
    assume a: "j < tg_len s \<and> t_remainingDeps (task_of s j) \<noteq> 0 \<and> t_remainingDeps (task_of (account i s') j) = 0 \<and>
      t_state (task_of (account i s') j) = Pending"
    then have j: "j < tg_len s" by simp
    have "j \<noteq> i" using a fin [of i] fin_i i(2) pending_unfinished by blast
    then show "queued s' j \<or> closed s' (t_pool (task_of (account i s') j))"
      using D(10) [OF j] a T [of j] len by simp
  qed
qed

section \<open>The runner\<close>

lemma isolate_above_range:
  "isolate_above f p s = Some q \<Longrightarrow> tg_ok s \<Longrightarrow> p < tg_len s \<Longrightarrow> q < tg_len s"
proof (induction f arbitrary: p)
  case 0
  then show ?case by (auto simp: isolate_above.simps [of 0] split: if_splits)
next
  case (Suc f)
  have "t_parent (task_of s p) < tg_len s" if "p \<noteq> 0" "p \<noteq> tg_root s"
    using tg_okD(9) [OF Suc.prems(2,3)] tg_okD(2) [OF Suc.prems(2)] that Suc.prems(3) by (cases "p < 2") auto
  then show ?case
    using Suc.prems Suc.IH by (auto simp: isolate_above.simps [of "Suc f"] split: if_splits)
qed

lemma isolateOf_range:
  assumes "isolateOf f i s = Some q" "tg_ok s" "i < tg_len s"
  shows "q < tg_len s"
proof -
  have "t_parent (task_of s i) < tg_len s"
    using tg_okD(8,9) [OF assms(2,3)] assms(3) by (cases "i < 2") auto
  then show ?thesis
    using assms isolate_above_range [OF _ assms(2)] by (auto simp: isolateOf_def split: option.splits if_splits)
qed

lemma quiet_ok: "quiet s s1 \<Longrightarrow> tg_ok s \<Longrightarrow> tg_ok s1"
  by (rule evolves_ok [OF quiet_evolves])

lemma quiet_then: "quiet s s1 \<Longrightarrow> evolves s1 s' \<Longrightarrow> tg_ok s \<Longrightarrow> evolves s s'"
  by (rule evolves_trans [OF quiet_evolves])

text \<open>The children and the next sibling of a task are tasks a call may be made at.\<close>

lemma link_ok:
  assumes ok: "tg_ok s" and i: "i < tg_len s" "0 < i"
  shows "t_firstChild (task_of s i) = 0 \<or> 2 \<le> t_firstChild (task_of s i) \<and> i < t_firstChild (task_of s i) \<and> t_firstChild (task_of s i) < tg_len s"
    "t_nextSib (task_of s i) = 0 \<or> 2 \<le> t_nextSib (task_of s i) \<and> i < t_nextSib (task_of s i) \<and> t_nextSib (task_of s i) < tg_len s"
  using tg_okD(5) [OF ok i(1)] i(2) by (auto simp: task_ok_def Let_def)

lemma quiet_blame: "quiet s (blame anc err s)"
  unfolding blame_def by (rule quiet_upd) simp_all

text \<open>The tasks a call may be made at.\<close>

fun call_ok :: "'e tcall \<Rightarrow> 'e session \<Rightarrow> bool" where
  "call_ok (Finish i err) s \<longleftrightarrow> 2 \<le> i \<and> i < tg_len s"
| "call_ok (FailSubtree i) s \<longleftrightarrow> 0 < i \<and> i < tg_len s"
| "call_ok (FailOutside i) s \<longleftrightarrow> 0 < i \<and> i < tg_len s"
| "call_ok (FailChildren c) s \<longleftrightarrow> c = 0 \<or> 2 \<le> c \<and> c < tg_len s"
| "call_ok (FailOutsideChildren c) s \<longleftrightarrow> c = 0 \<or> 2 \<le> c \<and> c < tg_len s"

locale runner =
  fixes rc :: "'e runner"
  assumes rc_evolves: "rc c s = Some s' \<Longrightarrow> tg_ok s \<Longrightarrow> call_ok c s \<Longrightarrow> evolves s s'"
    and rc_finish: "rc (Finish i err) s = Some s' \<Longrightarrow> tg_ok s \<Longrightarrow> 2 \<le> i \<Longrightarrow> i < tg_len s \<Longrightarrow> fin s' i"
begin

lemma waiter_step:
  assumes ok: "tg_ok s" and w: "2 \<le> w" "w < tg_len s" "waits s w < t_remainingDeps (task_of s w)"
    and s': "if err \<noteq> None then rc (Finish w (Some e)) (dec_deps w s) = Some s'
             else s' = (if t_remainingDeps (task_of (dec_deps w s) w) = 0 \<and> t_state (task_of (dec_deps w s) w) = Pending
                        then enqueueLocked w (dec_deps w s) else dec_deps w s)"
  shows "evolves_by (count_list [w]) s s'" "err \<noteq> None \<Longrightarrow> fin s' w"
proof -
  let ?d = "dec_deps w s"
  have okd: "tg_ok ?d" by (rule dec_deps_ok [OF ok w(2,3)])
  have w0: "waits ?d w = 0" if "t_remainingDeps (task_of ?d w) = 0"
    using that tg_okD(7) [OF okd, of w] w(2) by simp
  show f: "fin s' w" if "err \<noteq> None" using s' that rc_finish [OF _ okd] w by simp
  have pool: "t_pool (task_of ?d w) = t_pool (task_of s w)" using links_eqD(6) [OF dec_deps_same(1) [OF w(2)]] .
  have "evolves ?d s'"
    using s' rc_evolves [OF _ okd] evolves_enqueue(1) [OF okd] w w0 by (auto split: if_splits)
  moreover have "t_state (task_of s' w) \<noteq> Pending \<or> queued s' w \<or> closed s' (t_pool (task_of s w)) \<or> t_remainingDeps (task_of s' w) \<noteq> 0"
  proof (cases "err = None \<and> t_remainingDeps (task_of ?d w) = 0 \<and> t_state (task_of ?d w) = Pending")
    case True
    then show ?thesis using s' evolves_enqueue(2) [OF okd w(1) _ w0] w(2) pool by auto
  next
    case False
    then show ?thesis using s' f pending_unfinished by (auto split: if_splits)
  qed
  ultimately show "evolves_by (count_list [w]) s s'"
    using w by (intro evolves_dec_deps) auto
qed


lemma finish_waiters_evolves:
  assumes "finish_waiters rc name err ws s = Some s'" "tg_ok s" "\<forall>w \<in> set ws. 2 \<le> w \<and> w < tg_len s"
    and "\<And>i. i < tg_len s \<Longrightarrow> waits s i + count_list ws i \<le> t_remainingDeps (task_of s i)"
  shows "evolves_by (count_list ws) s s' \<and> (err \<noteq> None \<longrightarrow> (\<forall>w \<in> set ws. fin s' w))"
  using assms
proof (induction ws arbitrary: s)
  case Nil
  have "count_list [] = (\<lambda>_ :: nat. 0)" by (simp add: fun_eq_iff)
  then show ?case using Nil.prems(1) by simp
next
  case (Cons w ws)
  note ok = Cons.prems(2) and le = Cons.prems(4)
  have w: "2 \<le> w" "w < tg_len s" using Cons.prems(3) by simp_all
  have wlt: "waits s w < t_remainingDeps (task_of s w)" using le [OF w(2)] by simp
  obtain s1 where s1: "if err \<noteq> None then rc (Finish w (Some (ErrDependencyFailed name err))) (dec_deps w s) = Some s1
      else s1 = (if t_remainingDeps (task_of (dec_deps w s) w) = 0 \<and> t_state (task_of (dec_deps w s) w) = Pending
                 then enqueueLocked w (dec_deps w s) else dec_deps w s)"
    and rest: "finish_waiters rc name err ws s1 = Some s'"
    using Cons.prems(1) by (cases err) (auto simp: Let_def bind_eq_Some_conv)
  note step = waiter_step [OF ok w wlt s1]
  note D = evolvesD [OF step(1)]
  have "tg_ok s1" by (rule evolves_by_ok [OF step(1) ok]) (use le in \<open>fastforce split: if_splits\<close>)
  moreover have "\<forall>w \<in> set ws. 2 \<le> w \<and> w < tg_len s1" using Cons.prems(3) D(1) by simp
  moreover have "waits s1 i + count_list ws i \<le> t_remainingDeps (task_of s1 i)" if "i < tg_len s1" for i
    using D(7) [of i] le [of i] that D(1) by (auto split: if_splits)
  ultimately have IH: "evolves_by (count_list ws) s1 s'" "err \<noteq> None \<longrightarrow> (\<forall>w \<in> set ws. fin s' w)"
    using Cons.IH [OF rest] by auto
  have "evolves_by (\<lambda>i. count_list [w] i + count_list ws i) s s'" by (rule evolves_by_trans [OF step(1) IH(1) ok])
  moreover have "(\<lambda>i. count_list [w] i + count_list ws i) = count_list (w # ws)" by (simp add: fun_eq_iff)
  moreover have "fin s' w" if "err \<noteq> None" using evolves_fin [OF IH(1)] step(2) [OF that] w(2) D(1) by simp
  ultimately show ?case using IH(2) by (metis set_ConsD)
qed

lemma spread_error_evolves:
  assumes s': "spread_error rc i err s = Some s'" and ok: "tg_ok s" and i: "2 \<le> i" "i < tg_len s"
  shows "evolves s s'"
proof (cases "err = None \<or> t_isolate (task_of s i)")
  case True
  then show ?thesis using s' by (auto simp: spread_error_def)
next
  case False
  then obtain anc where anc: "isolateOf (tg_len s) i s = Some anc"
    and r: "(if anc \<noteq> 0 then rc (FailSubtree anc) (blame anc err s) else if tg_err s = None then recordError rc err s else Some s) = Some s'"
    using s' by (auto simp: spread_error_def blame_def bind_eq_Some_conv)
  show ?thesis
  proof (cases "anc = 0")
    case True
    have q: "quiet s (set_cause err (s\<lparr>tg_err := err\<rparr>))" by (rule quiet_trans [OF quiet_session(1) quiet_set_cause])
    note rc_evolves [OF _ quiet_ok [OF q ok], of "FailOutside (tg_root s)" s']
    then show ?thesis using r True tg_okD(1,2) [OF ok] quiet_then [OF q _ ok]
      by (auto simp: recordError_def quiet_len [OF q] split: if_splits)
  next
    case False
    have q: "quiet s (blame anc err s)" by (rule quiet_blame)
    have "evolves (blame anc err s) s'"
      by (rule rc_evolves [OF _ quiet_ok [OF q ok], of "FailSubtree anc"]) (use r False isolateOf_range [OF anc ok i(2)] quiet_len [OF q] in simp_all)
    then show ?thesis by (rule quiet_then [OF q _ ok])
  qed
qed

lemma finishLocked_evolves:
  assumes s': "finishLocked rc i err s = Some s'" and ok: "tg_ok s" and i: "2 \<le> i" "i < tg_len s"
  shows "evolves s s'" "fin s' i"
proof -
  have "evolves s s' \<and> fin s' i"
  proof (cases "fin s i")
    case True
    then show ?thesis using s' by (auto simp: finishLocked_def)
  next
    case unf: False
    let ?m = "mark_finished i err s" and ?ws = "t_waiters (task_of s i)"
    obtain s2 s3 s4 where s2: "leave_live i ?m = Some s2" and s3: "spread_error rc i err s2 = Some s3"
      and s4: "finish_waiters rc (t_name (task_of s3 i)) err (t_waiters (task_of s3 i)) s3 = Some s4" and acc: "s' = account i s4"
      using s' unf by (auto simp: finishLocked_def bind_eq_Some_conv)
    have okm: "tg_ok ?m" by (rule mark_finished_ok [OF ok i unf])
    have e2: "evolves ?m s2" by (rule quiet_evolves [OF quiet_leave_live [OF s2]])
    have ok2: "tg_ok s2" by (rule evolves_ok [OF e2 okm])
    have e3: "evolves ?m s3"
      using evolves_trans [OF e2 spread_error_evolves [OF s3 ok2 i(1)] okm] i(2) evolvesD(1) [OF e2] by simp
    have ok3: "tg_ok s3" by (rule evolves_ok [OF e3 okm])
    note D3 = evolvesD [OF e3, unfolded mark_finished_simps] and M = mark_finished_task [OF i(2), of err]
    have ws: "t_waiters (task_of s3 i) = ?ws"
      using D3(5) [OF i(2)] M(2,5) by (simp add: task_evolves_def)
    have le: "waits s3 j + count_list ?ws j \<le> t_remainingDeps (task_of s3 j)" if "j < tg_len s3" for j
      using D3(7) [of j] tg_okD(7) [OF ok, of j] mark_finished_sums(1) [OF i(2) unf, of err j] that D3(1) M(3)
      by (cases "j = i") simp_all
    have rng: "\<forall>w \<in> set ?ws. 2 \<le> w \<and> w < tg_len s3" using tg_okD(6) [OF ok i(2)] D3(1) by fastforce
    note F = finish_waiters_evolves [OF s4 [unfolded ws] ok3 rng le]
    have "evolves_by (count_list ?ws) ?m s4" using evolves_by_trans [OF e3 conjunct1 [OF F] okm] by simp
    then show ?thesis using finish_evolves [OF ok i unf, of err s4] F acc by blast
  qed
  then show "evolves s s'" "fin s' i" by simp_all
qed

lemma fail_evolves:
  assumes ok: "tg_ok s" and c: "call_ok c s" and ev: "evolves s s1"
    and s': "(if i \<noteq> tg_root s1 \<and> t_state (task_of s1 i) = Pending then rc (Finish i e) s1 else Some s1) = Some s'"
    and i: "0 < i" "i < tg_len s"
  shows "evolves s s'"
proof (cases "i \<noteq> tg_root s1 \<and> t_state (task_of s1 i) = Pending")
  case True
  have ok1: "tg_ok s1" by (rule evolves_ok [OF ev ok])
  then have "2 \<le> i" using True i(1) tg_okD(2) [OF ok1] by simp
  then have "evolves s1 s'" using True s' rc_evolves [OF _ ok1] i(2) evolvesD(1) [OF ev] by simp
  then show ?thesis by (rule evolves_trans [OF ev _ ok])
next
  case False
  then have "s1 = s'" using s' by (auto split: if_splits)
  then show ?thesis using ev by simp
qed

lemma children_evolves:
  assumes "Option.bind (rc c s) (rc d) = Some s'" "tg_ok s" "call_ok c s" "\<And>s1. tg_len s1 = tg_len s \<Longrightarrow> call_ok d s1"
  shows "evolves s s'"
proof -
  obtain s1 where s1: "rc c s = Some s1" "rc d s1 = Some s'" using assms(1) by (auto simp: bind_eq_Some_conv)
  have ev: "evolves s s1" by (rule rc_evolves [OF s1(1) assms(2,3)])
  have "evolves s1 s'" by (rule rc_evolves [OF s1(2) evolves_ok [OF ev assms(2)] assms(4) [OF evolvesD(1) [OF ev]]])
  then show ?thesis by (rule evolves_trans [OF ev _ assms(2)])
qed

lemma tg_call_evolves:
  assumes s': "tg_call cause rc c s = Some s'" and ok: "tg_ok s" and c: "call_ok c s"
  shows "evolves s s'"
proof (cases c)
  case (Finish i err)
  then show ?thesis using s' c finishLocked_evolves(1) [OF _ ok] by simp
next
  case (FailSubtree i)
  then obtain s1 where s1: "rc (FailChildren (t_firstChild (task_of s i))) s = Some s1"
    and r: "(if i \<noteq> tg_root s1 \<and> t_state (task_of s1 i) = Pending then rc (Finish i (subtree_error cause i s1)) s1 else Some s1) = Some s'"
    using s' by (auto simp: failSubtree_def bind_eq_Some_conv)
  have "evolves s s1" by (rule rc_evolves [OF s1 ok]) (use link_ok(1) [OF ok, of i] c FailSubtree in auto)
  then show ?thesis using fail_evolves [OF ok c _ r] c FailSubtree by simp
next
  case (FailOutside i)
  then obtain s1 where s1: "rc (FailOutsideChildren (t_firstChild (task_of s i))) s = Some s1"
    and r: "(if i \<noteq> tg_root s1 \<and> t_state (task_of s1 i) = Pending then rc (Finish i (tg_cause s1)) s1 else Some s1) = Some s'"
    using s' by (auto simp: failOutsideIsolates_def bind_eq_Some_conv)
  have "evolves s s1" by (rule rc_evolves [OF s1 ok]) (use link_ok(1) [OF ok, of i] c FailOutside in auto)
  then show ?thesis using fail_evolves [OF ok c _ r] c FailOutside by simp
next
  case (FailChildren k)
  show ?thesis
  proof (cases "k = 0")
    case False
    then have "Option.bind (rc (FailSubtree k) s) (rc (FailChildren (t_nextSib (task_of s k)))) = Some s'"
      using s' FailChildren by (simp add: fail_children_def Let_def)
    then show ?thesis
      by (rule children_evolves [OF _ ok]) (use False c FailChildren link_ok(2) [OF ok, of k] in auto)
  qed (use s' FailChildren in \<open>simp add: fail_children_def\<close>)
next
  case (FailOutsideChildren k)
  show ?thesis
  proof (cases "k = 0")
    case False
    then consider "rc (FailOutsideChildren (t_nextSib (task_of s k))) s = Some s'"
      | "Option.bind (rc (FailOutside k) s) (rc (FailOutsideChildren (t_nextSib (task_of s k)))) = Some s'"
      using s' FailOutsideChildren by (auto simp: fail_outside_children_def Let_def split: if_splits)
    then show ?thesis
      using False c FailOutsideChildren link_ok(2) [OF ok, of k]
      by cases (auto intro!: rc_evolves [OF _ ok] elim!: children_evolves [OF _ ok])
  qed (use s' FailOutsideChildren in \<open>simp add: fail_outside_children_def\<close>)
qed

lemma tg_call_runner: "runner (tg_call cause rc)"
  by unfold_locales (auto intro: tg_call_evolves finishLocked_evolves(2))

end

lemma tg_run_runner: "runner (tg_run cause f)"
proof (induction f)
  case 0
  show ?case by unfold_locales simp_all
next
  case (Suc f)
  then show ?case by (simp add: runner.tg_call_runner)
qed

interpretation tg: runner "tg_run cause f" for cause f
  by (rule tg_run_runner)

end
