(* ===== verification/TaskGroupFuel.thy ===== *)
theory TaskGroupFuel
  imports TaskGroupSafe
begin

text \<open>
  The recursion of \<open>finishLocked\<close>, \<open>failSubtree\<close> and \<open>failOutsideIsolates\<close> ends: \<open>need\<close> bounds the
  depth of a call, the locale \<open>total_runner\<close> says that a runner with that much fuel returns, and
  its interpretation shows it of \<open>tg_run\<close>. So \<open>finish\<close> always returns (\<open>finish_total\<close>).
\<close>

section \<open>The fuel is enough\<close>

text \<open>
  Each finished task lowers \<open>unfin\<close>; between two of them the calls only go to larger task numbers.
\<close>

definition finish_need :: "'e session \<Rightarrow> nat" where
  "finish_need s = unfin s * (2 * tg_len s + 4) + 1"

fun need :: "'e tcall \<Rightarrow> 'e session \<Rightarrow> nat" where
  "need (Finish i err) s = finish_need s"
| "need (FailSubtree i) s = 2 * (tg_len s - i) + 2 + finish_need s"
| "need (FailOutside i) s = 2 * (tg_len s - i) + 2 + finish_need s"
| "need (FailChildren c) s = (if c = 0 then 1 else 2 * (tg_len s - c) + 3 + finish_need s)"
| "need (FailOutsideChildren c) s = (if c = 0 then 1 else 2 * (tg_len s - c) + 3 + finish_need s)"

lemma need_mono:
  assumes "unfin s' \<le> unfin s" "tg_len s' = tg_len s"
  shows "need c s' \<le> need c s"
  using assms by (cases c) (simp_all add: finish_need_def)

lemma evolves_need: "evolves_by n s s' \<Longrightarrow> need c s' \<le> need c s"
  by (rule need_mono) (simp_all add: evolves_unfin evolvesD(1))

lemma pruneIdleAncestors_total:
  "tg_ok s \<Longrightarrow> i < tg_len s \<Longrightarrow> i \<le> f \<Longrightarrow> \<exists>s'. pruneIdleAncestors f i s = Some s'"
proof (induction f arbitrary: i s)
  case 0
  then show ?case by (simp add: pruneIdleAncestors.simps [of 0])
next
  case (Suc f)
  have "\<exists>s'. pruneIdleAncestors f (t_parent (task_of s i)) (unlinkLive i s) = Some s'" if "i \<noteq> 0" "i \<noteq> tg_root s"
  proof (rule Suc.IH)
    have "t_parent (task_of s i) < i"
      using tg_okD(2,9) [OF Suc.prems(1)] Suc.prems(2) that by (cases "i < 2") auto
    then show "t_parent (task_of s i) < tg_len (unlinkLive i s)" "t_parent (task_of s i) \<le> f"
      using Suc.prems quiet_len [OF quiet_unlinkLive [of s i]] by simp_all
  qed (rule quiet_ok [OF quiet_unlinkLive Suc.prems(1)])
  then show ?case by (auto simp: pruneIdleAncestors.simps [of "Suc f"])
qed

lemma leave_live_total:
  assumes "tg_ok s" "i < tg_len s"
  shows "\<exists>s'. leave_live i s = Some s'"
proof -
  have "t_parent (task_of s i) < tg_len s"
    using tg_okD(8,9) [OF assms] assms(2) by (cases "i < 2") auto
  then show ?thesis
    using pruneIdleAncestors_total [OF quiet_ok [OF quiet_unlinkLive assms(1)], of "t_parent (task_of s i)" i "tg_len s"]
      quiet_len [OF quiet_unlinkLive [of s i]]
    by (simp add: leave_live_def)
qed

lemma isolate_above_total:
  "tg_ok s \<Longrightarrow> p < tg_len s \<Longrightarrow> p \<le> f \<Longrightarrow> \<exists>q. isolate_above f p s = Some q"
proof (induction f arbitrary: p)
  case 0
  then show ?case by (simp add: isolate_above.simps [of 0])
next
  case (Suc f)
  have "t_parent (task_of s p) < p" if "p \<noteq> 0" "p \<noteq> tg_root s"
    using tg_okD(2,9) [OF Suc.prems(1)] Suc.prems(2) that by (cases "p < 2") auto
  then have "\<exists>q. isolate_above f (t_parent (task_of s p)) s = Some q" if "p \<noteq> 0" "p \<noteq> tg_root s"
    using that Suc.prems by (intro Suc.IH) auto
  then show ?case by (auto simp: isolate_above.simps [of "Suc f"])
qed

lemma isolateOf_total:
  assumes "tg_ok s" "i < tg_len s"
  shows "\<exists>q. isolateOf (tg_len s) i s = Some q"
proof -
  have "t_parent (task_of s i) < tg_len s"
    using tg_okD(8,9) [OF assms] assms(2) by (cases "i < 2") auto
  then show ?thesis
    using isolate_above_total [OF assms(1), of "t_parent (task_of s i)" "tg_len s"] by (auto simp: isolateOf_def)
qed

locale total_runner = runner +
  fixes fuel :: nat
  assumes rc_total: "tg_ok s \<Longrightarrow> call_ok c s \<Longrightarrow> need c s \<le> fuel \<Longrightarrow> \<exists>s'. rc c s = Some s'"
begin

lemma finish_waiters_total:
  assumes "tg_ok s" "\<forall>w \<in> set ws. 2 \<le> w \<and> w < tg_len s" "finish_need s \<le> fuel"
    and "\<And>i. i < tg_len s \<Longrightarrow> waits s i + count_list ws i \<le> t_remainingDeps (task_of s i)"
  shows "\<exists>s'. finish_waiters rc name err ws s = Some s'"
  using assms
proof (induction ws arbitrary: s)
  case Nil
  show ?case by simp
next
  case (Cons w ws)
  note ok = Cons.prems(1) and le = Cons.prems(4)
  have w: "2 \<le> w" "w < tg_len s" using Cons.prems(2) by simp_all
  have wlt: "waits s w < t_remainingDeps (task_of s w)" using le [OF w(2)] by simp
  have "\<exists>s1. rc (Finish w (Some (ErrDependencyFailed name err))) (dec_deps w s) = Some s1"
    by (rule rc_total [OF dec_deps_ok [OF ok w(2) wlt]])
      (use w Cons.prems(3) in \<open>simp_all add: finish_need_def dec_deps_sums\<close>)
  then obtain s1 where s1: "if err \<noteq> None then rc (Finish w (Some (ErrDependencyFailed name err))) (dec_deps w s) = Some s1
      else s1 = (if t_remainingDeps (task_of (dec_deps w s) w) = 0 \<and> t_state (task_of (dec_deps w s) w) = Pending
                 then enqueueLocked w (dec_deps w s) else dec_deps w s)"
    by (cases err) auto
  note step = waiter_step(1) [OF ok w wlt s1]
  note D = evolvesD [OF step]
  have "\<exists>s'. finish_waiters rc name err ws s1 = Some s'"
  proof (rule Cons.IH)
    show "tg_ok s1" by (rule evolves_by_ok [OF step ok]) (use le in \<open>fastforce split: if_splits\<close>)
    show "\<forall>w \<in> set ws. 2 \<le> w \<and> w < tg_len s1" using Cons.prems(2) D(1) by simp
    show "finish_need s1 \<le> fuel" using evolves_need [OF step, of "Finish w err"] Cons.prems(3) by simp
    show "waits s1 i + count_list ws i \<le> t_remainingDeps (task_of s1 i)" if "i < tg_len s1" for i
      using D(7) [of i] le [of i] that D(1) by (auto split: if_splits)
  qed
  then show ?case using s1 by (cases err) (simp_all add: Let_def)
qed

lemma spread_error_total:
  assumes ok: "tg_ok s" and i: "2 \<le> i" "i < tg_len s" and fuel: "2 * tg_len s + 2 + finish_need s \<le> fuel"
  shows "\<exists>s'. spread_error rc i err s = Some s'"
proof -
  obtain anc where anc: "isolateOf (tg_len s) i s = Some anc" using isolateOf_total [OF ok i(2)] by blast
  have total: "\<exists>s'. rc c s1 = Some s'" if "quiet s s1" "call_ok c s1" "c = FailSubtree anc \<or> c = FailOutside 1" for s1 c
    using that fuel need_mono [of s1 s c] quiet_sums(2) [OF that(1)] quiet_len [OF that(1)]
    by (intro rc_total quiet_ok [OF that(1) ok]) (auto simp: finish_need_def)
  have q: "quiet s (set_cause err (s\<lparr>tg_err := err\<rparr>))" by (rule quiet_trans [OF quiet_session(1) quiet_set_cause])
  have "\<exists>s'. rc (FailSubtree anc) (blame anc err s) = Some s'" if "anc \<noteq> 0"
    using total [OF quiet_blame] that isolateOf_range [OF anc ok i(2)] quiet_len [OF quiet_blame [of s anc err]] by simp
  moreover have "\<exists>s'. recordError rc err s = Some s'"
    using total [OF q, of "FailOutside 1"] tg_okD(1,2) [OF ok] quiet_len [OF q] by (auto simp: recordError_def)
  ultimately show ?thesis using anc by (auto simp: spread_error_def)
qed

lemma finishLocked_total:
  assumes ok: "tg_ok s" and i: "2 \<le> i" "i < tg_len s" and fuel: "finish_need s \<le> Suc fuel"
  shows "\<exists>s'. finishLocked rc i err s = Some s'"
proof (cases "fin s i")
  case True
  then show ?thesis by (simp add: finishLocked_def)
next
  case unf: False
  let ?m = "mark_finished i err s" and ?ws = "t_waiters (task_of s i)"
  have okm: "tg_ok ?m" by (rule mark_finished_ok [OF ok i unf])
  obtain s2 where s2: "leave_live i ?m = Some s2" using leave_live_total [OF okm] i(2) by auto
  have e2: "evolves ?m s2" by (rule quiet_evolves [OF quiet_leave_live [OF s2]])
  have ok2: "tg_ok s2" and len2: "tg_len s2 = tg_len s" using evolves_ok [OF e2 okm] evolvesD(1) [OF e2] by simp_all
  have "unfin s2 < unfin s" using mark_finished_sums(2) [OF i(2) unf, of err] evolves_unfin [OF e2] by linarith
  then have "(unfin s2 + 1) * (2 * tg_len s + 4) \<le> unfin s * (2 * tg_len s + 4)" by (intro mult_right_mono) auto
  then have f2: "2 * tg_len s2 + 2 + finish_need s2 \<le> fuel" using fuel len2 by (simp add: finish_need_def algebra_simps)
  obtain s3 where s3: "spread_error rc i err s2 = Some s3" using spread_error_total [OF ok2 i(1) _ f2] i(2) len2 by auto
  have e23: "evolves s2 s3" by (rule spread_error_evolves [OF s3 ok2 i(1)]) (use i(2) len2 in simp)
  have e3: "evolves ?m s3" by (rule evolves_trans [OF e2 e23 okm])
  have ok3: "tg_ok s3" by (rule evolves_ok [OF e3 okm])
  note D3 = evolvesD [OF e3, unfolded mark_finished_simps] and M = mark_finished_task [OF i(2), of err]
  have ws: "t_waiters (task_of s3 i) = ?ws" using D3(5) [OF i(2)] M(2,5) by (simp add: task_evolves_def)
  have "\<exists>s4. finish_waiters rc (t_name (task_of s3 i)) err ?ws s3 = Some s4"
  proof (rule finish_waiters_total [OF ok3])
    show "\<forall>w \<in> set ?ws. 2 \<le> w \<and> w < tg_len s3" using tg_okD(6) [OF ok i(2)] D3(1) by fastforce
    show "finish_need s3 \<le> fuel" using evolves_need [OF e23, of "Finish i err"] f2 by simp
    show "waits s3 j + count_list ?ws j \<le> t_remainingDeps (task_of s3 j)" if "j < tg_len s3" for j
      using D3(7) [of j] tg_okD(7) [OF ok, of j] mark_finished_sums(1) [OF i(2) unf, of err j] that D3(1) M(3)
      by (cases "j = i") simp_all
  qed
  then show ?thesis using unf s2 s3 ws by (auto simp: finishLocked_def)
qed

text \<open>A call, and then another in the session it leaves.\<close>

lemma then_total:
  assumes ok: "tg_ok s" and c: "call_ok c s" "need c s \<le> fuel"
    and d: "\<And>s1. evolves s s1 \<Longrightarrow> tg_ok s1 \<Longrightarrow> \<exists>s'. g s1 = Some s'"
  shows "\<exists>s'. Option.bind (rc c s) g = Some s'"
proof -
  obtain s1 where s1: "rc c s = Some s1" using rc_total [OF ok c] by blast
  have "evolves s s1" by (rule rc_evolves [OF s1 ok c(1)])
  then show ?thesis using d evolves_ok [OF _ ok] s1 by simp
qed

lemma later_total: "evolves s s1 \<Longrightarrow> tg_ok s1 \<Longrightarrow> call_ok c s1 \<Longrightarrow> need c s \<le> fuel \<Longrightarrow> \<exists>s'. rc c s1 = Some s'"
  by (rule rc_total, assumption+) (rule order_trans [OF evolves_need])

lemma fail_total:
  assumes "evolves s s1" "tg_ok s1" "0 < i" "i < tg_len s" "finish_need s \<le> fuel"
  shows "\<exists>s'. (if i \<noteq> tg_root s1 \<and> t_state (task_of s1 i) = Pending then rc (Finish i e) s1 else Some s1) = Some s'"
proof (cases "i \<noteq> tg_root s1 \<and> t_state (task_of s1 i) = Pending")
  case True
  then have "2 \<le> i" using assms(3) tg_okD(2) [OF assms(2)] by simp
  then have "\<exists>s'. rc (Finish i e) s1 = Some s'"
    using later_total [OF assms(1,2), of "Finish i e"] assms(4,5) evolvesD(1) [OF assms(1)] by simp
  then show ?thesis using True by simp
qed auto

lemma children_total:
  assumes ok: "tg_ok s" and c: "call_ok c s" "need c s \<le> fuel"
    and d: "\<And>s1. tg_len s1 = tg_len s \<Longrightarrow> call_ok d s1" "need d s \<le> fuel"
  shows "\<exists>s'. Option.bind (rc c s) (rc d) = Some s'"
proof (rule then_total [OF ok c])
  fix s1 assume ev: "evolves s s1" and ok1: "tg_ok s1"
  show "\<exists>s'. rc d s1 = Some s'" by (rule later_total [OF ev ok1 d(1) [OF evolvesD(1) [OF ev]] d(2)])
qed

lemma tg_call_total:
  assumes ok: "tg_ok s" and c: "call_ok c s" "need c s \<le> Suc fuel"
  shows "\<exists>s'. tg_call cause rc c s = Some s'"
proof (cases c)
  case (Finish i err)
  then show ?thesis using finishLocked_total [OF ok] c by simp
next
  case (FailSubtree i)
  have "\<exists>s'. failSubtree cause rc i s = Some s'"
    unfolding failSubtree_def
    by (rule then_total [OF ok], use link_ok(1) [OF ok, of i] c FailSubtree in force, use link_ok(1) [OF ok, of i] c FailSubtree in force,
        rule fail_total [of s]) (use c FailSubtree in simp_all)
  then show ?thesis using FailSubtree by simp
next
  case (FailOutside i)
  have "\<exists>s'. failOutsideIsolates rc i s = Some s'"
    unfolding failOutsideIsolates_def
    by (rule then_total [OF ok], use link_ok(1) [OF ok, of i] c FailOutside in force, use link_ok(1) [OF ok, of i] c FailOutside in force,
        rule fail_total [of s]) (use c FailOutside in simp_all)
  then show ?thesis using FailOutside by simp
next
  case (FailChildren k)
  have "\<exists>s'. Option.bind (rc (FailSubtree k) s) (rc (FailChildren (t_nextSib (task_of s k)))) = Some s'" if "k \<noteq> 0"
    by (rule children_total [OF ok]) (use that link_ok(2) [OF ok, of k] c FailChildren in auto)
  then show ?thesis using FailChildren by (simp add: fail_children_def Let_def)
next
  case (FailOutsideChildren k)
  have "\<exists>s'. Option.bind (rc (FailOutside k) s) (rc (FailOutsideChildren (t_nextSib (task_of s k)))) = Some s'" if "k \<noteq> 0"
    by (rule children_total [OF ok]) (use that link_ok(2) [OF ok, of k] c FailOutsideChildren in auto)
  moreover have "\<exists>s'. rc (FailOutsideChildren (t_nextSib (task_of s k))) s = Some s'" if "k \<noteq> 0"
    by (rule rc_total [OF ok]) (use that link_ok(2) [OF ok, of k] c FailOutsideChildren in auto)
  ultimately show ?thesis using FailOutsideChildren by (simp add: fail_outside_children_def Let_def)
qed

lemma tg_call_total_runner: "total_runner (tg_call cause rc) (Suc fuel)"
  by (intro total_runner.intro tg_call_runner total_runner_axioms.intro tg_call_total)

end

lemma need_pos: "0 < need c s"
  by (cases c) (simp_all add: finish_need_def)

lemma tg_run_total_runner: "total_runner (tg_run cause f) f"
proof (induction f)
  case 0
  show ?case
    by (intro total_runner.intro tg_run_runner total_runner_axioms.intro) (metis need_pos leD)
next
  case (Suc f)
  then show ?case by (simp add: total_runner.tg_call_total_runner)
qed

interpretation tgt: total_runner "tg_run cause f" f for cause f
  by (rule tg_run_total_runner)

lemma unfin_le: "unfin s \<le> tg_len s"
  using sum_list_nth_mono [of "tg_slots s" "tg_slots s" open1 "\<lambda>_. 1"] by (simp add: unfin_def open1_def sum_list_triv)

lemma finish_total:
  assumes "tg_ok s" "2 \<le> i" "i < tg_len s"
  shows "\<exists>s'. finish cause i err s = Some s'"
proof -
  have "unfin s * (2 * tg_len s + 4) \<le> tg_len s * (2 * tg_len s + 4)" using unfin_le by (rule mult_right_mono) simp
  then have "finish_need s \<le> tg_fuel s" by (simp add: finish_need_def tg_fuel_def algebra_simps)
  then show ?thesis using assms by (simp add: finish_def tgt.rc_total)
qed

lemma finish_evolves_fin:
  assumes "finish cause i err s = Some s'" "tg_ok s" "2 \<le> i" "i < tg_len s"
  shows "evolves s s'" "fin s' i"
  using assms unfolding finish_def by (auto intro: tg.rc_evolves tg.rc_finish)

end
