(* ===== verification/TaskGroupInv.thy ===== *)
theory TaskGroupInv
  imports TaskGroupFuel
begin

text \<open>
  The invariant of a session between two locked sections (\<open>tg_inv\<close>), what every later session
  keeps of an earlier one (\<open>later\<close>), and that \<open>goTask\<close> returns, keeps both, and records each
  dependency of the new task (\<open>goTask_spec\<close>).
\<close>

section \<open>The invariant of a session\<close>

text \<open>
  \<open>P\<close> holds the tasks a worker has taken out of a queue and not yet started, \<open>X\<close> a task whose
  scheduling is not complete.
\<close>

definition tg_inv :: "nat set \<Rightarrow> nat set \<Rightarrow> 'e session \<Rightarrow> bool" where
  "tg_inv P X s \<longleftrightarrow>
     tg_ok s \<and> tg_tasks s + 2 = int (unfin s) \<and>
     (\<forall>i. queued s i \<or> i \<in> P \<longrightarrow> 2 \<le> i \<and> i < tg_len s \<and> waits s i = 0) \<and>
     (\<forall>i < tg_len s. fin s i \<longrightarrow> t_waiters (task_of s i) = []) \<and>
     (\<forall>i < tg_len s. t_state (task_of s i) = Running \<longrightarrow> waits s i = 0) \<and>
     (\<forall>i < tg_len s. 2 \<le> i \<and> t_state (task_of s i) = Pending \<longrightarrow>
        t_remainingDeps (task_of s i) = waits s i \<and>
        (waits s i = 0 \<longrightarrow> queued s i \<or> closed s (t_pool (task_of s i)) \<or> i \<in> P \<union> X))"

lemma tg_invD:
  assumes "tg_inv P X s"
  shows "tg_ok s" "tg_tasks s + 2 = int (unfin s)"
    "\<And>i. queued s i \<or> i \<in> P \<Longrightarrow> 2 \<le> i \<and> i < tg_len s \<and> waits s i = 0"
    "\<And>i. i < tg_len s \<Longrightarrow> fin s i \<Longrightarrow> t_waiters (task_of s i) = []"
    "\<And>i. i < tg_len s \<Longrightarrow> t_state (task_of s i) = Running \<Longrightarrow> waits s i = 0"
    "\<And>i. i < tg_len s \<Longrightarrow> 2 \<le> i \<Longrightarrow> t_state (task_of s i) = Pending \<Longrightarrow> t_remainingDeps (task_of s i) = waits s i"
    "\<And>i. i < tg_len s \<Longrightarrow> 2 \<le> i \<Longrightarrow> t_state (task_of s i) = Pending \<Longrightarrow> waits s i = 0 \<Longrightarrow>
       queued s i \<or> closed s (t_pool (task_of s i)) \<or> i \<in> P \<union> X"
  using assms unfolding tg_inv_def by blast+

lemma evolves_inv:
  assumes ev: "evolves s s'" and inv: "tg_inv P X s"
  shows "tg_inv P X s'"
  unfolding tg_inv_def
proof (intro conjI allI impI)
  note D = evolvesD [OF ev] and I = tg_invD [OF inv]
  show "tg_ok s'" by (rule evolves_ok [OF ev I(1)])
  show "tg_tasks s' + 2 = int (unfin s')" using D(4) I(2) by simp
  fix i
  have q: "2 \<le> i \<and> i < tg_len s \<and> waits s' i = 0" if "queued s' i \<or> i \<in> P"
    using that D(9) [of i] I(3) [of i] evolves_waits [OF ev, of i] by auto
  then show "queued s' i \<or> i \<in> P \<Longrightarrow> 2 \<le> i" "queued s' i \<or> i \<in> P \<Longrightarrow> i < tg_len s'" "queued s' i \<or> i \<in> P \<Longrightarrow> waits s' i = 0"
    using D(1) by simp_all
  assume "i < tg_len s'"
  then have i: "i < tg_len s" using D(1) by simp
  show "fin s' i \<Longrightarrow> t_waiters (task_of s' i) = []"
    using D(5) [OF i] I(4) [OF i] by (metis finished_cong task_evolves_def)
  show "waits s' i = 0" if "t_state (task_of s' i) = Running"
  proof -
    have "\<not> fin s' i" using that by (simp add: finished_def)
    then have "t_state (task_of s i) = Running" using that D(5) [OF i] by (metis task_evolves_unfinished)
    then show ?thesis using I(5) [OF i] evolves_waits [OF ev, of i] by simp
  qed
  assume p: "2 \<le> i \<and> t_state (task_of s' i) = Pending"
  then have ps: "t_state (task_of s i) = Pending" using D(5) [OF i] by (metis pending_unfinished task_evolves_unfinished)
  show eq: "t_remainingDeps (task_of s' i) = waits s' i" using I(6) [OF i _ ps] D(7) [OF i] p by simp
  assume "waits s' i = 0"
  then have r0: "t_remainingDeps (task_of s' i) = 0" using eq by simp
  show "queued s' i \<or> closed s' (t_pool (task_of s' i)) \<or> i \<in> P \<union> X"
  proof (cases "waits s i = 0")
    case True
    then show ?thesis
      using I(7) [OF i _ ps] p D(8) [of i] evolves_closed [OF ev] links_eqD(6) [OF evolves_links [OF ev i]] by auto
  next
    case False
    then have "t_remainingDeps (task_of s i) \<noteq> 0" using I(6) [OF i _ ps] p by simp
    then show ?thesis using D(10) [OF i _ r0] p by blast
  qed
qed

section \<open>What later sessions keep\<close>

text \<open>Finished tasks stay; a waiter stays a waiter until its task has finished; a failure finishes the waiters.\<close>

definition later :: "'e session \<Rightarrow> 'e session \<Rightarrow> bool" where
  "later s s' \<longleftrightarrow>
     tg_len s \<le> tg_len s' \<and>
     (\<forall>d < tg_len s.
        (fin s d \<longrightarrow> t_state (task_of s' d) = t_state (task_of s d)) \<and>
        (\<not> fin s' d \<longrightarrow> set (t_waiters (task_of s d)) \<subseteq> set (t_waiters (task_of s' d))) \<and>
        (\<not> fin s d \<and> t_state (task_of s' d) = Failed \<longrightarrow> (\<forall>w \<in> set (t_waiters (task_of s d)). fin s' w)))"

lemma later_refl [simp]: "later s s"
  by (auto simp: later_def finished_def)

lemma laterD:
  assumes "later s s'"
  shows "tg_len s \<le> tg_len s'"
    "\<And>d. d < tg_len s \<Longrightarrow> fin s d \<Longrightarrow> t_state (task_of s' d) = t_state (task_of s d)"
    "\<And>d w. d < tg_len s \<Longrightarrow> \<not> fin s' d \<Longrightarrow> w \<in> set (t_waiters (task_of s d)) \<Longrightarrow> w \<in> set (t_waiters (task_of s' d))"
    "\<And>d w. d < tg_len s \<Longrightarrow> \<not> fin s d \<Longrightarrow> t_state (task_of s' d) = Failed \<Longrightarrow> w \<in> set (t_waiters (task_of s d)) \<Longrightarrow> fin s' w"
  using assms unfolding later_def by blast+

lemma later_fin: "later s s' \<Longrightarrow> d < tg_len s \<Longrightarrow> fin s d \<Longrightarrow> fin s' d"
  by (metis laterD(2) finished_cong)

lemma later_trans:
  assumes a: "later s s'" and b: "later s' s''" and ok: "tg_ok s"
  shows "later s s''"
  unfolding later_def
proof (intro conjI allI impI ballI)
  note A = laterD [OF a] and B = laterD [OF b]
  show "tg_len s \<le> tg_len s''" using A(1) B(1) by simp
  fix d assume d: "d < tg_len s"
  then have d': "d < tg_len s'" using A(1) by simp
  show "t_state (task_of s'' d) = t_state (task_of s d)" if "fin s d"
    using A(2) [OF d that] B(2) [OF d' later_fin [OF a d that]] by simp
  show "set (t_waiters (task_of s d)) \<subseteq> set (t_waiters (task_of s'' d))" if "\<not> fin s'' d"
    using A(3) [OF d] B(3) [OF d' that] later_fin [OF b d'] that by blast
  fix w assume f: "\<not> fin s d \<and> t_state (task_of s'' d) = Failed" and w: "w \<in> set (t_waiters (task_of s d))"
  have wl: "w < tg_len s'" using tg_okD(6) [OF ok d w] A(1) by simp
  show "fin s'' w"
  proof (cases "fin s' d")
    case True
    then have "t_state (task_of s' d) = Failed" using B(2) [OF d'] f by simp
    then have "fin s' w" using A(4) [OF d] f w by blast
    then show ?thesis by (rule later_fin [OF b wl])
  next
    case False
    then have "w \<in> set (t_waiters (task_of s' d))" by (rule A(3) [OF d _ w])
    then show ?thesis using B(4) [OF d' False] f by blast
  qed
qed

lemma evolves_later:
  assumes ev: "evolves_by n s s'"
  shows "later s s'"
  unfolding later_def
proof (intro conjI allI impI ballI)
  fix d assume d: "d < tg_len s"
  note t = evolvesD(5) [OF ev d]
  show "fin s d \<Longrightarrow> t_state (task_of s' d) = t_state (task_of s d)" using t task_evolves_finished by blast
  show "\<not> fin s' d \<Longrightarrow> set (t_waiters (task_of s d)) \<subseteq> set (t_waiters (task_of s' d))"
    using t by (metis order_refl task_evolves_unfinished)
  show "fin s' w" if "\<not> fin s d \<and> t_state (task_of s' d) = Failed" "w \<in> set (t_waiters (task_of s d))" for w
    using evolvesD(6) [OF ev d] that by blast
qed (simp add: evolvesD(1) [OF ev])

text \<open>The record of a dependency: it is done, or \<open>i\<close> is in its list of waiters, or \<open>i\<close> itself has finished.\<close>

definition pinned :: "'e session \<Rightarrow> nat \<Rightarrow> nat \<Rightarrow> bool" where
  "pinned s i d \<longleftrightarrow> d < tg_len s \<and> i < tg_len s \<and>
     (fin s i \<or> t_state (task_of s d) = Done \<or> \<not> fin s d \<and> i \<in> set (t_waiters (task_of s d)))"

lemma pinned_later:
  assumes l: "later s s'" and p: "pinned s i d"
  shows "pinned s' i d"
proof -
  note L = laterD [OF l]
  have d: "d < tg_len s'" "d < tg_len s" and i: "i < tg_len s'" "i < tg_len s"
    using p L(1) by (simp_all add: pinned_def)
  consider "fin s i" | "t_state (task_of s d) = Done" | "\<not> fin s d" "i \<in> set (t_waiters (task_of s d))"
    using p by (auto simp: pinned_def)
  then show ?thesis
  proof cases
    case 1
    then show ?thesis using later_fin [OF l i(2)] d i by (simp add: pinned_def)
  next
    case 2
    then have "t_state (task_of s' d) = Done" using L(2) [OF d(2)] by (simp add: finished_def)
    then show ?thesis using d i by (simp add: pinned_def)
  next
    case 3
    have "fin s' i" if "t_state (task_of s' d) = Failed" by (rule L(4) [OF d(2) 3(1) that 3(2)])
    moreover have "i \<in> set (t_waiters (task_of s' d))" if "\<not> fin s' d" by (rule L(3) [OF d(2) that 3(2)])
    moreover have "\<not> fin s' d \<or> t_state (task_of s' d) = Failed \<or> t_state (task_of s' d) = Done" by (auto simp: finished_def)
    ultimately show ?thesis using d(1) i(1) unfolding pinned_def by blast
  qed
qed

lemma pinned_running:
  assumes inv: "tg_inv P X s" and p: "pinned s i d" and r: "t_state (task_of s i) = Running"
  shows "t_state (task_of s d) = Done"
proof -
  have "waits s i = 0" using tg_invD(5) [OF inv _ r] p by (simp add: pinned_def)
  moreover have "\<not> fin s i" using r by (simp add: finished_def)
  ultimately show ?thesis using p by (auto simp: pinned_def waits_0_iff)
qed

text \<open>No task begins to run.\<close>

definition no_start :: "'e session \<Rightarrow> 'e session \<Rightarrow> bool" where
  "no_start s s' \<longleftrightarrow> (\<forall>j < tg_len s'. t_state (task_of s' j) = Running \<longrightarrow> j < tg_len s \<and> t_state (task_of s j) = Running)"

lemma no_start_refl [simp]: "no_start s s"
  by (simp add: no_start_def)

lemma no_start_trans: "no_start s s' \<Longrightarrow> no_start s' s'' \<Longrightarrow> no_start s s''"
  unfolding no_start_def by blast

lemma evolves_no_start:
  assumes ev: "evolves s s'"
  shows "no_start s s'"
  unfolding no_start_def
proof (intro allI impI)
  fix i assume i: "i < tg_len s'" and r: "t_state (task_of s' i) = Running"
  have i': "i < tg_len s" using i evolvesD(1) [OF ev] by simp
  have "\<not> fin s' i" using r by (simp add: finished_def)
  then have "t_state (task_of s' i) = t_state (task_of s i)" using evolvesD(5) [OF ev i'] by (blast dest: task_evolves_unfinished)
  then show "i < tg_len s \<and> t_state (task_of s i) = Running" using i' r by simp
qed

section \<open>Scheduling\<close>

text \<open>\<open>linkChild\<close> at the end of the slots.\<close>

lemma linkChild_simps [simp]:
  "tg_len (linkChild p i s) = tg_len s" "tg_root (linkChild p i s) = tg_root s" "tg_ready (linkChild p i s) = tg_ready s"
  "tg_spawned (linkChild p i s) = tg_spawned s" "tg_tasks (linkChild p i s) = tg_tasks s"
  by (simp_all add: linkChild_def Let_def)

lemma linkChild_task:
  assumes "p < tg_len s" "i < tg_len s" "p \<noteq> i" "j < tg_len s" "t_lastChild (task_of s p) < tg_len s"
    "t_lastChild (task_of s p) \<noteq> i" "t_lastChild (task_of s p) \<noteq> p \<or> t_lastChild (task_of s p) = 0"
  shows "t_state (task_of (linkChild p i s) j) = t_state (task_of s j)"
    "t_waiters (task_of (linkChild p i s) j) = t_waiters (task_of s j)"
    "t_remainingDeps (task_of (linkChild p i s) j) = t_remainingDeps (task_of s j)"
    "t_pool (task_of (linkChild p i s) j) = t_pool (task_of s j)"
    "t_parent (task_of (linkChild p i s) j) = (if j = i then p else t_parent (task_of s j))"
    "t_firstChild (task_of (linkChild p i s) j) = (if j = p \<and> t_lastChild (task_of s p) = 0 then i else t_firstChild (task_of s j))"
    "t_lastChild (task_of (linkChild p i s) j) = (if j = p then i else t_lastChild (task_of s j))"
    "t_nextSib (task_of (linkChild p i s) j) =
       (if j = t_lastChild (task_of s p) \<and> t_lastChild (task_of s p) \<noteq> 0 then i else t_nextSib (task_of s j))"
  using assms by (auto simp: linkChild_def Let_def task_of_upd)

abbreviation append_task :: "'e task \<Rightarrow> 'e session \<Rightarrow> 'e session" where
  "append_task t s \<equiv> s\<lparr>tg_slots := tg_slots s @ [t]\<rparr>"

abbreviation new_task :: "string \<Rightarrow> pool_kind \<Rightarrow> nat option \<Rightarrow> bool \<Rightarrow> 'e task" where
  "new_task name pl fn isolate \<equiv> empty_task\<lparr>t_name := name, t_pool := pl, t_fn := fn, t_isolate := isolate\<rparr>"

lemma new_task_simps [simp]:
  "t_state (new_task name pl fn isolate) = Pending" "t_waiters (new_task name pl fn isolate) = []"
  "t_remainingDeps (new_task name pl fn isolate) = 0" "t_pool (new_task name pl fn isolate) = pl"
  "t_firstChild (new_task name pl fn isolate) = 0" "t_lastChild (new_task name pl fn isolate) = 0"
  "t_nextSib (new_task name pl fn isolate) = 0" "\<not> finished (new_task name pl fn isolate)"
  by (simp_all add: empty_task_def finished_def)

lemma alloc_core:
  assumes al: "alloc p name pl fn isolate s = (i, s1)"
  shows "i = tg_len s" "tg_len s1 = Suc (tg_len s)" "tg_root s1 = tg_root s" "tg_ready s1 = tg_ready s"
    "tg_spawned s1 = tg_spawned s" "tg_tasks s1 = tg_tasks s + 1"
    "map core (tg_slots s1) = map core (tg_slots (linkChild p i (append_task (new_task name pl fn isolate) s)))"
proof -
  let ?c = "linkChild p (tg_len s) (append_task (new_task name pl fn isolate) s)"
  show i: "i = tg_len s" using al by (simp add: alloc_def Let_def)
  have "tg_slots s1 = tg_slots (linkLive p i ?c)" "tg_root s1 = tg_root (linkLive p i ?c)" "tg_ready s1 = tg_ready (linkLive p i ?c)"
    "tg_spawned s1 = tg_spawned (linkLive p i ?c)" "tg_tasks s1 = tg_tasks (linkLive p i ?c) + 1"
    using al i by (auto simp: alloc_def Let_def)
  then show "tg_len s1 = Suc (tg_len s)" "tg_root s1 = tg_root s" "tg_ready s1 = tg_ready s"
    "tg_spawned s1 = tg_spawned s" "tg_tasks s1 = tg_tasks s + 1"
    "map core (tg_slots s1) = map core (tg_slots (linkChild p i (append_task (new_task name pl fn isolate) s)))"
    using quiet_linkLive [of ?c p i] quiet_len [OF quiet_linkLive [of ?c p i]] i by (simp_all add: quiet_def)
qed

lemma core_linksD:
  assumes "core t = core u"
  shows "t_parent t = t_parent u" "t_firstChild t = t_firstChild u" "t_lastChild t = t_lastChild u" "t_nextSib t = t_nextSib u" "t_pool t = t_pool u"
  using links_eqD [OF core_eqD(1) [OF assms]] by simp_all

lemma alloc_task:
  assumes al: "alloc p name pl fn isolate s = (i, s1)" and ok: "tg_ok s" and p: "0 < p" "p < tg_len s" and j: "j < tg_len s"
  shows "t_state (task_of s1 j) = t_state (task_of s j)" "t_waiters (task_of s1 j) = t_waiters (task_of s j)"
    "t_remainingDeps (task_of s1 j) = t_remainingDeps (task_of s j)" "t_pool (task_of s1 j) = t_pool (task_of s j)"
    "t_parent (task_of s1 j) = t_parent (task_of s j)"
    "t_firstChild (task_of s1 j) = t_firstChild (task_of s j) \<or> 0 < j \<and> t_firstChild (task_of s1 j) = i"
    "t_lastChild (task_of s1 j) = t_lastChild (task_of s j) \<or> t_lastChild (task_of s1 j) = i"
    "t_nextSib (task_of s1 j) = t_nextSib (task_of s j) \<or> t_nextSib (task_of s1 j) = i"
    "fin s1 j = fin s j"
proof -
  let ?a = "append_task (new_task name pl fn isolate) s"
  note A = alloc_core [OF al]
  have a: "task_of ?a k = task_of s k" if "k < tg_len s" for k using that by (simp add: nth_append)
  have lc: "t_lastChild (task_of s p) < tg_len s" "t_lastChild (task_of s p) \<noteq> p \<or> t_lastChild (task_of s p) = 0"
    using tg_okD(5) [OF ok p(2)] p(2) by (auto simp: task_ok_def Let_def)
  have "core (task_of s1 j) = core (task_of (linkChild p i ?a) j)"
    using A(1,2,7) j nth_map [of j "tg_slots s1" core] nth_map [of j "tg_slots (linkChild p i ?a)" core] by simp
  note C = core_eqD [OF this] core_linksD [OF this]
  have L: "p < tg_len ?a" "i < tg_len ?a" "p \<noteq> i" "j < tg_len ?a" "t_lastChild (task_of ?a p) < tg_len ?a"
    "t_lastChild (task_of ?a p) \<noteq> i" "t_lastChild (task_of ?a p) \<noteq> p \<or> t_lastChild (task_of ?a p) = 0"
    using lc p j a [OF p(2)] A(1) by auto
  note T = linkChild_task [OF L, unfolded a [OF j] a [OF p(2)]]
  have ji: "j \<noteq> i" using j A(1) by simp
  show "t_state (task_of s1 j) = t_state (task_of s j)" "t_waiters (task_of s1 j) = t_waiters (task_of s j)"
    "t_remainingDeps (task_of s1 j) = t_remainingDeps (task_of s j)" "t_pool (task_of s1 j) = t_pool (task_of s j)"
    "t_parent (task_of s1 j) = t_parent (task_of s j)"
    "t_firstChild (task_of s1 j) = t_firstChild (task_of s j) \<or> 0 < j \<and> t_firstChild (task_of s1 j) = i"
    "t_lastChild (task_of s1 j) = t_lastChild (task_of s j) \<or> t_lastChild (task_of s1 j) = i"
    "t_nextSib (task_of s1 j) = t_nextSib (task_of s j) \<or> t_nextSib (task_of s1 j) = i"
    using C T p(1) ji by auto
  then show "fin s1 j = fin s j" by (metis finished_cong)
qed

lemma alloc_new:
  assumes al: "alloc p name pl fn isolate s = (i, s1)" and ok: "tg_ok s" and p: "0 < p" "p < tg_len s"
  shows "t_state (task_of s1 i) = Pending" "t_waiters (task_of s1 i) = []" "t_remainingDeps (task_of s1 i) = 0"
    "t_pool (task_of s1 i) = pl" "t_parent (task_of s1 i) = p" "t_firstChild (task_of s1 i) = 0" "t_lastChild (task_of s1 i) = 0"
    "t_nextSib (task_of s1 i) = 0"
proof -
  let ?a = "append_task (new_task name pl fn isolate) s"
  note A = alloc_core [OF al]
  have a: "task_of ?a p = task_of s p" using p by (simp add: nth_append)
  have ai: "task_of ?a i = new_task name pl fn isolate" using A(1) by simp
  have lc: "t_lastChild (task_of s p) < tg_len s" "t_lastChild (task_of s p) \<noteq> p \<or> t_lastChild (task_of s p) = 0"
    using tg_okD(5) [OF ok p(2)] p(2) by (auto simp: task_ok_def Let_def)
  have "core (task_of s1 i) = core (task_of (linkChild p i ?a) i)"
    using A(1,2,7) nth_map [of i "tg_slots s1" core] nth_map [of i "tg_slots (linkChild p i ?a)" core] by simp
  note C = core_eqD [OF this] core_linksD [OF this]
  have L: "p < tg_len ?a" "i < tg_len ?a" "p \<noteq> i" "i < tg_len ?a" "t_lastChild (task_of ?a p) < tg_len ?a"
    "t_lastChild (task_of ?a p) \<noteq> i" "t_lastChild (task_of ?a p) \<noteq> p \<or> t_lastChild (task_of ?a p) = 0"
    using lc p a A(1) by auto
  note T = linkChild_task [OF L, unfolded a ai new_task_simps]
  show "t_state (task_of s1 i) = Pending" "t_waiters (task_of s1 i) = []" "t_remainingDeps (task_of s1 i) = 0"
    "t_pool (task_of s1 i) = pl" "t_parent (task_of s1 i) = p" "t_firstChild (task_of s1 i) = 0" "t_lastChild (task_of s1 i) = 0"
    "t_nextSib (task_of s1 i) = 0"
    using C T lc(1) A(1) p(2) by auto
qed

lemma alloc_sums:
  assumes al: "alloc p name pl fn isolate s = (i, s1)" and ok: "tg_ok s" and p: "0 < p" "p < tg_len s"
  shows "waits s1 j = waits s j" "unfin s1 = Suc (unfin s)" "queued s1 = queued s" "closed s1 = closed s"
proof -
  note A = alloc_core [OF al] and N = alloc_new [OF al ok p] and T = alloc_task [OF al ok p]
  have map: "map g (tg_slots s1) = map g (tg_slots s) @ [g (task_of s1 i)]" if "\<And>k. k < tg_len s \<Longrightarrow> g (task_of s1 k) = g (task_of s k)" for g :: "_ \<Rightarrow> nat"
    by (rule nth_equalityI) (auto simp: A(1,2) nth_append that less_Suc_eq)
  have "map (pend j) (tg_slots s1) = map (pend j) (tg_slots s) @ [0]"
    using map [of "pend j"] T(2,9) N(2) by (simp add: pend_def)
  then show "waits s1 j = waits s j" by (simp add: waits_def)
  have "map open1 (tg_slots s1) = map open1 (tg_slots s) @ [1]"
    using map [of open1] T(9) N(1) by (simp add: open1_def finished_def)
  then show "unfin s1 = Suc (unfin s)" by (simp add: unfin_def)
  show "queued s1 = queued s" "closed s1 = closed s" by (simp_all add: queued_def closed_def fun_eq_iff A(4,5))
qed

lemma alloc_ok:
  assumes al: "alloc p name pl fn isolate s = (i, s1)" and ok: "tg_ok s" and p: "0 < p" "p < tg_len s"
  shows "tg_ok s1" "waits s1 i = 0"
proof -
  note A = alloc_core [OF al] and N = alloc_new [OF al ok p] and T = alloc_task [OF al ok p] and S = alloc_sums [OF al ok p]
  show w: "waits s1 i = 0" unfolding S(1) waits_0_iff using tg_okD(6) [OF ok] A(1) by blast
  have "task_ok s1 j" if j: "j < Suc (tg_len s)" for j
  proof (cases "j = i")
    case True
    then show ?thesis using N w p A(1) tg_okD(1) [OF ok] by (simp add: task_ok_def Let_def)
  next
    case False
    then have j': "j < tg_len s" using j A(1) by simp
    have t: "task_ok s j" by (rule tg_okD(5) [OF ok j'])
    have "\<forall>w \<in> set (t_waiters (task_of s j)). j < w \<and> w < Suc (tg_len s)" using tg_okD(6) [OF ok j'] by fastforce
    moreover have "b = 0 \<or> j < b \<and> b < Suc (tg_len s)" if "a = 0 \<or> j < a \<and> a < tg_len s" "b = a \<or> b = i" for a b
      using that j' A(1) by auto
    moreover note t [unfolded task_ok_def Let_def] T(6-8) [OF j']
    ultimately show ?thesis
      unfolding task_ok_def Let_def T(1-3,5) [OF j'] S(1) A(2) by blast
  qed
  moreover have "0 < tg_len s" using p by linarith
  ultimately show "tg_ok s1"
    using tg_okD(1-4) [OF ok] T(6) [of 0] unfolding tg_ok_def A(2-4) by simp
qed

lemma alloc_inv:
  assumes al: "alloc p name pl fn isolate s = (i, s1)" and inv: "tg_inv P {} s" and p: "0 < p" "p < tg_len s"
  shows "tg_inv P {i} s1" "\<not> queued s1 i" "i \<notin> P" "later s s1" "no_start s s1"
proof -
  note I = tg_invD [OF inv]
  note A = alloc_core [OF al] and N = alloc_new [OF al I(1) p] and T = alloc_task [OF al I(1) p] and S = alloc_sums [OF al I(1) p]
  show nq: "\<not> queued s1 i" "i \<notin> P" using I(3) [of i] A(1) by (auto simp: S(3))
  show "later s s1" using T(1,2,9) by (auto simp: later_def A(2) finished_def)
  show "no_start s s1" using T(1) N(1) A(1) by (auto simp: no_start_def A(2) less_Suc_eq)
  show "tg_inv P {i} s1"
    unfolding tg_inv_def S A(2)
  proof (intro conjI allI impI)
    show "tg_ok s1" by (rule alloc_ok [OF al I(1) p])
    show "tg_tasks s1 + 2 = int (Suc (unfin s))" using A(6) I(2) by simp
    fix j
    show "queued s j \<or> j \<in> P \<Longrightarrow> 2 \<le> j" "queued s j \<or> j \<in> P \<Longrightarrow> j < Suc (tg_len s)" "queued s j \<or> j \<in> P \<Longrightarrow> waits s j = 0"
      using I(3) [of j] by auto
    assume j: "j < Suc (tg_len s)"
    show "t_waiters (task_of s1 j) = []" if "fin s1 j"
      using j N(2) T(2,9) [of j] I(4) [of j] A(1) that by (cases "j = i") auto
    show "waits s j = 0" if "t_state (task_of s1 j) = Running"
      using j N(1) T(1) [of j] I(5) [of j] A(1) that by (cases "j = i") auto
    assume pd: "2 \<le> j \<and> t_state (task_of s1 j) = Pending"
    show "t_remainingDeps (task_of s1 j) = waits s j"
      using j pd N(3) T(1,3) [of j] I(6) [of j] alloc_ok(2) [OF al I(1) p] S(1) A(1) by (cases "j = i") auto
    assume "waits s j = 0"
    then show "queued s j \<or> closed s (t_pool (task_of s1 j)) \<or> j \<in> P \<union> {i}"
      using j pd T(1,4) [of j] I(7) [of j] A(1) by (cases "j = i") auto
  qed
qed

definition pin :: "nat \<Rightarrow> nat \<Rightarrow> 'e session \<Rightarrow> 'e session" where
  "pin i d s = upd d (\<lambda>t. t\<lparr>t_waiters := t_waiters t @ [i]\<rparr>) (upd i (\<lambda>t. t\<lparr>t_remainingDeps := t_remainingDeps t + 1\<rparr>) s)"

lemma pin_simps [simp]:
  "tg_len (pin i d s) = tg_len s" "tg_root (pin i d s) = tg_root s" "tg_ready (pin i d s) = tg_ready s"
  "tg_tasks (pin i d s) = tg_tasks s" "queued (pin i d s) = queued s" "closed (pin i d s) = closed s"
  by (simp_all add: pin_def queued_def closed_def fun_eq_iff)

lemma pin_task:
  assumes "j < tg_len s"
  shows "links (task_of (pin i d s) j) = links (task_of s j)" "t_state (task_of (pin i d s) j) = t_state (task_of s j)"
    "t_waiters (task_of (pin i d s) j) = t_waiters (task_of s j) @ (if j = d then [i] else [])"
    "t_remainingDeps (task_of (pin i d s) j) = t_remainingDeps (task_of s j) + (if j = i then 1 else 0)"
    "fin (pin i d s) j = fin s j"
  using assms by (auto simp: pin_def task_of_upd links_def finished_def)

lemma pin_sums:
  assumes "d < tg_len s" "i < tg_len s" "\<not> fin s d" "d \<noteq> i"
  shows "waits (pin i d s) j = waits s j + (if j = i then 1 else 0)" "unfin (pin i d s) = unfin s"
proof -
  let ?r = "\<lambda>t :: 'a task. t\<lparr>t_remainingDeps := t_remainingDeps t + 1\<rparr>" and ?w = "\<lambda>t :: 'a task. t\<lparr>t_waiters := t_waiters t @ [i]\<rparr>"
  have d: "d < tg_len (upd i ?r s)" using assms by simp
  show "waits (pin i d s) j = waits s j + (if j = i then 1 else 0)"
    using waits_upd [OF d, of ?w j] waits_upd [OF assms(2), of ?r j] assms
    by (auto simp: pin_def pend_def finished_def split: if_splits)
  show "unfin (pin i d s) = unfin s"
    using unfin_upd [OF d, of ?w] unfin_upd [OF assms(2), of ?r] assms
    by (auto simp: pin_def open1_def finished_def split: if_splits)
qed

lemma pin_inv:
  assumes inv: "tg_inv P {i} s" and d: "2 \<le> d" "d < i" "\<not> fin s d" and i: "i < tg_len s" "t_state (task_of s i) = Pending" "\<not> queued s i" "i \<notin> P"
  shows "tg_inv P {i} (pin i d s)" "later s (pin i d s)" "pinned (pin i d s) i d" "no_start s (pin i d s)"
proof -
  note I = tg_invD [OF inv] and T = pin_task [of _ s i d]
  have dl: "d < tg_len s" "d \<noteq> i" using d i by simp_all
  note S = pin_sums [OF dl(1) i(1) d(3) dl(2)]
  show "pinned (pin i d s) i d" using dl(1) i(1) d(3) T(3,5) [OF dl(1)] by (simp add: pinned_def)
  show "no_start s (pin i d s)" using T(2) by (simp add: no_start_def)
  show "later s (pin i d s)" using T(2,3,5) by (auto simp: later_def finished_def)
  have ok: "task_ok (pin i d s) j" if j: "j < tg_len s" for j
    using tg_okD(5) [OF I(1) j, unfolded task_ok_def Let_def] d i(1) links_eqD [OF T(1) [OF j]] T(2-4) [OF j] S(1)
    by (auto simp: task_ok_def Let_def split: if_splits)
  have f0: "t_firstChild (task_of (pin i d s) 0) = 0"
    using links_eqD(2) [OF T(1), of 0] tg_okD(3) [OF I(1)] i(1) by (metis gr_zeroI less_nat_zero_code)
  show "tg_inv P {i} (pin i d s)"
    unfolding tg_inv_def pin_simps S
  proof (intro conjI allI impI)
    show "tg_ok (pin i d s)" using tg_okD(1,2,4) [OF I(1)] ok f0 by (simp add: tg_ok_def)
    show "tg_tasks s + 2 = int (unfin s)" by (rule I(2))
    fix j
    show "queued s j \<or> j \<in> P \<Longrightarrow> 2 \<le> j" "queued s j \<or> j \<in> P \<Longrightarrow> j < tg_len s"
      "queued s j \<or> j \<in> P \<Longrightarrow> waits s j + (if j = i then 1 else 0) = 0"
      using I(3) [of j] i(3,4) by auto
    assume j: "j < tg_len s"
    show "t_waiters (task_of (pin i d s) j) = []" if "fin (pin i d s) j"
      using T(3,5) [OF j] I(4) [OF j] that d(3) by auto
    show "waits s j + (if j = i then 1 else 0) = 0" if "t_state (task_of (pin i d s) j) = Running"
      using T(2) [OF j] I(5) [OF j] that i(2) by auto
    assume pd: "2 \<le> j \<and> t_state (task_of (pin i d s) j) = Pending"
    show "t_remainingDeps (task_of (pin i d s) j) = waits s j + (if j = i then 1 else 0)"
      using T(2,4) [OF j] I(6) [OF j] pd by simp
    assume "waits s j + (if j = i then 1 else 0) = 0"
    then show "queued s j \<or> closed s (t_pool (task_of (pin i d s) j)) \<or> j \<in> P \<union> {i}"
      using I(7) [OF j] T(2) [OF j] pd links_eqD(6) [OF T(1) [OF j]] by (auto split: if_splits)
  qed
qed

lemma fresh_reaches:
  assumes "tg_ok s" "Suc i = tg_len s"
  shows "t_waiters (task_of s i) = []" "reaches s i d = Some False"
proof -
  show w: "t_waiters (task_of s i) = []"
    using tg_okD(6) [OF assms(1), of i] assms(2) by (cases "t_waiters (task_of s i)") fastforce+
  show "reaches s i d = Some False"
    by (simp add: reaches_def w)
qed

text \<open>What \<open>pinDeps\<close> leaves: the new task has failed, or every dependency is done or has it as a waiter.\<close>

lemma pinDeps_spec:
  assumes "tg_inv P {i} s" "Suc i = tg_len s" "2 \<le> i" "t_state (task_of s i) = Pending" "\<not> queued s i" "i \<notin> P" "1 \<notin> set ds"
  shows "\<exists>s'. pinDeps cause i ds s = Some s' \<and> tg_inv P {i} s' \<and> later s s' \<and> no_start s s' \<and> tg_len s' = tg_len s \<and>
    (\<forall>d \<in> set ds. fin s' i \<or> pinned s' i d)"
  using assms
proof (induction ds arbitrary: s)
  case Nil
  then show ?case by simp
next
  case (Cons d ds)
  note inv = Cons.prems(1) and n = Cons.prems(2) and st = Cons.prems(4)
  have ok: "tg_ok s" by (rule tg_invD(1) [OF inv])
  have stop: ?case if eq: "pinDeps cause i (d # ds) s = finish cause i err s" for err
  proof -
    obtain s' where s': "finish cause i err s = Some s'" using finish_total [OF ok Cons.prems(3)] n by auto
    have "evolves s s'" "fin s' i" using finish_evolves_fin [OF s' ok Cons.prems(3)] n by auto
    then show ?thesis using eq s' evolves_inv [OF _ inv] evolves_later evolves_no_start evolvesD(1) by auto
  qed
  show ?case
  proof (cases "d = 0 \<or> d \<ge> tg_len s \<or> t_state (task_of s d) = Failed")
    case True
    then show ?thesis by (intro stop [of "if d = 0 \<or> d \<ge> tg_len s then Some (ErrUnknownDependency d)
      else Some (ErrDependencyFailed (t_name (task_of s d)) (t_err (task_of s d)))"]) auto
  next
    case d: False
    show ?thesis
    proof (cases "t_state (task_of s d) = Done")
      case True
      obtain s' where s': "pinDeps cause i ds s = Some s'" "tg_inv P {i} s'" "later s s'" "tg_len s' = tg_len s" "no_start s s'"
        "\<forall>d \<in> set ds. fin s' i \<or> pinned s' i d"
        using Cons.IH [OF inv n] Cons.prems by auto
      have "pinned s i d" using True d n by (auto simp: pinned_def)
      then have "pinned s' i d" by (rule pinned_later [OF s'(3)])
      then show ?thesis using s' True d by auto
    next
      case run: False
      show ?thesis
      proof (cases "d = i")
        case True
        then show ?thesis using run d by (intro stop [of "Some ErrDepCycle"]) auto
      next
        case False
        then have d2: "2 \<le> d" "d < i" "\<not> fin s d" using d n Cons.prems(7) run by (auto simp: finished_def)
        note p = pin_inv [OF inv d2 _ st Cons.prems(5,6)]
        have i: "i < tg_len s" using n by simp
        obtain s' where s': "pinDeps cause i ds (pin i d s) = Some s'" "tg_inv P {i} s'" "later (pin i d s) s'" "tg_len s' = tg_len s"
          "no_start (pin i d s) s'" "\<forall>d \<in> set ds. fin s' i \<or> pinned s' i d"
          using Cons.IH [OF p(1) [OF i]] Cons.prems pin_task(2) [OF i] by auto
        have "pinDeps cause i (d # ds) s = Some s'"
          using d run False s'(1) fresh_reaches(2) [OF ok n] by (simp add: pin_def)
        moreover have "later s s'" by (rule later_trans [OF p(2) [OF i] s'(3) ok])
        moreover have "no_start s s'" by (rule no_start_trans [OF p(4) [OF i] s'(5)])
        ultimately show ?thesis using s' pinned_later [OF s'(3) p(3) [OF i]] by auto
      qed
    qed
  qed
qed

lemma tg_inv_drop:
  assumes inv: "tg_inv P {i} s"
    and i: "t_state (task_of s i) = Pending \<Longrightarrow> waits s i = 0 \<Longrightarrow> queued s i \<or> closed s (t_pool (task_of s i))"
  shows "tg_inv P {} s"
  unfolding tg_inv_def
proof (intro conjI allI impI)
  note I = tg_invD [OF inv]
  show "tg_ok s" "tg_tasks s + 2 = int (unfin s)" by (rule I)+
  fix j
  show "queued s j \<or> j \<in> P \<Longrightarrow> 2 \<le> j" "queued s j \<or> j \<in> P \<Longrightarrow> j < tg_len s" "queued s j \<or> j \<in> P \<Longrightarrow> waits s j = 0"
    using I(3) [of j] by simp_all
  assume j: "j < tg_len s"
  show "fin s j \<Longrightarrow> t_waiters (task_of s j) = []" by (rule I(4) [OF j])
  show "t_state (task_of s j) = Running \<Longrightarrow> waits s j = 0" by (rule I(5) [OF j])
  assume p: "2 \<le> j \<and> t_state (task_of s j) = Pending"
  then show "t_remainingDeps (task_of s j) = waits s j" using I(6) [OF j] by blast
  assume "waits s j = 0"
  then show "queued s j \<or> closed s (t_pool (task_of s j)) \<or> j \<in> P \<union> {}" using I(7) [OF j] i p by (cases "j = i") auto
qed

lemma goTask_spec:
  assumes inv: "tg_inv P {} s" and c: "caller < tg_len s" and one: "1 \<notin> set deps"
  shows "\<exists>s'. goTask cause caller name pl fn isolate deps s = Some (tg_len s, s') \<and> tg_inv P {} s' \<and> later s s' \<and> no_start s s' \<and>
    tg_len s' = Suc (tg_len s) \<and> (\<forall>d \<in> set deps. fin s' (tg_len s) \<or> pinned s' (tg_len s) d)"
proof -
  let ?p = "if caller = 0 then tg_root s else caller" and ?i = "tg_len s"
  have ok: "tg_ok s" by (rule tg_invD(1) [OF inv])
  have p: "0 < ?p" "?p < tg_len s" using c tg_okD(1,2) [OF ok] by auto
  obtain s1 where al: "alloc ?p name pl fn isolate s = (?i, s1)"
    using alloc_core(1) by (metis surj_pair)
  note A = alloc_core [OF al] and N = alloc_new [OF al ok p] and V = alloc_inv [OF al inv p]
  have ok1: "tg_ok s1" by (rule tg_invD(1) [OF V(1)])
  have i2: "2 \<le> ?i" by (rule tg_okD(1) [OF ok])
  note drop = tg_inv_drop [of P ?i]
  show ?thesis
  proof (cases "fn = None")
    case True
    obtain s2 where s2: "finish cause ?i (Some ErrNilFn) s1 = Some s2" using finish_total [OF ok1 i2] A(2) by auto
    have ev: "evolves s1 s2" and f: "fin s2 ?i" using finish_evolves_fin [OF s2 ok1 i2] A(2) by auto
    have "tg_inv P {} s2"
      by (rule drop) (use evolves_inv [OF ev V(1)] evolvesD(1) [OF ev] A(2) f in \<open>auto simp: finished_def\<close>)
    moreover have "later s s2" "no_start s s2"
      by (rule later_trans [OF V(4) evolves_later [OF ev] ok], rule no_start_trans [OF V(5) evolves_no_start [OF ev]])
    ultimately show ?thesis using True al s2 f A(2) evolvesD(1) [OF ev] by (auto simp: goTask_def Let_def)
  next
    case fn: False
    obtain s2 where s2: "pinDeps cause ?i deps s1 = Some s2" "tg_inv P {?i} s2" "later s1 s2" "tg_len s2 = tg_len s1"
      "no_start s1 s2" "\<forall>d \<in> set deps. fin s2 ?i \<or> pinned s2 ?i d"
      using pinDeps_spec [OF V(1) _ i2 N(1) V(2,3) one] A(2) by auto
    have ok2: "tg_ok s2" by (rule tg_invD(1) [OF s2(2)])
    have l2: "later s s2" by (rule later_trans [OF V(4) s2(3) ok])
    have n2: "no_start s s2" by (rule no_start_trans [OF V(5) s2(5)])
    show ?thesis
    proof (cases "t_state (task_of s2 ?i) = Pending \<and> t_remainingDeps (task_of s2 ?i) = 0")
      case True
      have w: "waits s2 ?i = 0" using tg_okD(7) [OF ok2, of ?i] True s2(4) A(2) by simp
      note E = evolves_enqueue [OF ok2 i2 _ w]
      have il: "?i < tg_len s2" using s2(4) A(2) by simp
      let ?s3 = "enqueueLocked ?i s2"
      have pl: "t_pool (task_of ?s3 ?i) = t_pool (task_of s2 ?i)" using links_eqD(6) [OF evolves_links [OF E(1) [OF il] il]] .
      have l3: "later s2 ?s3" by (rule evolves_later [OF E(1) [OF il]])
      have "tg_inv P {} ?s3"
        by (rule drop) (use evolves_inv [OF E(1) [OF il] s2(2)] evolvesD(1) [OF E(1) [OF il]] s2(4) A(2) E(2) [OF il] pl in auto)
      moreover have "\<forall>d \<in> set deps. fin ?s3 ?i \<or> pinned ?s3 ?i d" using s2(6) pinned_later [OF l3] later_fin [OF l3 il] by blast
      moreover have "later s ?s3" "no_start s ?s3"
        by (rule later_trans [OF l2 l3 ok], rule no_start_trans [OF n2 evolves_no_start [OF E(1) [OF il]]])
      ultimately show ?thesis
        using fn al s2(1,4) True A(2) evolvesD(1) [OF E(1) [OF il]] by (auto simp: goTask_def Let_def)
    next
      case False
      have "tg_inv P {} s2"
        by (rule drop) (use s2(2,4) A(2) False tg_invD(6) [OF s2(2) _ i2] in auto)
      then show ?thesis using fn al s2 False A(2) l2 n2 by (auto simp: goTask_def Let_def)
    qed
  qed
qed

end
