(* ===== verification/TaskGroupReach.thy ===== *)
theory TaskGroupReach
  imports TaskGroupInv
begin

text \<open>
  The machine of \<open>x/taskgroup\<close>: every action keeps the invariant (\<open>tg_act_inv\<close>), and what follows
  for the machines reached from a new session: when \<open>Wait\<close> returns, that a task runs only after
  its dependencies, that no task is forgotten, and two schedules on which the code goes wrong.
\<close>

section \<open>The machine\<close>

text \<open>Steps that the scheduling does not see, and taking a task out of its queue.\<close>

lemma tg_inv_quiet: "quiet s s' \<Longrightarrow> tg_inv P X s \<Longrightarrow> tg_inv P X s'"
  by (rule evolves_inv [OF quiet_evolves])

lemma tg_inv_moved:
  assumes inv: "tg_inv P {} s"
    and same: "tg_slots s' = tg_slots s" "tg_root s' = tg_root s" "tg_tasks s' = tg_tasks s"
    and ready: "\<And>k. (tg_ready s' k = None) = (tg_ready s k = None)"
    and cl: "\<And>k. closed s k \<Longrightarrow> closed s' k"
    and q: "\<And>i. queued s' i \<or> i \<in> P' \<Longrightarrow> queued s i \<or> i \<in> P"
    and keep: "\<And>i. queued s i \<or> i \<in> P \<Longrightarrow> t_state (task_of s i) = Pending \<Longrightarrow> queued s' i \<or> i \<in> P' \<or> closed s' (t_pool (task_of s i))"
  shows "tg_inv P' {} s'"
proof -
  note I = tg_invD [OF inv]
  have sums: "waits s' = waits s" "unfin s' = unfin s" by (simp_all add: waits_def unfin_def same fun_eq_iff)
  have ok: "tg_ok s'"
    using I(1) by (simp add: tg_ok_def task_ok_def same sums ready)
  have "queued s' i \<or> closed s' (t_pool (task_of s i)) \<or> i \<in> P'"
    if "i < tg_len s" "2 \<le> i" "t_state (task_of s i) = Pending" "waits s i = 0" for i
    using I(7) [OF that] keep [of i] cl that(3) by auto
  then show ?thesis
    unfolding tg_inv_def same sums using ok I(2-6) q by auto
qed

lemma run_take_task:
  assumes t: "run_take i s = Some s'" and i: "i < tg_len s"
  shows "tg_len s' = tg_len s" "queued s' = queued s" "closed s' = closed s" "unfin s' = unfin s" "waits s' j = waits s j"
    "tg_root s' = tg_root s" "tg_ready s' = tg_ready s" "tg_tasks s' = tg_tasks s" "t_state (task_of s i) = Pending"
    "task_of s' j = (if j = i then (task_of s i)\<lparr>t_state := Running\<rparr> else task_of s j)"
proof -
  have s': "s' = upd i (\<lambda>t. t\<lparr>t_state := Running\<rparr>) s" and p: "t_state (task_of s i) = Pending"
    using t by (auto simp: run_take_def split: if_splits)
  show "tg_len s' = tg_len s" "queued s' = queued s" "closed s' = closed s"
    "tg_root s' = tg_root s" "tg_ready s' = tg_ready s" "tg_tasks s' = tg_tasks s" "t_state (task_of s i) = Pending"
    "task_of s' j = (if j = i then (task_of s i)\<lparr>t_state := Running\<rparr> else task_of s j)"
    using p i by (simp_all add: s' queued_def closed_def fun_eq_iff)
  show "unfin s' = unfin s" "waits s' j = waits s j"
    using unfin_upd [OF i, of "\<lambda>t. t\<lparr>t_state := Running\<rparr>"] waits_upd [OF i, of "\<lambda>t. t\<lparr>t_state := Running\<rparr>" j] p
    by (simp_all add: s' open1_def pend_def finished_def)
qed

lemma tg_inv_take:
  assumes inv: "tg_inv P {} s" and i: "i \<in> P" and t: "run_take i s = Some s'" and P': "P' \<subseteq> P" "P - {i} \<subseteq> P'"
  shows "tg_inv P' {} s'" "later s s'"
proof -
  note I = tg_invD [OF inv]
  have i2: "2 \<le> i" "i < tg_len s" "waits s i = 0" using I(3) i by auto
  note T = run_take_task [OF t i2(2)]
  have links: "links (task_of s' j) = links (task_of s j)" for j by (simp add: T(10) links_def)
  have same: "t_waiters (task_of s' j) = t_waiters (task_of s j)" "t_remainingDeps (task_of s' j) = t_remainingDeps (task_of s j)"
    "fin s' j = fin s j" for j
    using T(9) by (simp_all add: T(10) finished_def)
  show "later s s'" using T(9) by (auto simp: later_def T(1,10) same finished_def)
  have ok: "task_ok s' j" if "j < tg_len s" for j
    using tg_okD(5) [OF I(1) that] links_eqD [OF links [of j]] i2(1) by (auto simp: task_ok_def Let_def same T(1,5,10))
  show "tg_inv P' {} s'"
    unfolding tg_inv_def T(1-8) same
  proof (intro conjI allI impI)
    show "tg_ok s'" using tg_okD(1-4) [OF I(1)] ok links_eqD(2) [OF links [of 0]] by (simp add: tg_ok_def T(1,6,7))
    show "tg_tasks s + 2 = int (unfin s)" by (rule I(2))
    fix j
    show "queued s j \<or> j \<in> P' \<Longrightarrow> 2 \<le> j" "queued s j \<or> j \<in> P' \<Longrightarrow> j < tg_len s" "queued s j \<or> j \<in> P' \<Longrightarrow> waits s j = 0"
      using I(3) [of j] P'(1) by auto
    assume j: "j < tg_len s"
    show "fin s j \<Longrightarrow> t_waiters (task_of s j) = []" by (rule I(4) [OF j])
    show "t_state (task_of s' j) = Running \<Longrightarrow> waits s j = 0" using I(5) [OF j] i2(3) by (cases "j = i") (simp_all add: T(10))
    assume p: "2 \<le> j \<and> t_state (task_of s' j) = Pending"
    then have ji: "j \<noteq> i" and ps: "t_state (task_of s j) = Pending" by (auto simp: T(10) split: if_splits)
    show "t_remainingDeps (task_of s j) = waits s j" using I(6) [OF j _ ps] p by blast
    assume "waits s j = 0"
    then show "queued s j \<or> closed s (t_pool (task_of s' j)) \<or> j \<in> P' \<union> {}"
      using I(7) [OF j _ ps] p ji P'(2) by (auto simp: T(10))
  qed
qed

text \<open>The invariant of the machine: who runs is on a goroutine's list.\<close>

definition m_inv :: "'e machine \<Rightarrow> bool" where
  "m_inv m \<longleftrightarrow>
     tg_inv (set (m_picked m)) {} (m_s m) \<and>
     (\<forall>i \<in> set (m_taken m) \<union> set (m_body m). 2 \<le> i \<and> i < tg_len (m_s m)) \<and>
     (\<forall>i < tg_len (m_s m). t_state (task_of (m_s m) i) = Running \<longrightarrow> i \<in> set (m_taken m) \<union> set (m_body m))"

lemma m_inv_session:
  assumes inv: "m_inv m" and s': "tg_inv (set (m_picked m)) {} s'" "tg_len (m_s m) \<le> tg_len s'"
    and run: "no_start (m_s m) s'"
  shows "m_inv (m\<lparr>m_s := s'\<rparr>)"
  using assms unfolding m_inv_def no_start_def by (auto intro: less_le_trans)

lemma m_inv_evolves:
  assumes "m_inv m" "evolves (m_s m) s'"
  shows "m_inv (m\<lparr>m_s := s'\<rparr>)" "later (m_s m) s'"
proof -
  show "m_inv (m\<lparr>m_s := s'\<rparr>)"
    by (rule m_inv_session [OF assms(1)])
      (use assms evolves_inv [OF assms(2)] evolvesD(1) [OF assms(2)] evolves_no_start [OF assms(2)] in \<open>auto simp: m_inv_def\<close>)
  show "later (m_s m) s'" by (rule evolves_later [OF assms(2)])
qed

lemma give_back_simps [simp]:
  "m_s (give_back i m) = m_s m" "m_picked (give_back i m) = m_picked m" "m_taken (give_back i m) = m_taken m"
  "m_body (give_back i m) = m_body m" "m_after (give_back i m) = m_after m" "m_inv (give_back i m) = m_inv m"
  by (simp_all add: give_back_def Let_def m_inv_def)

lemma Session_New_inv: "tg_inv {} {} (Session_New :: 'e session)"
proof -
  let ?s = "Session_New :: 'e session"
  have slots: "tg_slots ?s = [empty_task, empty_task]" by (simp add: Session_New_def)
  have t: "task_of ?s i = empty_task" if "i < 2" for i using that by (auto simp: slots less_2_cases_iff)
  have e: "t_state (empty_task :: 'e task) = Pending" "t_waiters (empty_task :: 'e task) = []" "t_parent (empty_task :: 'e task) = 0"
    "t_firstChild (empty_task :: 'e task) = 0" "t_lastChild (empty_task :: 'e task) = 0" "t_nextSib (empty_task :: 'e task) = 0"
    by (simp_all add: empty_task_def)
  have w: "waits ?s i = 0" for i by (simp add: waits_def slots pend_def e)
  have "unfin ?s = 2" by (simp add: unfin_def slots open1_def finished_def e)
  moreover have "\<not> queued ?s i" for i by (auto simp: queued_def Session_New_def newReadyQ_def split: if_splits)
  moreover have "tg_len ?s = 2" "tg_root ?s = 1" "\<forall>k. (tg_ready ?s k = None) = (k = Control)" "tg_tasks ?s = 0"
    by (simp_all add: Session_New_def)
  ultimately show ?thesis
    by (simp add: tg_inv_def tg_ok_def task_ok_def t w e)
qed

lemma tg_start_inv: "m_inv (tg_start numCPU l :: 'e machine)"
proof -
  let ?s = "Session_New :: 'e session"
  note I = Session_New_inv
  have "t_state (task_of ?s i) = Pending" if "i < tg_len ?s" for i
    using tg_okD(8) [OF tg_invD(1) [OF I] that] that by (simp add: Session_New_def)
  then show ?thesis using I by (auto simp: m_inv_def tg_start_def)
qed

lemma act_go:
  assumes inv: "m_inv m" and m': "tg_act cause u (Go caller name pl fn isolate deps) m = Some m'"
  shows "m_inv m'" "later (m_s m) (m_s m')"
proof -
  have g: "caller < tg_len (m_s m)" "1 \<notin> set deps" using m' by (auto split: if_splits)
  have i: "tg_inv (set (m_picked m)) {} (m_s m)" using inv by (simp add: m_inv_def)
  obtain s' where s': "goTask cause caller name pl fn isolate deps (m_s m) = Some (tg_len (m_s m), s')"
    "tg_inv (set (m_picked m)) {} s'" "later (m_s m) s'" "no_start (m_s m) s'" "tg_len s' = Suc (tg_len (m_s m))"
    using goTask_spec [OF i g] by blast
  have "m' = m\<lparr>m_s := s'\<rparr>" using m' g s'(1) by simp
  then show "m_inv m'" "later (m_s m) (m_s m')"
    using m_inv_session [OF inv s'(2) _ s'(4)] s'(3,5) by simp_all
qed

lemma queued_spawned: "queued (s\<lparr>tg_spawned := xs\<rparr>) i \<longleftrightarrow> i \<in> set xs \<or> (\<exists>k q. tg_ready s k = Some q \<and> i \<in> set (q_ids q))"
  by (simp add: queued_def)

lemma act_start:
  assumes inv: "m_inv m" and m': "tg_act cause u (Start i) m = Some m'"
  shows "m_inv m'" "m_s m' = (m_s m)\<lparr>tg_spawned := remove1 i (tg_spawned (m_s m))\<rparr>"
proof -
  let ?s' = "(m_s m)\<lparr>tg_spawned := remove1 i (tg_spawned (m_s m))\<rparr>"
  have i: "i \<in> set (tg_spawned (m_s m))" and m'_eq: "m' = m\<lparr>m_s := ?s', m_picked := i # m_picked m\<rparr>"
    using m' by (auto split: if_splits)
  then show "m_s m' = ?s'" by simp
  have "tg_inv (set (i # m_picked m)) {} ?s'"
  proof (rule tg_inv_moved)
    show "tg_inv (set (m_picked m)) {} (m_s m)" using inv by (simp add: m_inv_def)
    fix j
    show "queued (m_s m) j \<or> j \<in> set (m_picked m)" if "queued ?s' j \<or> j \<in> set (i # m_picked m)"
      using that i notin_set_remove1 [of j "tg_spawned (m_s m)" i] by (auto simp: queued_spawned queued_def)
    show "queued ?s' j \<or> j \<in> set (i # m_picked m) \<or> closed ?s' (t_pool (task_of (m_s m) j))"
      if "queued (m_s m) j \<or> j \<in> set (m_picked m)"
      using that by (auto simp: queued_spawned queued_def)
  qed (simp_all add: closed_def)
  then show "m_inv m'" using inv by (simp add: m_inv_def m'_eq)
qed

lemma act_pop_inv:
  assumes inv: "m_inv m" and m': "act_pop k m = Some m'"
  shows "m_inv m'" "tg_slots (m_s m') = tg_slots (m_s m)"
proof -
  obtain q i q' where q: "tg_ready (m_s m) k = Some q" "q_pop q = Some (i, q')"
    and m'_eq: "m' = m\<lparr>m_s := (m_s m)\<lparr>tg_ready := (tg_ready (m_s m))(k \<mapsto> q')\<rparr>,
       m_idle := (m_idle m)(k := m_idle m k - 1), m_picked := i # m_picked m\<rparr>"
    using m' by (auto simp: act_pop_def split: option.splits if_splits)
  let ?s' = "(m_s m)\<lparr>tg_ready := (tg_ready (m_s m))(k \<mapsto> q')\<rparr>"
  show "tg_slots (m_s m') = tg_slots (m_s m)" by (simp add: m'_eq)
  have ids: "set (q_ids q) = insert i (set (q_ids q'))" "q_closed q' = q_closed q"
    using q(2) by (auto simp: q_pop_def split: list.splits)
  have "tg_inv (set (i # m_picked m)) {} ?s'"
  proof (rule tg_inv_moved)
    show "tg_inv (set (m_picked m)) {} (m_s m)" using inv by (simp add: m_inv_def)
    show "closed (m_s m) k' \<Longrightarrow> closed ?s' k'" for k' using q(1) ids(2) by (auto simp: closed_def)
    fix j
    show "queued (m_s m) j \<or> j \<in> set (m_picked m)" if "queued ?s' j \<or> j \<in> set (i # m_picked m)"
      using that ids q(1) by (auto simp: queued_def split: if_splits)
    show "queued ?s' j \<or> j \<in> set (i # m_picked m) \<or> closed ?s' (t_pool (task_of (m_s m) j))"
      if h: "queued (m_s m) j \<or> j \<in> set (m_picked m)"
    proof (cases "j \<in> set (tg_spawned (m_s m)) \<or> j = i \<or> j \<in> set (m_picked m)")
      case False
      then obtain k2 q2 where k2: "tg_ready (m_s m) k2 = Some q2" "j \<in> set (q_ids q2)" using h by (auto simp: queued_def)
      have "\<exists>k3 q3. tg_ready ?s' k3 = Some q3 \<and> j \<in> set (q_ids q3)"
      proof (cases "k2 = k")
        case True
        then have "tg_ready ?s' k = Some q' \<and> j \<in> set (q_ids q')" using k2 False q(1) ids(1) by simp
        then show ?thesis by blast
      next
        case False
        then have "tg_ready ?s' k2 = Some q2 \<and> j \<in> set (q_ids q2)" using k2 by simp
        then show ?thesis by blast
      qed
      then show ?thesis by (auto simp: queued_def)
    qed (auto simp: queued_def)
  qed (use q(1) in auto)
  then show "m_inv m'" using inv by (simp add: m_inv_def m'_eq)
qed

lemma act_take_inv:
  assumes inv: "m_inv m" and i: "i \<in> set (m_picked m)"
  shows "m_inv (act_take i m)" "later (m_s m) (m_s (act_take i m))"
proof -
  let ?P = "set (m_picked m)" and ?P' = "set (remove1 i (m_picked m))"
  have I: "tg_inv ?P {} (m_s m)" using inv by (simp add: m_inv_def)
  have P': "?P' \<subseteq> ?P" "?P - {i} \<subseteq> ?P'" by (rule set_remove1_subset) (metis Diff_iff insertI1 subsetI in_set_remove1)
  have i2: "2 \<le> i" "i < tg_len (m_s m)" using tg_invD(3) [OF I, of i] i by auto
  have "m_inv (act_take i m) \<and> later (m_s m) (m_s (act_take i m))"
  proof (cases "run_take i (m_s m)")
    case None
    then have np: "t_state (task_of (m_s m) i) \<noteq> Pending" by (auto simp: run_take_def split: if_splits)
    have "tg_inv ?P' {} (m_s m)"
      by (rule tg_inv_moved [OF I]) (use P' np in auto)
    then show ?thesis using inv None by (simp add: act_take_def m_inv_def)
  next
    case (Some s')
    note T = run_take_task [OF Some i2(2)] and V = tg_inv_take [OF I i Some P']
    have "act_take i m = m\<lparr>m_s := s', m_picked := remove1 i (m_picked m), m_taken := i # m_taken m\<rparr>"
      by (simp add: act_take_def Some)
    then show ?thesis using inv V i2 by (auto simp: m_inv_def T(1,10) split: if_splits)
  qed
  then show "m_inv (act_take i m)" "later (m_s m) (m_s (act_take i m))" by simp_all
qed

lemma quiet_report: "quiet s (Update i msg s)" "quiet s (Progress i c n s)"
  by (simp_all add: Update_def Progress_def quiet_upd)

lemma quiet_Cancel: "quiet s (Cancel err s)"
  unfolding Cancel_def by (rule quiet_trans [OF quiet_session(3) quiet_set_cause])

lemma after_cancel_call:
  assumes "tg_ok s"
  obtains c where "c = FailSubtree 1 \<or> c = FailOutside 1" "call_ok c s"
    "after_cancel cause u s = tg_run cause (tg_fuel s + 3 * tg_len s + 4) c s"
proof
  let ?c = "if tg_hard s \<or> (case tg_cause s of Some e \<Rightarrow> is_canceled u e | None \<Rightarrow> False) then FailSubtree 1 else FailOutside 1"
  show "?c = FailSubtree 1 \<or> ?c = FailOutside 1" "call_ok ?c s" "after_cancel cause u s = tg_run cause (tg_fuel s + 3 * tg_len s + 4) ?c s"
    using tg_okD(1,2) [OF assms] by (auto simp: after_cancel_def)
qed

lemma after_cancel_evolves:
  assumes "after_cancel cause u s = Some s'" "tg_ok s"
  shows "evolves s s'"
  using assms tg.rc_evolves by (metis after_cancel_call)

lemma after_cancel_total:
  assumes "tg_ok s"
  shows "\<exists>s'. after_cancel cause u s = Some s'"
proof -
  obtain c where c: "c = FailSubtree 1 \<or> c = FailOutside 1" "call_ok c s"
    "after_cancel cause u s = tg_run cause (tg_fuel s + 3 * tg_len s + 4) c s"
    by (rule after_cancel_call [OF assms])
  have "unfin s * (2 * tg_len s + 4) \<le> tg_len s * (2 * tg_len s + 4)" using unfin_le by (rule mult_right_mono) simp
  then have "need c s \<le> tg_fuel s + 3 * tg_len s + 4"
    using c(1) by (auto simp: finish_need_def tg_fuel_def algebra_simps)
  then show ?thesis using tgt.rc_total [OF assms c(2)] c(3) by simp
qed

lemma Wait_end_inv:
  assumes "m_inv m"
  shows "m_inv (m\<lparr>m_s := snd (Wait_end (m_s m))\<rparr>)" "tg_slots (snd (Wait_end (m_s m))) = tg_slots (m_s m)"
proof -
  let ?s = "m_s m" and ?s' = "snd (Wait_end (m_s m))"
  show slots: "tg_slots ?s' = tg_slots ?s" by (simp add: Wait_end_def set_cause_def)
  have q: "queued ?s' i = queued ?s i" for i
  proof -
    have "(\<exists>k q. tg_ready ?s' k = Some q \<and> i \<in> set (q_ids q)) = (\<exists>k q. tg_ready ?s k = Some q \<and> i \<in> set (q_ids q))"
      unfolding Wait_end_def snd_conv by (rule ex_cong1) (auto simp: q_close_def)
    then show ?thesis by (simp add: queued_def Wait_end_def set_cause_def)
  qed
  have "tg_inv (set (m_picked m)) {} ?s'"
  proof (rule tg_inv_moved)
    show "tg_inv (set (m_picked m)) {} ?s" using assms by (simp add: m_inv_def)
    show "tg_root ?s' = tg_root ?s" "tg_tasks ?s' = tg_tasks ?s" "\<And>k. (tg_ready ?s' k = None) = (tg_ready ?s k = None)"
      by (simp_all add: Wait_end_def set_cause_def)
    show "\<And>k. closed ?s k \<Longrightarrow> closed ?s' k" by (auto simp: Wait_end_def closed_def q_close_def split: option.splits)
  qed (auto simp: slots q)
  then show "m_inv (m\<lparr>m_s := ?s'\<rparr>)" using assms by (simp add: m_inv_def slots)
qed

lemma later_slots: "tg_slots s' = tg_slots s \<Longrightarrow> later s s'"
  by (auto simp: later_def finished_def)

lemma act_end:
  assumes inv: "m_inv m" and m': "tg_act cause u (End i err) m = Some m'"
  shows "m_inv m'" "later (m_s m) (m_s m')"
proof -
  have ok: "tg_ok (m_s m)" using inv tg_invD(1) by (auto simp: m_inv_def)
  have i: "i \<in> set (m_body m)" using m' by (auto split: if_splits)
  then have i2: "2 \<le> i" "i < tg_len (m_s m)" using inv by (auto simp: m_inv_def)
  obtain s' where s': "finish cause i err (m_s m) = Some s'" and m'_eq: "m' = give_back i (m\<lparr>m_s := s', m_body := remove1 i (m_body m)\<rparr>)"
    using m' by (auto simp: run_end_def split: if_splits)
  note F = finish_evolves_fin [OF s' ok i2]
  have J: "m_inv (m\<lparr>m_s := s'\<rparr>)" by (rule m_inv_evolves(1) [OF inv F(1)])
  have "j \<in> set (remove1 i (m_body m))" if "j \<in> set (m_body m)" "t_state (task_of s' j) = Running" for j
    using that F(2) by (cases "j = i") (auto simp: finished_def)
  then show "m_inv m'" using J notin_set_remove1 by (auto simp: m'_eq m_inv_def)
  show "later (m_s m) (m_s m')" using evolves_later [OF F(1)] by (simp add: m'_eq)
qed

text \<open>Every action keeps the invariant, and the session after it is a later one.\<close>

lemma tg_act_inv:
  assumes inv: "m_inv m" and m': "tg_act cause u a m = Some m'"
  shows "m_inv m' \<and> later (m_s m) (m_s m')"
proof -
  have ok: "tg_ok (m_s m)" using inv tg_invD(1) by (auto simp: m_inv_def)
  note Q = m_inv_evolves [OF inv quiet_evolves]
  show ?thesis
  proof (cases a)
    case (Go caller name pl fn isolate deps)
    then show ?thesis using act_go [OF inv] m' by blast
  next
    case (Start i)
    note S = act_start [OF inv m' [unfolded Start]]
    have "tg_slots (m_s m') = tg_slots (m_s m)" by (simp add: S(2))
    then show ?thesis using S(1) later_slots by blast
  next
    case (Pop k)
    then have "act_pop k m = Some m'" using m' by simp
    note S = act_pop_inv [OF inv this]
    show ?thesis using S(1) later_slots [OF S(2)] by blast
  next
    case (Quit k)
    then show ?thesis using inv m' by (auto simp: act_quit_def m_inv_def split: option.splits if_splits)
  next
    case (Take i)
    then show ?thesis using act_take_inv [OF inv] m' by (auto split: if_splits)
  next
    case (Front i)
    then have i: "i \<in> set (m_taken m)" and m'_eq: "m' = m\<lparr>m_s := run_front i (m_s m), m_taken := remove1 i (m_taken m), m_body := i # m_body m\<rparr>"
      using m' by (auto split: if_splits)
    have J: "m_inv (m\<lparr>m_s := run_front i (m_s m)\<rparr>)" "later (m_s m) (run_front i (m_s m))"
      using Q quiet_moveLiveFront by (auto simp: run_front_def)
    have "set (m_taken m) \<union> set (m_body m) = set (remove1 i (m_taken m)) \<union> set (i # m_body m)"
      using i by (auto dest: notin_set_remove1) (metis in_set_remove1)
    then show ?thesis using J by (simp add: m'_eq m_inv_def)
  next
    case (End i err)
    then show ?thesis using act_end [OF inv] m' by blast
  next
    case (Message i msg)
    then show ?thesis using Q [OF quiet_report(1)] m' by (auto split: if_splits)
  next
    case (Count i c n)
    then show ?thesis using Q [OF quiet_report(2)] m' by (auto split: if_splits)
  next
    case (CancelAct err)
    then show ?thesis using Q [OF quiet_Cancel] m' by auto
  next
    case (CtxDone err)
    then show ?thesis using Q [OF quiet_set_cause] m' by auto
  next
    case AfterCtx
    then obtain s' where s': "after_cancel cause u (m_s m) = Some s'" and m'_eq: "m' = m\<lparr>m_s := s', m_after := True\<rparr>"
      using m' by (auto split: if_splits)
    show ?thesis using m_inv_evolves [OF inv after_cancel_evolves [OF s' ok]] by (simp add: m'_eq m_inv_def)
  next
    case WaitAct
    then show ?thesis using Wait_end_inv [OF inv] m' by (auto intro: later_slots split: if_splits)
  qed
qed

section \<open>Runs\<close>

inductive tg_path :: "('e session \<Rightarrow> nat \<Rightarrow> 'e tg_error option) \<Rightarrow> ('e \<Rightarrow> bool) \<Rightarrow> 'e machine \<Rightarrow> 'e machine \<Rightarrow> bool"
  for cause u where
  path_refl: "tg_path cause u m m"
| path_step: "tg_path cause u m m' \<Longrightarrow> tg_act cause u a m' = Some m'' \<Longrightarrow> tg_path cause u m m''"

definition tg_reach :: "('e session \<Rightarrow> nat \<Rightarrow> 'e tg_error option) \<Rightarrow> ('e \<Rightarrow> bool) \<Rightarrow> 'e machine \<Rightarrow> bool" where
  "tg_reach cause u m \<longleftrightarrow> (\<exists>numCPU l. tg_path cause u (tg_start numCPU l) m)"

lemma tg_path_inv: "tg_path cause u m m' \<Longrightarrow> m_inv m \<Longrightarrow> m_inv m' \<and> later (m_s m) (m_s m')"
proof (induction rule: tg_path.induct)
  case (path_step m m' a m'')
  then have inv: "m_inv m'" and l: "later (m_s m) (m_s m')" by simp_all
  have ok: "tg_ok (m_s m)" using path_step.prems tg_invD(1) by (auto simp: m_inv_def)
  show ?case using tg_act_inv [OF inv path_step.hyps(2)] later_trans [OF l _ ok] by blast
qed simp

lemma tg_reach_inv: "tg_reach cause u m \<Longrightarrow> m_inv m"
  unfolding tg_reach_def using tg_path_inv tg_start_inv by blast

lemma tg_path_trans: "tg_path cause u m' m'' \<Longrightarrow> tg_path cause u m m' \<Longrightarrow> tg_path cause u m m''"
  by (induction rule: tg_path.induct) (auto intro: tg_path.intros)

fun tg_acts :: "('e session \<Rightarrow> nat \<Rightarrow> 'e tg_error option) \<Rightarrow> ('e \<Rightarrow> bool) \<Rightarrow> 'e act list \<Rightarrow> 'e machine \<Rightarrow> 'e machine option" where
  "tg_acts cause u [] m = Some m"
| "tg_acts cause u (a # as) m = Option.bind (tg_act cause u a m) (tg_acts cause u as)"

lemma tg_acts_path: "tg_acts cause u as m = Some m' \<Longrightarrow> tg_path cause u m m'"
proof (induction as arbitrary: m)
  case (Cons a as)
  then obtain m1 where m1: "tg_act cause u a m = Some m1" "tg_acts cause u as m1 = Some m'" by (auto simp: bind_eq_Some_conv)
  have "tg_path cause u m m1" by (rule path_step [OF path_refl m1(1)])
  then show ?case by (rule tg_path_trans [OF Cons.IH [OF m1(2)]])
qed (simp add: path_refl)

section \<open>Waiting\<close>

definition open_tasks :: "'e session \<Rightarrow> nat set" where
  "open_tasks s = {i. 2 \<le> i \<and> i < tg_len s \<and> \<not> fin s i}"

lemma finite_open_tasks [simp]: "finite (open_tasks s)"
  by (simp add: open_tasks_def)

lemma unfin_card:
  assumes "tg_ok s"
  shows "unfin s = card (open_tasks s) + 2"
proof -
  have "unfin s = (\<Sum>i = 0..<tg_len s. if fin s i then 0 else 1)"
    by (simp add: unfin_def open1_def sum_list_sum_nth)
  also have "\<dots> = card {i. i < tg_len s \<and> \<not> fin s i}"
    by (simp add: sum.If_cases Int_def Compl_eq)
  also have "{i. i < tg_len s \<and> \<not> fin s i} = open_tasks s \<union> {0, 1}"
  proof -
    have len: "0 < tg_len s" "1 < tg_len s" using tg_okD(1) [OF assms] by linarith+
    have "\<not> fin s 0" "\<not> fin s 1"
      using tg_okD(8) [OF assms len(1)] tg_okD(8) [OF assms len(2)] by (simp_all add: finished_def)
    then show ?thesis using len by (auto simp: open_tasks_def)
  qed
  also have "card \<dots> = card (open_tasks s) + 2"
    by (subst card_Un_disjoint) (auto simp: open_tasks_def)
  finally show ?thesis .
qed

text \<open>The wait group counts the tasks that have not finished, so \<open>Wait\<close> returns exactly when all have.\<close>

lemma tg_reach_count:
  assumes "tg_reach cause u m"
  shows "tg_tasks (m_s m) = int (card (open_tasks (m_s m)))"
proof -
  have inv: "tg_inv (set (m_picked m)) {} (m_s m)" using tg_reach_inv [OF assms] by (simp add: m_inv_def)
  show ?thesis using tg_invD(2) [OF inv] unfin_card [OF tg_invD(1) [OF inv]] by simp
qed

lemma tg_reach_Wait:
  assumes "tg_reach cause u m"
  shows "Wait_returns (m_s m) \<longleftrightarrow> (\<forall>i. 2 \<le> i \<and> i < tg_len (m_s m) \<longrightarrow> fin (m_s m) i)"
  using tg_reach_count [OF assms] by (auto simp: Wait_returns_def open_tasks_def)

section \<open>Order\<close>

lemma tg_reach_deps:
  assumes r: "tg_reach cause u m" and go: "tg_act cause u (Go caller name pl fn isolate deps) m = Some m1"
    and p: "tg_path cause u m1 m2" and run: "t_state (task_of (m_s m2) (tg_len (m_s m))) = Running" and d: "d \<in> set deps"
  shows "t_state (task_of (m_s m2) d) = Done"
proof -
  let ?i = "tg_len (m_s m)"
  have inv: "m_inv m" by (rule tg_reach_inv [OF r])
  have g: "caller < tg_len (m_s m)" "1 \<notin> set deps" using go by (auto split: if_splits)
  have I: "tg_inv (set (m_picked m)) {} (m_s m)" using inv by (simp add: m_inv_def)
  obtain s' where s': "goTask cause caller name pl fn isolate deps (m_s m) = Some (?i, s')" "tg_len s' = Suc ?i"
    "\<forall>d \<in> set deps. fin s' ?i \<or> pinned s' ?i d"
    using goTask_spec [OF I g] by blast
  have "m1 = m\<lparr>m_s := s'\<rparr>" using go g s'(1) by simp
  then have m1: "tg_len (m_s m1) = Suc ?i" "fin (m_s m1) ?i \<or> pinned (m_s m1) ?i d" using s'(2,3) d by auto
  have inv1: "m_inv m1" using tg_act_inv [OF inv go] by blast
  have inv2: "m_inv m2" and l: "later (m_s m1) (m_s m2)" using tg_path_inv [OF p inv1] by blast+
  have "pinned (m_s m2) ?i d" if "\<not> fin (m_s m1) ?i" using m1(2) that pinned_later [OF l] by blast
  moreover have "\<not> fin (m_s m1) ?i" using later_fin [OF l, of ?i] m1(1) run by (auto simp: finished_def)
  ultimately show ?thesis using inv2 pinned_running [OF _ _ run] by (auto simp: m_inv_def)
qed

lemma tg_reach_finished:
  assumes "tg_reach cause u m" "tg_path cause u m m'" "i < tg_len (m_s m)" "fin (m_s m) i"
  shows "t_state (task_of (m_s m') i) = t_state (task_of (m_s m) i)"
  using tg_path_inv [OF assms(2) tg_reach_inv [OF assms(1)]] laterD(2) [OF _ assms(3,4)] by blast

section \<open>No task is forgotten\<close>

lemma tg_reach_live:
  assumes r: "tg_reach cause u m" and op: "\<And>k. \<not> closed (m_s m) k" and w: "\<not> Wait_returns (m_s m)"
  shows "(\<exists>i. queued (m_s m) i) \<or> m_picked m \<noteq> [] \<or> m_taken m \<noteq> [] \<or> m_body m \<noteq> []"
proof -
  have inv: "m_inv m" by (rule tg_reach_inv [OF r])
  have I: "tg_inv (set (m_picked m)) {} (m_s m)" using inv by (simp add: m_inv_def)
  have "open_tasks (m_s m) \<noteq> {}" using tg_reach_count [OF r] w by (auto simp: Wait_returns_def)
  then obtain i where i: "i \<in> open_tasks (m_s m)" and least: "\<And>j. j \<in> open_tasks (m_s m) \<Longrightarrow> i \<le> j"
    using exists_least_iff [of "\<lambda>i. i \<in> open_tasks (m_s m)"] by (metis equals0I not_le)
  then have i2: "2 \<le> i" "i < tg_len (m_s m)" "\<not> fin (m_s m) i" by (auto simp: open_tasks_def)
  show ?thesis
  proof (cases "t_state (task_of (m_s m) i) = Running")
    case True
    then show ?thesis using inv i2 by (force simp: m_inv_def)
  next
    case False
    then have p: "t_state (task_of (m_s m) i) = Pending" using i2(3) by (cases "t_state (task_of (m_s m) i)") (auto simp: finished_def)
    have "i \<notin> set (t_waiters (task_of (m_s m) d))" if "d < tg_len (m_s m)" "\<not> fin (m_s m) d" for d
      using tg_okD(6) [OF tg_invD(1) [OF I] that(1), of i] least [of d] that by (auto simp: open_tasks_def)
    then have "waits (m_s m) i = 0" by (simp add: waits_0_iff)
    then show ?thesis using tg_invD(7) [OF I i2(2,1) p] op by auto
  qed
qed

text \<open>Every locked section returns.\<close>

lemma tg_reach_returns:
  assumes r: "tg_reach cause u m"
  shows "caller < tg_len (m_s m) \<Longrightarrow> 1 \<notin> set deps \<Longrightarrow> \<exists>m'. tg_act cause u (Go caller name pl fn isolate deps) m = Some m'"
    "i \<in> set (m_body m) \<Longrightarrow> \<exists>m'. tg_act cause u (End i err) m = Some m'"
    "tg_cause (m_s m) \<noteq> None \<Longrightarrow> \<not> m_after m \<Longrightarrow> \<exists>m'. tg_act cause u AfterCtx m = Some m'"
proof -
  have inv: "m_inv m" by (rule tg_reach_inv [OF r])
  have I: "tg_inv (set (m_picked m)) {} (m_s m)" using inv by (simp add: m_inv_def)
  note ok = tg_invD(1) [OF I]
  show "\<exists>m'. tg_act cause u (Go caller name pl fn isolate deps) m = Some m'" if "caller < tg_len (m_s m)" "1 \<notin> set deps"
    using goTask_spec [OF I that, of cause name pl fn isolate] that by auto
  show "\<exists>m'. tg_act cause u (End i err) m = Some m'" if "i \<in> set (m_body m)"
    using finish_total [OF ok, of i cause err] inv that by (auto simp: m_inv_def run_end_def)
  show "\<exists>m'. tg_act cause u AfterCtx m = Some m'" if "tg_cause (m_s m) \<noteq> None" "\<not> m_after m"
    using after_cancel_total [OF ok, of cause u] that by auto
qed

section \<open>Machines that have come to rest\<close>

text \<open>
  Nothing is on its way, the \<open>AfterFunc\<close> has run, and no pool with work left has a worker: apart
  from new calls of \<open>Go\<close>, nothing changes any more.
\<close>

definition quiescent :: "'e machine \<Rightarrow> bool" where
  "quiescent m \<longleftrightarrow>
     tg_spawned (m_s m) = [] \<and> m_picked m = [] \<and> m_taken m = [] \<and> m_body m = [] \<and> m_after m \<and>
     (\<forall>k q. tg_ready (m_s m) k = Some q \<longrightarrow> q_ids q = [] \<or> m_idle m k = 0)"

definition is_Go :: "'e act \<Rightarrow> bool" where
  "is_Go a \<longleftrightarrow> (case a of Go caller name pl fn isolate deps \<Rightarrow> True | _ \<Rightarrow> False)"

lemma quiescent_session:
  "quiescent m \<Longrightarrow> tg_spawned s = tg_spawned (m_s m) \<Longrightarrow> tg_ready s = tg_ready (m_s m) \<Longrightarrow> quiescent (m\<lparr>m_s := s\<rparr>)"
  by (simp add: quiescent_def)

lemma quiescent_act:
  assumes q: "quiescent m" and w: "\<not> Wait_returns (m_s m)" and m': "tg_act cause u a m = Some m'" and a: "\<not> is_Go a"
  shows "quiescent m' \<and> tg_tasks (m_s m') = tg_tasks (m_s m)"
proof (cases a)
  case (Pop k)
  have "q_ids r = [] \<or> m_idle m k = 0" if "tg_ready (m_s m) k = Some r" for r using q that by (simp add: quiescent_def)
  then have "act_pop k m = None" by (auto simp: act_pop_def q_pop_def split: option.splits)
  then show ?thesis using Pop m' by simp
next
  case (Quit k)
  then have m'_eq: "m' = m\<lparr>m_idle := (m_idle m)(k := m_idle m k - 1)\<rparr>"
    using m' by (auto simp: act_quit_def split: option.splits if_splits)
  have "q_ids r = [] \<or> m_idle m' j = 0" if "tg_ready (m_s m) j = Some r" for j r
  proof -
    have "q_ids r = [] \<or> m_idle m j = 0" using q that by (simp add: quiescent_def)
    then show ?thesis by (auto simp: m'_eq)
  qed
  then show ?thesis using q by (simp add: m'_eq quiescent_def)
next
  case (CancelAct err)
  then show ?thesis using m' quiescent_session [OF q] by (auto simp: set_cause_def Cancel_def)
next
  case (CtxDone err)
  then show ?thesis using m' quiescent_session [OF q] by (auto simp: set_cause_def)
qed (use assms in \<open>auto simp: quiescent_def is_Go_def split: if_splits\<close>)

lemma quiescent_stuck:
  assumes "quiescent m" "\<not> Wait_returns (m_s m)" "tg_acts cause u as m = Some m'" "\<forall>a \<in> set as. \<not> is_Go a"
  shows "\<not> Wait_returns (m_s m')"
  using assms
proof (induction as arbitrary: m)
  case (Cons a as)
  then obtain m1 where m1: "tg_act cause u a m = Some m1" "tg_acts cause u as m1 = Some m'" by (auto simp: bind_eq_Some_conv)
  have "quiescent m1" "tg_tasks (m_s m1) = tg_tasks (m_s m)"
    using quiescent_act [OF Cons.prems(1,2) m1(1)] Cons.prems(4) by auto
  then show ?case using Cons.IH [OF _ _ m1(2)] Cons.prems(2,4) by (auto simp: Wait_returns_def)
qed auto

section \<open>Two schedules\<close>

text \<open>Contexts that are derived from the session's, and one worker for each pool.\<close>

definition ctx_cause :: "nat session \<Rightarrow> nat \<Rightarrow> nat tg_error option" where
  "ctx_cause s i = tg_cause s"

definition one_each :: limits where
  "one_each = \<lparr>l_IO = 1, l_CPU = 1, l_Internet = 1\<rparr>"

abbreviation tg_demo :: "nat act list \<Rightarrow> nat machine option" where
  "tg_demo as \<equiv> tg_acts ctx_cause (\<lambda>_. False) as (tg_start 1 one_each)"

lemma tg_demo_reach: "tg_demo as = Some m \<Longrightarrow> tg_reach ctx_cause (\<lambda>_. False) m"
  using tg_acts_path unfolding tg_reach_def by blast

text \<open>
  The session is cancelled while task 2 runs, so the idle worker of the pool \<open>IO\<close> leaves; then
  task 2 schedules task 3 on that pool and returns.
\<close>

definition hang_acts :: "nat act list" where
  "hang_acts =
     [Go 0 ''a'' Control (Some 0) False [], Start 2, Take 2, Front 2, CancelAct None, AfterCtx, Quit IO,
      Go 2 ''b'' IO (Some 0) False [], End 2 None]"

text \<open>
  Task 2 has the children 3 and 4; 3 returns, then a task 5 is scheduled with the context of 3,
  runs and returns, all while 4 runs.
\<close>

definition early_acts :: "nat act list" where
  "early_acts =
     [Go 0 ''g'' Control (Some 0) False [], Start 2, Take 2, Front 2,
      Go 2 ''c'' Control (Some 0) False [], Go 2 ''d'' Control (Some 0) False [],
      Start 3, Take 3, Front 3, Start 4, Take 4, Front 4, End 3 None,
      Go 3 ''l'' Control (Some 0) False [], Start 5, Take 5, Front 5, End 5 None]"

definition demo_view :: "nat machine \<Rightarrow> int \<times> nat list \<times> nat list \<times> nat list \<times> nat list \<times> bool \<times> (nat \<times> nat list option) list" where
  "demo_view m =
     (tg_tasks (m_s m), tg_spawned (m_s m), m_picked m, m_taken m, m_body m, m_after m,
      map (\<lambda>k. (m_idle m k, map_option q_ids (tg_ready (m_s m) k))) [Control, IO, CPU, Internet])"

lemma hang_view: "map_option demo_view (tg_demo hang_acts) =
    Some (1, [], [], [], [], True, [(0, None), (0, Some [3]), (1, Some []), (1, Some [])])"
  by code_simp

lemma hang_machine:
  obtains m where "tg_demo hang_acts = Some m" "quiescent m" "tg_tasks (m_s m) = 1"
proof -
  obtain m where m: "tg_demo hang_acts = Some m"
    "demo_view m = (1, [], [], [], [], True, [(0, None), (0, Some [3]), (1, Some []), (1, Some [])])"
    using hang_view by auto
  have "q_ids q = [] \<or> m_idle m k = 0" if "tg_ready (m_s m) k = Some q" for k q
    using m(2) that by (cases k) (auto simp: demo_view_def)
  then have "quiescent m" "tg_tasks (m_s m) = 1"
    using m(2) by (auto simp: quiescent_def demo_view_def)
  then show ?thesis using that m(1) by blast
qed

lemma early_view:
  "map_option (\<lambda>m. (t_state (task_of (m_s m) 4), t_parent (task_of (m_s m) 4), waitLive 2 (m_s m), map_option (map n_id) (List_live 10 (m_s m))))
     (tg_demo early_acts) = Some (Running, 2, Some None, Some [2])"
  by code_simp

end
