(* ===== verification/LineFilter.thy ===== *)
theory LineFilter
  imports GoStrings
begin

text \<open>
  The line filter of the task group (\<open>x/taskgroup/linefilter.go\<close>): a terminal of one line that turns
  the output of a subprocess into lines for the progress display. Input is bytes (\<^typ>\<open>char\<close>), a line
  is its runes (numbers). Where the code keeps an index into a slice, the model keeps the rest of it.
\<close>

section \<open>The state\<close>

definition lineMaxCols :: nat where
  "lineMaxCols = 1024"

definition lineMaxPending :: nat where
  "lineMaxPending = 8192"

definition lineMaxCSINum :: int where
  "lineMaxCSINum = 1000000"

record lineFilter =
  lf_pending :: string
  lf_line :: "nat list"
  lf_col :: nat
  lf_afterCR :: bool

definition lf_new :: lineFilter where
  "lf_new = \<lparr>lf_pending = [], lf_line = [], lf_col = 0, lf_afterCR = False\<rparr>"

definition lf_reset :: "lineFilter \<Rightarrow> lineFilter" where
  "lf_reset f = f\<lparr>lf_line := [], lf_col := 0, lf_afterCR := False\<rparr>"

definition lf_take :: "lineFilter \<Rightarrow> nat list \<times> lineFilter" where
  "lf_take f = (lf_line f, lf_reset f)"

definition lf_newline :: "lineFilter \<Rightarrow> nat list option \<times> lineFilter" where
  "lf_newline f = (if lf_line f = [] then None else Some (lf_line f), lf_reset f)"

section \<open>Runes\<close>

definition lf_put :: "nat \<Rightarrow> lineFilter \<Rightarrow> lineFilter" where
  "lf_put r f0 =
     (let f = (if lf_afterCR f0 then f0\<lparr>lf_line := [], lf_col := 0, lf_afterCR := False\<rparr> else f0) in
      if lf_col f \<ge> lineMaxCols then f
      else if lf_col f < length (lf_line f) then f\<lparr>lf_line := (lf_line f)[lf_col f := r], lf_col := lf_col f + 1\<rparr>
      else f\<lparr>lf_line := lf_line f @ replicate (lf_col f - length (lf_line f)) 32 @ [r], lf_col := lf_col f + 1\<rparr>)"

text \<open>The loop of a tab; \<^const>\<open>None\<close> is a loop that does not end.\<close>

partial_function (option) tab_loop :: "nat \<Rightarrow> lineFilter \<Rightarrow> lineFilter option" where
  "tab_loop nxt f = (if lf_col f < nxt then tab_loop nxt (lf_put 32 f) else Some f)"

declare tab_loop.simps [code]

definition putRune :: "nat \<Rightarrow> lineFilter \<Rightarrow> (nat list option \<times> lineFilter) option" where
  "putRune r f =
     (if r = 10 then Some (lf_newline f)
      else if r = 13 then Some (None, f\<lparr>lf_col := 0, lf_afterCR := True\<rparr>)
      else if r = 8 then Some (None, if lf_col f > 0 then f\<lparr>lf_col := lf_col f - 1\<rparr> else f)
      else if r = 9 then map_option (Pair None) (tab_loop ((lf_col f div 8 + 1) * 8) f)
      else if r = 7 then Some (None, f)
      else if r < 32 \<or> r = 127 then Some (None, f)
      else Some (None, lf_put r f))"

text \<open>\<open>utf8.DecodeRune\<close> and \<open>utf8.FullRune\<close>.\<close>

abbreviation RuneError :: nat where
  "RuneError \<equiv> 65533"

definition rune_size :: "nat \<Rightarrow> nat" where
  "rune_size b = (if b < 194 then 1 else if b < 224 then 2 else if b < 240 then 3 else if b < 245 then 4 else 1)"

definition accept_second :: "nat \<Rightarrow> nat \<Rightarrow> bool" where
  "accept_second b c \<longleftrightarrow>
     (if b = 224 then 160 else if b = 240 then 144 else 128) \<le> c \<and>
     c \<le> (if b = 237 then 159 else if b = 244 then 143 else 191)"

definition cont_byte :: "nat \<Rightarrow> bool" where
  "cont_byte c \<longleftrightarrow> 128 \<le> c \<and> c \<le> 191"

definition FullRune :: "nat list \<Rightarrow> bool" where
  "FullRune p =
     (case p of
        [] \<Rightarrow> False
      | b # bs \<Rightarrow>
          rune_size b \<le> length p \<or> (1 < length p \<and> \<not> accept_second b (p ! 1)) \<or> (2 < length p \<and> \<not> cont_byte (p ! 2)))"

definition DecodeRune :: "nat list \<Rightarrow> nat \<times> nat" where
  "DecodeRune p =
     (case p of
        [] \<Rightarrow> (RuneError, 0)
      | b # bs \<Rightarrow>
          (if b < 128 then (b, 1)
           else if rune_size b = 1 \<or> length p < rune_size b \<or> \<not> accept_second b (p ! 1) then (RuneError, 1)
           else if rune_size b = 2 then (b mod 32 * 64 + p ! 1 mod 64, 2)
           else if \<not> cont_byte (p ! 2) then (RuneError, 1)
           else if rune_size b = 3 then (b mod 16 * 4096 + p ! 1 mod 64 * 64 + p ! 2 mod 64, 3)
           else if \<not> cont_byte (p ! 3) then (RuneError, 1)
           else (b mod 8 * 262144 + p ! 1 mod 64 * 4096 + p ! 2 mod 64 * 64 + p ! 3 mod 64, 4)))"

section \<open>Escape sequences\<close>

definition clampInt :: "int \<Rightarrow> int \<Rightarrow> int \<Rightarrow> int" where
  "clampInt v lo hi = (if v < lo then lo else min v hi)"

text \<open>\<open>strconv.Atoi\<close> on a 64-bit machine.\<close>

definition dec_digit :: "char \<Rightarrow> bool" where
  "dec_digit c \<longleftrightarrow> 48 \<le> (of_char c :: nat) \<and> (of_char c :: nat) \<le> 57"

definition dec_value :: "string \<Rightarrow> int" where
  "dec_value s = fold (\<lambda>c n. n * 10 + (int (of_char c) - 48)) s 0"

definition Atoi :: "string \<Rightarrow> int option" where
  "Atoi s =
     (let neg = (s \<noteq> [] \<and> hd s = CHR ''-''); d = (if s \<noteq> [] \<and> hd s \<in> set ''+-'' then tl s else s);
          n = (if neg then - dec_value d else dec_value d)
      in if d = [] \<or> \<not> list_all dec_digit d \<or> n < - (2 ^ 63) \<or> n \<ge> 2 ^ 63 then None else Some n)"

definition csiNum :: "string \<Rightarrow> int \<Rightarrow> int" where
  "csiNum p0 dflt =
     (let p = TrimSpace p0 in
      if p = [] then dflt
      else
        (case Atoi (takeWhile (\<lambda>c. c \<noteq> CHR '';'') p) of
           None \<Rightarrow> dflt
         | Some n \<Rightarrow> if n < 0 then dflt else min n lineMaxCSINum))"

definition eraseInLine :: "int \<Rightarrow> lineFilter \<Rightarrow> lineFilter" where
  "eraseInLine n f =
     (if n = 0 then (if lf_col f < length (lf_line f) then f\<lparr>lf_line := take (lf_col f) (lf_line f)\<rparr> else f)
      else if n = 1 then
        f\<lparr>lf_line := replicate (min (lf_col f) (length (lf_line f))) 32 @ drop (lf_col f) (lf_line f)\<rparr>
      else if n = 2 then f\<lparr>lf_line := []\<rparr>
      else f)"

definition applyCSI :: "string \<Rightarrow> char \<Rightarrow> lineFilter \<Rightarrow> lineFilter" where
  "applyCSI params final f =
     (let p = dropWhile (\<lambda>c. c \<in> set ''?>=!'') params in
      if final = CHR ''K'' then eraseInLine (csiNum p 0) f
      else if final = CHR ''G'' then f\<lparr>lf_col := nat (clampInt (csiNum p 1 - 1) 0 (int lineMaxCols))\<rparr>
      else if final = CHR ''C'' then f\<lparr>lf_col := nat (clampInt (int (lf_col f) + csiNum p 1) 0 (int lineMaxCols))\<rparr>
      else if final = CHR ''D'' then f\<lparr>lf_col := nat (clampInt (int (lf_col f) - csiNum p 1) 0 (int lineMaxCols))\<rparr>
      else f)"

fun consumeCSI :: "string \<Rightarrow> string \<Rightarrow> lineFilter \<Rightarrow> (string \<times> lineFilter) option" where
  "consumeCSI params [] f = None"
| "consumeCSI params (c # s) f =
     (let n = (of_char c :: nat) in
      if 64 \<le> n \<and> n \<le> 126 then Some (s, applyCSI params c f)
      else if 32 \<le> n \<and> n \<le> 63 then consumeCSI (params @ [c]) s f
      else Some (s, f))"

fun consumeStringTerm :: "string \<Rightarrow> string option" where
  "consumeStringTerm [] = None"
| "consumeStringTerm (c # s) =
     (if c = CHR 0x07 then Some s
      else if c = CHR 0x1B \<and> s \<noteq> [] \<and> hd s = CHR 0x5C then Some (tl s)
      else consumeStringTerm s)"

definition starts_string :: "char \<Rightarrow> bool" where
  "starts_string c \<longleftrightarrow> c \<in> set '']PX^_''"

definition starts_charset :: "char \<Rightarrow> bool" where
  "starts_charset c \<longleftrightarrow> c \<in> set ''()*+#''"

definition consumeESC :: "string \<Rightarrow> lineFilter \<Rightarrow> (string \<times> lineFilter) option" where
  "consumeESC s f =
     (case s of
        [] \<Rightarrow> None
      | c # r \<Rightarrow>
          (if c = CHR ''['' then consumeCSI [] r f
           else if starts_string c then map_option (\<lambda>q. (q, f)) (consumeStringTerm r)
           else if starts_charset c then (case r of [] \<Rightarrow> None | _ # q \<Rightarrow> Some (q, f))
           else Some (r, f)))"

section \<open>Writing\<close>

text \<open>
  One round of the loop of \<open>write\<close>: \<open>None\<close> does not return; \<open>Some None\<close> needs more bytes; otherwise the
  bytes left, the line that was committed, and the new state.
\<close>

definition lf_step :: "string \<Rightarrow> lineFilter \<Rightarrow> (string \<times> nat list option \<times> lineFilter) option option" where
  "lf_step s f =
     (if hd s = CHR 0x1B then Some (map_option (\<lambda>(r, g). (r, None, g)) (consumeESC (tl s) f))
      else if hd s = CHR 0x9B then Some (map_option (\<lambda>(r, g). (r, None, g)) (consumeCSI [] (tl s) f))
      else
        (let bs = map of_char s; (r, size) = DecodeRune bs in
         if r = RuneError \<and> size = 1 then
           (if \<not> FullRune bs then Some None else Some (Some (tl s, None, f)))
         else map_option (\<lambda>(out, g). Some (drop size s, out, g)) (putRune r f)))"

lemma consumeCSI_length: "consumeCSI ps s f = Some (r, g) \<Longrightarrow> length r < length s"
  by (induction ps s f rule: consumeCSI.induct) (auto simp: Let_def split: if_splits)

lemma consumeStringTerm_length: "consumeStringTerm s = Some r \<Longrightarrow> length r < length s"
proof (induction s rule: consumeStringTerm.induct)
  case (2 c s)
  then show ?case by (cases s) (auto split: if_splits)
qed simp

lemma consumeESC_length: "consumeESC s f = Some (r, g) \<Longrightarrow> length r < length s"
  by (cases s) (auto simp: consumeESC_def less_SucI simp del: consumeCSI.simps
      dest: consumeCSI_length consumeStringTerm_length split: list.splits if_splits)

lemma DecodeRune_size: "p \<noteq> [] \<Longrightarrow> 1 \<le> snd (DecodeRune p)"
  by (auto simp: DecodeRune_def split: list.splits)

lemma lf_step_length: "s \<noteq> [] \<Longrightarrow> lf_step s f = Some (Some (r, out, g)) \<Longrightarrow> length r < length s"
  using DecodeRune_size [of "map of_char s"]
  by (cases s)
    (auto simp: lf_step_def Let_def less_SucI simp del: consumeCSI.simps dest: consumeCSI_length consumeESC_length split: if_splits prod.splits)

function write_loop :: "string \<Rightarrow> lineFilter \<Rightarrow> (nat list list \<times> lineFilter) option" where
  "write_loop s f =
     (if s = [] then Some ([], f\<lparr>lf_pending := []\<rparr>)
      else
        (case lf_step s f of
           None \<Rightarrow> None
         | Some None \<Rightarrow> Some ([], f\<lparr>lf_pending := s\<rparr>)
         | Some (Some (rest, out, g)) \<Rightarrow>
             map_option (\<lambda>(c, h). ((case out of None \<Rightarrow> [] | Some l \<Rightarrow> [l]) @ c, h)) (write_loop rest g)))"
  by pat_completeness auto

termination
  by (relation "measure (\<lambda>(s, f). length s)") (auto dest: lf_step_length)

declare write_loop.simps [simp del]

text \<open>Every way out of the loop sets \<open>pending\<close> anew, so it starts empty here.\<close>

definition lf_write :: "string \<Rightarrow> lineFilter \<Rightarrow> (nat list list \<times> lineFilter) option" where
  "lf_write p f =
     (if p = [] then Some ([], f)
      else
        (let s = lf_pending f @ p;
             s = (if length s > lineMaxPending then drop (length s - lineMaxPending) s else s)
         in write_loop s (f\<lparr>lf_pending := []\<rparr>)))"

section \<open>Bounds and printable lines\<close>

definition printable :: "nat \<Rightarrow> bool" where
  "printable r \<longleftrightarrow> 32 \<le> r \<and> r \<noteq> 127"

definition lf_ok :: "lineFilter \<Rightarrow> bool" where
  "lf_ok f \<longleftrightarrow> length (lf_line f) \<le> lineMaxCols \<and> lf_col f \<le> lineMaxCols \<and> list_all printable (lf_line f)"

lemma lf_okI [intro]:
  "length (lf_line f) \<le> lineMaxCols \<Longrightarrow> lf_col f \<le> lineMaxCols \<Longrightarrow> list_all printable (lf_line f) \<Longrightarrow> lf_ok f"
  by (simp add: lf_ok_def)

lemma lf_new_ok: "lf_ok lf_new"
  by (simp add: lf_ok_def lf_new_def)

lemma lf_put_pending [simp]: "lf_pending (lf_put r f) = lf_pending f"
  by (simp add: lf_put_def Let_def)

lemma lf_put_ok:
  assumes "lf_ok f" and "printable r"
  shows "lf_ok (lf_put r f)"
proof -
  have "printable 32" by (simp add: printable_def)
  then show ?thesis
    using assms unfolding lf_ok_def lf_put_def Let_def list_all_iff
    by (auto dest!: set_update_subset_insert [THEN subsetD])
qed

lemma tab_loop_sound:
  assumes "tab_loop nxt f = Some g"
  shows "nxt \<le> lf_col g \<and> (lf_ok f \<longrightarrow> lf_ok g) \<and> lf_pending g = lf_pending f"
proof (rule tab_loop.raw_induct [where P = "\<lambda>nxt f g. nxt \<le> lf_col g \<and> (lf_ok f \<longrightarrow> lf_ok g) \<and> lf_pending g = lf_pending f", OF _ assms])
  fix rec nxt f g
  assume IH: "\<And>nxt f g. rec nxt f = Some g \<Longrightarrow> nxt \<le> lf_col g \<and> (lf_ok f \<longrightarrow> lf_ok g) \<and> lf_pending g = lf_pending f"
    and eq: "(if lf_col f < nxt then rec nxt (lf_put 32 f) else Some f) = Some g"
  have p: "printable 32" by (simp add: printable_def)
  show "nxt \<le> lf_col g \<and> (lf_ok f \<longrightarrow> lf_ok g) \<and> lf_pending g = lf_pending f"
  proof (cases "lf_col f < nxt")
    case True
    then have "rec nxt (lf_put 32 f) = Some g" using eq by simp
    from IH [OF this] show ?thesis using lf_put_ok [OF _ p] by simp
  qed (use eq in simp)
qed

lemma putRune_ok:
  assumes "lf_ok f" and "putRune r f = Some (out, g)"
  shows "lf_ok g \<and> lf_pending g = lf_pending f \<and>
    (\<forall>l. out = Some l \<longrightarrow> l \<noteq> [] \<and> length l \<le> lineMaxCols \<and> list_all printable l)"
  using assms lf_put_ok [OF assms(1), of r] tab_loop_sound [of "(lf_col f div 8 + 1) * 8" f g]
  by (auto simp: putRune_def lf_newline_def lf_reset_def lf_ok_def printable_def split: if_splits)

lemma eraseInLine_ok: "lf_ok f \<Longrightarrow> lf_ok (eraseInLine n f)" "lf_pending (eraseInLine n f) = lf_pending f"
  by (auto simp: eraseInLine_def lf_ok_def list_all_iff printable_def dest: in_set_takeD in_set_dropD)

lemma clampInt_cols: "nat (clampInt v 0 (int lineMaxCols)) \<le> lineMaxCols"
  by (auto simp: clampInt_def)

lemma applyCSI_ok: "lf_ok f \<Longrightarrow> lf_ok (applyCSI ps c f) \<and> lf_pending (applyCSI ps c f) = lf_pending f"
  using clampInt_cols eraseInLine_ok [where f = f] unfolding applyCSI_def Let_def lf_ok_def by simp

lemma consumeCSI_ok: "consumeCSI ps s f = Some (r, g) \<Longrightarrow> lf_ok f \<Longrightarrow> lf_ok g \<and> lf_pending g = lf_pending f"
  by (induction ps s f rule: consumeCSI.induct) (auto simp: Let_def applyCSI_ok split: if_splits)

lemma consumeESC_ok: "consumeESC s f = Some (r, g) \<Longrightarrow> lf_ok f \<Longrightarrow> lf_ok g \<and> lf_pending g = lf_pending f"
  by (auto simp: consumeESC_def simp del: consumeCSI.simps dest: consumeCSI_ok split: list.splits if_splits)

text \<open>The four ways through a round that goes on.\<close>

lemma lf_step_go:
  assumes "lf_step s f = Some (Some (r, out, g))"
  obtains (esc) "hd s = CHR 0x1B" "consumeESC (tl s) f = Some (r, g)" "out = None"
    | (csi) "hd s = CHR 0x9B" "consumeCSI [] (tl s) f = Some (r, g)" "out = None"
    | (bad) "hd s \<noteq> CHR 0x1B" "hd s \<noteq> CHR 0x9B" "DecodeRune (map of_char s) = (RuneError, 1)" "FullRune (map of_char s)" "r = tl s" "out = None" "g = f"
    | (rune) x n where "hd s \<noteq> CHR 0x1B" "hd s \<noteq> CHR 0x9B" "DecodeRune (map of_char s) = (x, n)" "(x, n) \<noteq> (RuneError, 1)"
        "putRune x f = Some (out, g)" "r = drop n s"
proof -
  obtain x n where d: "DecodeRune (map of_char s) = (x, n)" by fastforce
  consider "hd s = CHR 0x1B" | "hd s = CHR 0x9B" | "hd s \<noteq> CHR 0x1B" "hd s \<noteq> CHR 0x9B" by blast
  then show thesis
  proof cases
    case 1
    then show thesis using assms esc by (auto simp: lf_step_def simp del: consumeCSI.simps)
  next
    case 2
    then show thesis using assms csi by (auto simp: lf_step_def simp del: consumeCSI.simps)
  next
    case 3
    then show thesis using assms d bad rune [OF 3 d] by (auto simp: lf_step_def simp del: consumeCSI.simps split: if_splits)
  qed
qed

lemma lf_step_ok:
  assumes "lf_ok f" and "lf_step s f = Some (Some (r, out, g))"
  shows "lf_ok g \<and> lf_pending g = lf_pending f \<and>
    (\<forall>l. out = Some l \<longrightarrow> l \<noteq> [] \<and> length l \<le> lineMaxCols \<and> list_all printable l)"
  using assms(2)
proof (cases rule: lf_step_go)
  case esc
  then show ?thesis using consumeESC_ok assms(1) by simp
next
  case csi
  then show ?thesis using consumeCSI_ok assms(1) by simp
next
  case (rune x n)
  then show ?thesis using putRune_ok assms(1) by blast
qed (use assms(1) in simp)

lemma write_loop_Nil: "write_loop [] f = Some ([], f\<lparr>lf_pending := []\<rparr>)"
  by (simp add: write_loop.simps [of "[]"])

lemma write_loop_wait: "s \<noteq> [] \<Longrightarrow> lf_step s f = Some None \<Longrightarrow> write_loop s f = Some ([], f\<lparr>lf_pending := s\<rparr>)"
  by (simp add: write_loop.simps [of s f])

lemma write_loop_hang: "s \<noteq> [] \<Longrightarrow> lf_step s f = None \<Longrightarrow> write_loop s f = None"
  by (simp add: write_loop.simps [of s f])

lemma write_loop_go:
  "s \<noteq> [] \<Longrightarrow> lf_step s f = Some (Some (rest, out, g)) \<Longrightarrow>
    write_loop s f = map_option (\<lambda>(c, h). ((case out of None \<Rightarrow> [] | Some l \<Rightarrow> [l]) @ c, h)) (write_loop rest g)"
  by (simp add: write_loop.simps [of s f])

lemma lf_step_cases:
  obtains (hang) "lf_step s f = None" | (wait) "lf_step s f = Some None"
    | (go) rest out g where "lf_step s f = Some (Some (rest, out, g))"
  by (cases "lf_step s f"; cases "the (lf_step s f)") auto

lemma write_loop_ok:
  "write_loop s f = Some (c, g) \<Longrightarrow> lf_ok f \<Longrightarrow>
    lf_ok g \<and> length (lf_pending g) \<le> length s \<and> (\<forall>l \<in> set c. l \<noteq> [] \<and> length l \<le> lineMaxCols \<and> list_all printable l)"
proof (induction "length s" arbitrary: s f c rule: less_induct)
  case less
  show ?case
  proof (cases "s = []")
    case False
    show ?thesis
    proof (cases rule: lf_step_cases [of s f])
      case wait
      then show ?thesis using less.prems False by (auto simp: write_loop_wait lf_ok_def)
    next
      case (go rest out h)
      then obtain c' where c: "write_loop rest h = Some (c', g)" "c = (case out of None \<Rightarrow> [] | Some l \<Rightarrow> [l]) @ c'"
        using less.prems(1) by (auto simp: write_loop_go [OF False go])
      have len: "length rest < length s" using False go by (rule lf_step_length)
      have ok: "lf_ok h" "\<forall>l. out = Some l \<longrightarrow> l \<noteq> [] \<and> length l \<le> lineMaxCols \<and> list_all printable l"
        using lf_step_ok [OF less.prems(2) go] by auto
      show ?thesis using less.hyps [OF len c(1) ok(1)] ok(2) len c(2) by (auto split: option.splits)
    qed (use less.prems write_loop_hang [OF False] in simp)
  qed (use less.prems in \<open>auto simp: write_loop_Nil lf_ok_def\<close>)
qed

lemma lf_write_ok:
  assumes "lf_write p f = Some (c, g)" and "lf_ok f" and "length (lf_pending f) \<le> lineMaxPending"
  shows "lf_ok g" and "length (lf_pending g) \<le> lineMaxPending"
    and "l \<in> set c \<Longrightarrow> l \<noteq> [] \<and> length l \<le> lineMaxCols \<and> list_all printable l"
proof -
  have ok: "lf_ok (f\<lparr>lf_pending := []\<rparr>)" using assms(2) by (simp add: lf_ok_def)
  have "lf_ok g \<and> length (lf_pending g) \<le> lineMaxPending \<and>
      (\<forall>l \<in> set c. l \<noteq> [] \<and> length l \<le> lineMaxCols \<and> list_all printable l)"
  proof (cases "p = []")
    case True
    then show ?thesis using assms by (simp add: lf_write_def)
  next
    case False
    define q where "q = lf_pending f @ p"
    define s where "s = (if length q > lineMaxPending then drop (length q - lineMaxPending) q else q)"
    have "write_loop s (f\<lparr>lf_pending := []\<rparr>) = Some (c, g)"
      using assms(1) False unfolding lf_write_def Let_def s_def q_def by (simp only: if_False)
    moreover have "length s \<le> lineMaxPending" by (simp add: s_def)
    ultimately show ?thesis using write_loop_ok [OF _ ok] by fastforce
  qed
  then show "lf_ok g" "length (lf_pending g) \<le> lineMaxPending"
    "l \<in> set c \<Longrightarrow> l \<noteq> [] \<and> length l \<le> lineMaxCols \<and> list_all printable l" by auto
qed

section \<open>The size of the writes does not matter\<close>

lemma consumeCSI_append: "consumeCSI ps s f = Some (r, g) \<Longrightarrow> consumeCSI ps (s @ t) f = Some (r @ t, g)"
  by (induction ps s f rule: consumeCSI.induct) (auto simp: Let_def split: if_splits)

lemma consumeStringTerm_append: "consumeStringTerm s = Some r \<Longrightarrow> consumeStringTerm (s @ t) = Some (r @ t)"
proof (induction s rule: consumeStringTerm.induct)
  case (2 c s)
  then show ?case by (cases s) (auto split: if_splits)
qed simp

lemma consumeESC_append: "consumeESC s f = Some (r, g) \<Longrightarrow> consumeESC (s @ t) f = Some (r @ t, g)"
  by (cases s) (auto simp: consumeESC_def consumeCSI_append consumeStringTerm_append simp del: consumeCSI.simps
      split: if_splits list.splits)

text \<open>A rune, or an error that more bytes cannot mend, is read the same with more bytes behind it.\<close>

lemma Decode_append:
  assumes "FullRune p \<or> DecodeRune p \<noteq> (RuneError, 1)" and "p \<noteq> []"
  shows "DecodeRune (p @ q) = DecodeRune p" and "FullRune p \<Longrightarrow> FullRune (p @ q)" and "snd (DecodeRune p) \<le> length p"
proof -
  obtain b bs where p: "p = b # bs" using assms(2) by (cases p) auto
  have n: "(p @ q) ! k = p ! k" if "k < length p" for k using that by (simp add: nth_append)
  have s: "rune_size b \<in> {1, 2, 3, 4}" by (simp add: rune_size_def)
  show "DecodeRune (p @ q) = DecodeRune p"
  proof (cases "length p < rune_size b")
    case True
    then have "DecodeRune p = (if b < 128 then (b, 1) else (RuneError, 1))" by (auto simp: DecodeRune_def p)
    moreover have "DecodeRune (p @ q) = (if b < 128 then (b, 1) else (RuneError, 1))"
    proof (cases "b < 128")
      case False
      then have "FullRune p" using assms(1) True by (auto simp: DecodeRune_def p)
      then consider "1 < length p" "\<not> accept_second b (p ! 1)" | "2 < length p" "\<not> cont_byte (p ! 2)"
        using True by (auto simp: FullRune_def p)
      then show ?thesis
      proof cases
        case 1
        then show ?thesis using False n [of 1] by (auto simp: DecodeRune_def p)
      next
        case 2
        then show ?thesis using False True s n [of 2] by (auto simp: DecodeRune_def p)
      qed
    qed (simp add: DecodeRune_def p)
    ultimately show ?thesis by simp
  next
    case False
    from s consider "rune_size b = 1" | "rune_size b = 2" | "rune_size b = 3" | "rune_size b = 4" by blast
    then show ?thesis using False by cases (auto simp: DecodeRune_def p nth_append)
  qed
  show "FullRune p \<Longrightarrow> FullRune (p @ q)" using n [of 1] n [of 2] by (auto simp: FullRune_def p split: if_splits)
  show "snd (DecodeRune p) \<le> length p" using s by (auto simp: DecodeRune_def p Suc_le_eq)
qed

lemma lf_step_append:
  assumes "s \<noteq> []" and "lf_step s f = Some (Some (r, out, g))"
  shows "lf_step (s @ t) f = Some (Some (r @ t, out, g))"
  using assms(2)
proof (cases rule: lf_step_go)
  case esc
  then show ?thesis using assms(1) consumeESC_append by (simp add: lf_step_def)
next
  case csi
  then show ?thesis using assms(1) consumeCSI_append by (simp add: lf_step_def del: consumeCSI.simps)
next
  case bad
  then show ?thesis
    using assms(1) Decode_append(1,2) [of "map of_char s" "map of_char t"] by (simp add: lf_step_def del: consumeCSI.simps)
next
  case (rune x n)
  then have d: "DecodeRune (map of_char s @ map of_char t) = (x, n)" "n \<le> length s"
    using assms(1) Decode_append(1) [of "map of_char s" "map of_char t"] Decode_append(3) [of "map of_char s"] by auto
  then show ?thesis using assms(1) rune by (auto simp: lf_step_def simp del: consumeCSI.simps)
qed

text \<open>A rune below 128 is a byte of its own.\<close>

lemma mod_offset: "k * n \<le> b \<Longrightarrow> b < Suc k * n \<Longrightarrow> b mod n = b - k * n" for b :: nat
proof -
  assume "k * n \<le> b" "b < Suc k * n"
  then obtain c where "b = k * n + c" "c < n" using le_Suc_ex [of "k * n" b] by auto
  then show ?thesis by simp
qed

lemma decode_small:
  assumes "DecodeRune p = (x, n)" and "x < 128" and "p \<noteq> []"
  shows "hd p = x \<and> n = 1"
proof -
  obtain b bs where p: "p = b # bs" using assms(3) by (cases p) auto
  have two: "b mod 32 * 64 + c \<ge> 128" if "rune_size b = 2" for c
  proof -
    have "194 \<le> b" "b < 224" using that by (auto simp: rune_size_def split: if_splits)
    then have "2 \<le> b mod 32" using mod_offset [of 6 32 b] by simp
    then show ?thesis by simp
  qed
  have three: "b mod 16 * 4096 + p ! 1 mod 64 * 64 + c \<ge> 128" if "rune_size b = 3" "accept_second b (p ! 1)" for c
  proof (cases "b = 224")
    case True
    then have "160 \<le> p ! 1" "p ! 1 \<le> 191" using that(2) by (auto simp: accept_second_def)
    then have "32 \<le> p ! 1 mod 64" using mod_offset [of 2 64 "p ! 1"] by simp
    then show ?thesis by simp
  next
    case False
    then have "225 \<le> b" "b < 240" using that(1) by (auto simp: rune_size_def split: if_splits)
    then have "1 \<le> b mod 16" using mod_offset [of 14 16 b] by simp
    then show ?thesis by simp
  qed
  have four: "b mod 8 * 262144 + p ! 1 mod 64 * 4096 + c \<ge> 128" if "rune_size b = 4" "accept_second b (p ! 1)" for c
  proof (cases "b = 240")
    case True
    then have "144 \<le> p ! 1" "p ! 1 \<le> 191" using that(2) by (auto simp: accept_second_def)
    then have "16 \<le> p ! 1 mod 64" using mod_offset [of 2 64 "p ! 1"] by simp
    then show ?thesis by simp
  next
    case False
    then have "241 \<le> b" "b < 245" using that(1) by (auto simp: rune_size_def split: if_splits)
    then have "1 \<le> b mod 8" using mod_offset [of 30 8 b] by simp
    then show ?thesis by simp
  qed
  have d: "DecodeRune p = (if b < 128 then (b, 1)
      else if rune_size b = 1 \<or> length p < rune_size b \<or> \<not> accept_second b (p ! 1) then (RuneError, 1)
      else if rune_size b = 2 then (b mod 32 * 64 + p ! 1 mod 64, 2)
      else if \<not> cont_byte (p ! 2) then (RuneError, 1)
      else if rune_size b = 3 then (b mod 16 * 4096 + p ! 1 mod 64 * 64 + p ! 2 mod 64, 3)
      else if \<not> cont_byte (p ! 3) then (RuneError, 1)
      else (b mod 8 * 262144 + p ! 1 mod 64 * 4096 + p ! 2 mod 64 * 64 + p ! 3 mod 64, 4))"
    by (simp add: DecodeRune_def p)
  have "128 \<le> x" if b: "\<not> b < 128"
  proof (cases "rune_size b = 1 \<or> length p < rune_size b \<or> \<not> accept_second b (p ! 1)")
    case True
    then show ?thesis using assms(1) b unfolding d by simp
  next
    case False
    then consider "rune_size b = 2" | "rune_size b = 3" | "rune_size b = 4" by (auto simp: rune_size_def split: if_splits)
    then show ?thesis
    proof cases
      case 1
      then have "x = b mod 32 * 64 + p ! 1 mod 64" using assms(1) b False unfolding d by simp
      then show ?thesis using two [OF 1] by simp
    next
      case 2
      then have "x = RuneError \<or> x = b mod 16 * 4096 + p ! 1 mod 64 * 64 + p ! 2 mod 64"
        using assms(1) b False unfolding d by (simp split: if_splits)
      then show ?thesis using three [OF 2, of "p ! 2 mod 64"] False by auto
    next
      case 3
      then have "x = RuneError \<or> x = b mod 8 * 262144 + p ! 1 mod 64 * 4096 + p ! 2 mod 64 * 64 + p ! 3 mod 64"
        using assms(1) b False unfolding d by (simp split: if_splits)
      then show ?thesis using four [OF 3, of "p ! 2 mod 64 * 64 + p ! 3 mod 64"] False by auto
    qed
  qed
  then have "b < 128" using assms(2) by (meson not_le)
  then show ?thesis using assms(1) unfolding d by (simp add: p)
qed

text \<open>The loop of a tab ends exactly when the tab stop is on the line.\<close>

lemma tab_returns:
  assumes "nxt \<le> lineMaxCols"
  shows "\<exists>g. tab_loop nxt f = Some g"
proof -
  have *: "\<not> lf_afterCR f \<Longrightarrow> \<exists>g. tab_loop nxt f = Some g" for f
  proof (induction "nxt - lf_col f" arbitrary: f rule: less_induct)
    case less
    show ?case
    proof (cases "lf_col f < nxt")
      case True
      then have "lf_col (lf_put 32 f) = lf_col f + 1" "\<not> lf_afterCR (lf_put 32 f)"
        using less.prems assms by (simp_all add: lf_put_def Let_def)
      then show ?thesis using less.hyps [of "lf_put 32 f"] True tab_loop.simps [of nxt f] by simp
    qed (simp add: tab_loop.simps [of nxt f])
  qed
  have "\<not> lf_afterCR (lf_put 32 f)" by (simp add: lf_put_def Let_def)
  then show ?thesis using * [of "lf_put 32 f"] tab_loop.simps [of nxt f] by simp
qed

lemma tab_stop:
  assumes "lf_ok f"
  shows "(\<exists>r. putRune 9 f = Some r) \<longleftrightarrow> lf_col f < lineMaxCols"
proof (cases "lf_col f < lineMaxCols")
  case True
  then have "(lf_col f div 8 + 1) * 8 \<le> lineMaxCols" by (simp add: lineMaxCols_def)
  then show ?thesis using tab_returns True by (auto simp: putRune_def)
next
  case False
  then have "lf_col f = lineMaxCols" using assms by (simp add: lf_ok_def)
  then have "lineMaxCols < (lf_col f div 8 + 1) * 8" by (simp add: lineMaxCols_def)
  moreover have "lf_col g \<le> lineMaxCols" if "tab_loop nxt f = Some g" for nxt g
    using tab_loop_sound [OF that] assms by (simp add: lf_ok_def)
  ultimately have "tab_loop ((lf_col f div 8 + 1) * 8) f = None"
    using tab_loop_sound [of "(lf_col f div 8 + 1) * 8" f] by (cases "tab_loop ((lf_col f div 8 + 1) * 8) f") fastforce+
  then show ?thesis using False by (simp add: putRune_def)
qed

lemma putRune_hang: "putRune x f = None \<Longrightarrow> x = 9"
  by (auto simp: putRune_def split: if_splits)

lemma lf_step_hang:
  assumes "s \<noteq> []" and "lf_step s f = None"
  shows "lf_step (s @ t) f = None" and "lf_ok f \<Longrightarrow> hd s = CHR 0x09 \<and> lf_col f = lineMaxCols"
proof -
  obtain x n where d: "DecodeRune (map of_char s) = (x, n)" by fastforce
  have h: "hd s \<noteq> CHR 0x1B" "hd s \<noteq> CHR 0x9B" "(x, n) \<noteq> (RuneError, 1)" "putRune x f = None"
    using assms(2) d by (auto simp: lf_step_def simp del: consumeCSI.simps split: if_splits)
  have "DecodeRune (map of_char s @ map of_char t) = (x, n)"
    using assms(1) Decode_append(1) [of "map of_char s" "map of_char t"] d h(3) by auto
  then show "lf_step (s @ t) f = None" using assms(1) h by (auto simp: lf_step_def simp del: consumeCSI.simps)
  assume ok: "lf_ok f"
  have x: "x = 9" using putRune_hang [OF h(4)] .
  then have "hd (map of_char s :: nat list) = 9" using decode_small [OF d] assms(1) by simp
  then have "of_char (hd s) = (of_char (CHR 0x09) :: nat)" using assms(1) by (simp add: hd_map)
  then have "hd s = CHR 0x09" by (rule of_char_eq_iff [THEN iffD1])
  moreover have "lf_col f = lineMaxCols" using tab_stop [OF ok] ok h(4) x by (auto simp: lf_ok_def)
  ultimately show "hd s = CHR 0x09 \<and> lf_col f = lineMaxCols" by simp
qed

text \<open>Writing in one piece or in two gives the same lines and the same state.\<close>

lemma write_loop_append:
  "write_loop (s @ t) f = Option.bind (write_loop s f)
     (\<lambda>(c, g). map_option (\<lambda>(d, h). (c @ d, h)) (write_loop (lf_pending g @ t) (g\<lparr>lf_pending := lf_pending f\<rparr>)))"
  if "lf_ok f"
  using that
proof (induction "length s" arbitrary: s f rule: less_induct)
  case less
  show ?case
  proof (cases "s = []")
    case True
    then show ?thesis by (simp add: write_loop_Nil option.map_id0)
  next
    case False
    show ?thesis
    proof (cases rule: lf_step_cases [of s f])
      case hang
      then show ?thesis using False lf_step_hang(1) [OF False hang, of t] by (simp add: write_loop_hang)
    next
      case wait
      then show ?thesis using False by (simp add: write_loop_wait option.map_id0)
    next
      case (go rest out h)
      have "lf_step (s @ t) f = Some (Some (rest @ t, out, h))" using False go by (rule lf_step_append)
      moreover have "length rest < length s" using False go by (rule lf_step_length)
      moreover have "lf_ok h" "lf_pending h = lf_pending f" using lf_step_ok [OF less.prems go] by auto
      ultimately show ?thesis
        using False go less.hyps [of rest h]
        by (cases "write_loop rest h") (auto simp: write_loop_go option.map_comp comp_def split: prod.splits intro!: option.map_cong0)
    qed
  qed
qed

text \<open>
  What both writers of the task group promise: a stream may be cut into writes anywhere. \<open>whole\<close> is the
  effect of bytes with no bound on what is kept back; \<open>write\<close> is the code's, which agrees where there is room.
\<close>

fun writes :: "('b list \<Rightarrow> 's \<Rightarrow> ('o list \<times> 's) option) \<Rightarrow> 'b list list \<Rightarrow> 's \<Rightarrow> ('o list \<times> 's) option" where
  "writes wr [] f = Some ([], f)"
| "writes wr (p # ps) f = Option.bind (wr p f) (\<lambda>(c, g). map_option (\<lambda>(d, h). (c @ d, h)) (writes wr ps g))"

fun fits :: "(nat \<Rightarrow> 's \<Rightarrow> bool) \<Rightarrow> ('b list \<Rightarrow> 's \<Rightarrow> ('o list \<times> 's) option) \<Rightarrow> 'b list list \<Rightarrow> 's \<Rightarrow> bool" where
  "fits room wr [] f = True"
| "fits room wr (p # ps) f = (room (length p) f \<and> (case wr p f of None \<Rightarrow> True | Some (c, g) \<Rightarrow> fits room wr ps g))"

locale chunked =
  fixes wr :: "'b list \<Rightarrow> 's \<Rightarrow> ('o list \<times> 's) option"
    and whole :: "'b list \<Rightarrow> 's \<Rightarrow> ('o list \<times> 's) option"
    and room :: "nat \<Rightarrow> 's \<Rightarrow> bool"
    and ok :: "'s \<Rightarrow> bool"
  assumes whole_Nil: "ok f \<Longrightarrow> whole [] f = Some ([], f)"
    and whole_append: "ok f \<Longrightarrow>
      whole (p @ q) f = Option.bind (whole p f) (\<lambda>(c, g). map_option (\<lambda>(d, h). (c @ d, h)) (whole q g))"
    and whole_ok: "ok f \<Longrightarrow> whole p f = Some (c, g) \<Longrightarrow> ok g"
    and wr_whole: "ok f \<Longrightarrow> room (length p) f \<Longrightarrow> wr p f = whole p f"
begin

lemma writes_whole: "ok f \<Longrightarrow> fits room wr ps f \<Longrightarrow> writes wr ps f = whole (concat ps) f"
proof (induction ps arbitrary: f)
  case (Cons p ps)
  have e: "wr p f = whole p f" using Cons.prems by (intro wr_whole) simp_all
  show ?case
  proof (cases "whole p f")
    case (Some r)
    obtain c g where r: "r = (c, g)" by (cases r)
    have "ok g" using whole_ok Cons.prems(1) Some r by blast
    then have "writes wr ps g = whole (concat ps) g" using Cons.IH Cons.prems(2) e Some r by simp
    then show ?thesis using whole_append [OF Cons.prems(1), of p "concat ps"] e Some r by simp
  qed (use whole_append [OF Cons.prems(1), of p "concat ps"] e in simp)
qed (simp add: whole_Nil)

lemma same_stream:
  assumes "ok f" "fits room wr ps f" "fits room wr qs f" "concat ps = concat qs"
  shows "writes wr ps f = writes wr qs f"
  using assms by (simp add: writes_whole)

end

definition lf_whole :: "string \<Rightarrow> lineFilter \<Rightarrow> (nat list list \<times> lineFilter) option" where
  "lf_whole p f = write_loop (lf_pending f @ p) (f\<lparr>lf_pending := []\<rparr>)"

text \<open>A filter at rest: its bytes kept back say nothing until more come.\<close>

definition lf_rest :: "lineFilter \<Rightarrow> bool" where
  "lf_rest f \<longleftrightarrow> lf_ok f \<and> lf_whole [] f = Some ([], f)"

definition lf_room :: "nat \<Rightarrow> lineFilter \<Rightarrow> bool" where
  "lf_room n f \<longleftrightarrow> length (lf_pending f) + n \<le> lineMaxPending"

lemma lf_new_rest: "lf_rest lf_new"
  by (simp add: lf_rest_def lf_new_ok) (simp add: lf_whole_def lf_new_def write_loop_Nil)

lemma lf_whole_append:
  assumes "lf_ok f"
  shows "lf_whole (p @ q) f = Option.bind (lf_whole p f) (\<lambda>(c, g). map_option (\<lambda>(d, h). (c @ d, h)) (lf_whole q g))"
proof -
  have "lf_ok (f\<lparr>lf_pending := []\<rparr>)" using assms by (simp add: lf_ok_def)
  from write_loop_append [OF this, of "lf_pending f @ p" q] show ?thesis by (simp add: lf_whole_def)
qed

lemma lf_whole_rest:
  assumes "lf_ok f" and "lf_whole p f = Some (c, g)"
  shows "lf_rest g"
proof -
  have "lf_ok (f\<lparr>lf_pending := []\<rparr>)" using assms(1) by (simp add: lf_ok_def)
  then have "lf_ok g" using write_loop_ok assms(2) unfolding lf_whole_def by blast
  moreover have "lf_whole [] g = Some ([], g)"
    using lf_whole_append [OF assms(1), of p "[]"] assms(2) by (cases "lf_whole [] g") auto
  ultimately show ?thesis by (simp add: lf_rest_def)
qed

lemma lf_write_whole:
  assumes "lf_rest f" and "lf_room (length p) f"
  shows "lf_write p f = lf_whole p f"
  using assms by (cases "p = []") (simp_all add: lf_rest_def lf_room_def lf_write_def lf_whole_def)

interpretation line_filter: chunked lf_write lf_whole lf_room lf_rest
  by unfold_locales (auto simp: lf_write_whole lf_whole_append lf_rest_def intro: lf_whole_rest [unfolded lf_rest_def, THEN conjunct1] dest: lf_whole_rest)

text \<open>What does not fit is dropped from the front, complete lines too.\<close>

lemma lf_write_drops:
  assumes "length q = lineMaxPending"
  shows "lf_write (p @ q) f = lf_write q (f\<lparr>lf_pending := []\<rparr>)"
proof -
  have "q \<noteq> []" using assms by (auto simp: lineMaxPending_def)
  moreover have "drop (length (lf_pending f @ p)) (lf_pending f @ p @ q) = q" by simp
  ultimately show ?thesis using assms by (simp add: lf_write_def Let_def)
qed

section \<open>When writing returns\<close>

lemma consumeCSI_set: "consumeCSI ps s f = Some (r, g) \<Longrightarrow> set r \<subseteq> set s"
  by (induction ps s f rule: consumeCSI.induct) (auto simp: Let_def split: if_splits)

lemma consumeStringTerm_set: "consumeStringTerm s = Some r \<Longrightarrow> set r \<subseteq> set s"
proof (induction s rule: consumeStringTerm.induct)
  case (2 c s)
  then show ?case by (cases s) (auto split: if_splits)
qed simp

lemma consumeESC_set: "consumeESC s f = Some (r, g) \<Longrightarrow> set r \<subseteq> set s"
  by (cases s) (auto simp: consumeESC_def simp del: consumeCSI.simps
      dest: consumeCSI_set [THEN subsetD] consumeStringTerm_set [THEN subsetD] split: if_splits list.splits)

lemma lf_step_set:
  assumes "s \<noteq> []" and "lf_step s f = Some (Some (r, out, g))"
  shows "set r \<subseteq> set s"
proof -
  have tl: "set (tl s) \<subseteq> set s" using assms(1) by (cases s) auto
  from assms(2) show ?thesis
  proof (cases rule: lf_step_go)
    case esc
    then show ?thesis using consumeESC_set tl by blast
  next
    case csi
    then show ?thesis using consumeCSI_set tl by blast
  next
    case (rune x n)
    then show ?thesis using set_drop_subset [of n s] by simp
  qed (use tl in simp)
qed

lemma write_loop_returns:
  "lf_ok f \<Longrightarrow> CHR 0x09 \<notin> set s \<Longrightarrow> \<exists>r. write_loop s f = Some r"
proof (induction "length s" arbitrary: s f rule: less_induct)
  case less
  show ?case
  proof (cases "s = []")
    case False
    show ?thesis
    proof (cases rule: lf_step_cases [of s f])
      case hang
      have "hd s = CHR 0x09" using lf_step_hang(2) [OF False hang less.prems(1)] by simp
      then show ?thesis using less.prems(2) False hd_in_set by metis
    next
      case wait
      then show ?thesis using False by (simp add: write_loop_wait)
    next
      case (go rest out h)
      have "\<exists>r. write_loop rest h = Some r"
        using lf_step_length [OF False go] lf_step_ok [OF less.prems(1) go] lf_step_set [OF False go] less.prems(2)
        by (intro less.hyps) auto
      then show ?thesis using write_loop_go [OF False go] by auto
    qed
  qed (simp add: write_loop_Nil)
qed

lemma lf_write_returns:
  assumes "lf_ok f" and "CHR 0x09 \<notin> set (lf_pending f @ p)"
  shows "\<exists>r. lf_write p f = Some r"
proof (cases "p = []")
  case False
  let ?q = "lf_pending f @ p"
  let ?s = "if length ?q > lineMaxPending then drop (length ?q - lineMaxPending) ?q else ?q"
  have "set ?s \<subseteq> set ?q" using set_drop_subset [of "length ?q - lineMaxPending" ?q] by simp
  then have "CHR 0x09 \<notin> set ?s" using assms(2) by blast
  then have "\<exists>r. write_loop ?s (f\<lparr>lf_pending := []\<rparr>) = Some r"
    using assms(1) by (intro write_loop_returns) (simp_all add: lf_ok_def)
  then show ?thesis using False unfolding lf_write_def Let_def by (simp only: if_False)
qed (simp add: lf_write_def)

section \<open>Plain text\<close>

definition plain_char :: "char \<Rightarrow> bool" where
  "plain_char c \<longleftrightarrow> 32 \<le> (of_char c :: nat) \<and> (of_char c :: nat) < 127"

lemma lf_step_ascii:
  assumes "(of_char c :: nat) < 128" and "(of_char c :: nat) \<noteq> 27"
  shows "lf_step (c # s) f = map_option (\<lambda>(out, g). Some (s, out, g)) (putRune (of_char c) f)"
proof -
  have "c \<noteq> CHR 0x1B" "c \<noteq> CHR 0x9B" using assms by auto
  moreover have "DecodeRune (of_char c # map of_char s) = (of_char c, 1)" using assms by (simp add: DecodeRune_def)
  ultimately show ?thesis using assms by (simp add: lf_step_def del: consumeCSI.simps)
qed

lemma write_plain:
  assumes "plain_char c"
  shows "write_loop (c # s) f = write_loop s (lf_put (of_char c) f)"
proof -
  have "lf_step (c # s) f = Some (Some (s, None, lf_put (of_char c) f))"
    using assms by (simp add: lf_step_ascii plain_char_def putRune_def)
  then show ?thesis by (simp add: write_loop_go option.map_id0)
qed

lemma write_tab: "putRune 9 f = None \<Longrightarrow> write_loop (CHR 0x09 # s) f = None"
  by (simp add: write_loop_hang lf_step_ascii)

lemma write_cr: "write_loop (CHR 0x0D # s) f = write_loop s (f\<lparr>lf_col := 0, lf_afterCR := True\<rparr>)"
proof -
  have "lf_step (CHR 0x0D # s) f = Some (Some (s, None, f\<lparr>lf_col := 0, lf_afterCR := True\<rparr>))"
    by (simp add: lf_step_ascii putRune_def)
  then show ?thesis by (simp add: write_loop_go option.map_id0)
qed

lemma write_lf:
  "lf_line f \<noteq> [] \<Longrightarrow> write_loop [CHR 0x0A] f = Some ([lf_line f], lf_reset f\<lparr>lf_pending := []\<rparr>)"
proof -
  assume "lf_line f \<noteq> []"
  then have "lf_step [CHR 0x0A] f = Some (Some ([], Some (lf_line f), lf_reset f))"
    by (simp add: lf_step_ascii putRune_def lf_newline_def)
  then show ?thesis by (simp add: write_loop_go write_loop_Nil)
qed

lemma write_text:
  "list_all plain_char a \<Longrightarrow> \<not> lf_afterCR f \<Longrightarrow> lf_col f = length (lf_line f) \<Longrightarrow> length (lf_line f) + length a \<le> lineMaxCols \<Longrightarrow>
    write_loop (a @ t) f = write_loop t (f\<lparr>lf_line := lf_line f @ map of_char a, lf_col := length (lf_line f) + length a\<rparr>)"
proof (induction a arbitrary: f)
  case (Cons c a)
  then have "lf_put (of_char c) f = f\<lparr>lf_line := lf_line f @ [of_char c], lf_col := length (lf_line f) + 1\<rparr>"
    by (simp add: lf_put_def Let_def)
  then show ?case using Cons by (simp add: write_plain)
next
  case Nil
  then have "f\<lparr>lf_line := lf_line f @ map of_char [], lf_col := length (lf_line f) + length ([] :: string)\<rparr> = f" by (cases f) simp
  then show ?case by simp
qed

text \<open>A tab in the last column is the one place where \<open>write\<close> does not come back.\<close>

lemma full_line_hangs: "lf_write (replicate lineMaxCols (CHR ''a'') @ [CHR 0x09]) lf_new = None"
proof -
  let ?a = "replicate lineMaxCols (CHR ''a'')"
  let ?f = "lf_new\<lparr>lf_line := map of_char ?a, lf_col := lineMaxCols\<rparr>"
  have "list_all plain_char ?a" by (simp add: list_all_iff plain_char_def)
  then have "write_loop (?a @ [CHR 0x09]) lf_new = write_loop [CHR 0x09] ?f"
    using write_text [of ?a lf_new "[CHR 0x09]"] by (simp add: lf_new_def)
  moreover have "lf_ok ?f" by (auto simp: lf_ok_def list_all_iff printable_def)
  then have "putRune 9 ?f = None" using tab_stop [of ?f] by (cases "putRune 9 ?f") auto
  ultimately have "write_loop (?a @ [CHR 0x09]) lf_new = None" by (simp add: write_tab)
  then show ?thesis by (simp add: lf_write_def lf_new_def lineMaxCols_def lineMaxPending_def)
qed

text \<open>What follows a carriage return replaces the line; a carriage return before the newline does not.\<close>

lemma frames:
  assumes "list_all plain_char a" "list_all plain_char b" "a \<noteq> []" "b \<noteq> []" "length a \<le> lineMaxCols" "length b \<le> lineMaxCols"
  shows "lf_write (a @ CHR 0x0D # b @ [CHR 0x0A]) lf_new = Some ([map of_char b], lf_new)"
    and "lf_write (a @ [CHR 0x0D, CHR 0x0A]) lf_new = Some ([map of_char a], lf_new)"
proof -
  let ?f = "lf_new\<lparr>lf_line := map of_char a, lf_col := 0, lf_afterCR := True\<rparr>"
  have a: "write_loop (a @ CHR 0x0D # t) lf_new = write_loop t ?f" for t
    using assms write_text [of a lf_new "CHR 0x0D # t"] by (simp add: lf_new_def write_cr)
  obtain c b' where b: "b = c # b'" using assms(4) by (cases b) auto
  have "lf_put (of_char c) ?f = lf_new\<lparr>lf_line := [of_char c], lf_col := 1\<rparr>"
    by (simp add: lf_put_def lf_new_def lineMaxCols_def)
  then have "write_loop (b @ [CHR 0x0A]) ?f = write_loop [CHR 0x0A] (lf_new\<lparr>lf_line := map of_char b, lf_col := length b\<rparr>)"
    using assms write_text [of b' "lf_new\<lparr>lf_line := [of_char c], lf_col := 1\<rparr>" "[CHR 0x0A]"]
    by (simp add: b write_plain) (simp add: lf_new_def)
  then have "write_loop (b @ [CHR 0x0A]) ?f = Some ([map of_char b], lf_new)"
    using assms(4) by (simp add: write_lf lf_reset_def) (simp add: lf_new_def)
  moreover have "write_loop [CHR 0x0A] ?f = Some ([map of_char a], lf_new)"
    using assms(3) by (simp add: write_lf lf_reset_def) (simp add: lf_new_def)
  moreover have "lf_write x lf_new = write_loop x lf_new" if "x \<noteq> []" "length x \<le> lineMaxPending" for x
    using that by (simp add: lf_write_def lf_new_def)
  ultimately show "lf_write (a @ CHR 0x0D # b @ [CHR 0x0A]) lf_new = Some ([map of_char b], lf_new)"
    "lf_write (a @ [CHR 0x0D, CHR 0x0A]) lf_new = Some ([map of_char a], lf_new)"
    using assms(5,6) a [of "b @ [CHR 0x0A]"] a [of "[CHR 0x0A]"] by (simp_all add: lineMaxCols_def lineMaxPending_def)
qed

end
