(* ===== verification/LineWriter.thy ===== *)
theory LineWriter
  imports LineFilter "HOL-Library.Word"
begin

text \<open>
  The line writers of the task group (\<open>x/taskgroup/linewriter.go\<close>, \<open>lines.go\<close>): a writer per subprocess
  with a line filter, a hub with the row each writer shows in the progress display, and the log writer.
  A writer is a number, its place in the table of all writers; a row is a list of runes, as in
  \<open>LineFilter\<close>. What the callback \<open>print\<close> gets is recorded in the order of the calls.
\<close>

section \<open>Log lines\<close>

fun IndexByte :: "string \<Rightarrow> char \<Rightarrow> nat option" where
  "IndexByte [] c = None"
| "IndexByte (x # s) c = (if x = c then Some 0 else map_option Suc (IndexByte s c))"

lemma IndexByte_less: "IndexByte s c = Some i \<Longrightarrow> i < length s"
  by (induction s arbitrary: i) (auto split: if_splits)

function take_loop :: "string \<Rightarrow> string list \<times> string" where
  "take_loop pend =
     (case IndexByte pend (CHR 0x0A) of
        None \<Rightarrow> ([], pend)
      | Some i \<Rightarrow> (let (ls, r) = take_loop (drop (i + 1) pend) in (trim_suffix (take i pend) [CHR 0x0D] # ls, r)))"
  by pat_completeness auto

termination
  by (relation "measure length") (auto dest: IndexByte_less)

declare take_loop.simps [simp del]

definition TakeLines :: "string \<Rightarrow> string \<Rightarrow> string list \<times> string" where
  "TakeLines p pend = take_loop (pend @ p)"

text \<open>The two writers of log lines: \<open>logWriter\<close> of the session and \<open>linePrinter\<close> of the display.\<close>

datatype log_out = LogLine nat string | RawTo nat string

definition logWriter_Write :: "nat \<Rightarrow> nat option \<Rightarrow> string \<Rightarrow> string \<Rightarrow> log_out list \<times> string" where
  "logWriter_Write stderr pr p buf =
     (case pr of
        None \<Rightarrow> ([RawTo stderr p], buf)
      | Some k \<Rightarrow> (let (ls, r) = TakeLines p buf in (map (LogLine k) ls, r)))"

definition linePrinter_Write :: "nat option \<Rightarrow> string \<Rightarrow> string \<Rightarrow> log_out list \<times> string" where
  "linePrinter_Write pr p buf =
     (case pr of None \<Rightarrow> ([], buf) | Some k \<Rightarrow> (let (ls, r) = TakeLines p buf in (map (LogLine k) ls, r)))"

definition linePrinter_close :: "nat option \<times> string" where
  "linePrinter_close = (None, [])"

section \<open>The hub\<close>

record liveHub =
  lh_seq :: "64 word"
  lh_order :: "string list"
  lh_slots :: "string \<rightharpoonup> nat list"
  lh_writers :: "string \<rightharpoonup> nat"

definition newLiveHub :: liveHub where
  "newLiveHub = \<lparr>lh_seq = 0, lh_order = [], lh_slots = Map.empty, lh_writers = Map.empty\<rparr>"

definition hub_snapshot :: "liveHub \<Rightarrow> nat list list" where
  "hub_snapshot h = concat (map (\<lambda>x. case lh_slots h x of Some t \<Rightarrow> if t \<noteq> [] then [t] else [] | None \<Rightarrow> []) (lh_order h))"

definition dropLocked :: "string \<Rightarrow> liveHub \<Rightarrow> liveHub" where
  "dropLocked x h = (if lh_slots h x = None then h else h\<lparr>lh_slots := (lh_slots h)(x := None), lh_order := remove1 x (lh_order h)\<rparr>)"

definition hub_set :: "string \<Rightarrow> nat list \<Rightarrow> liveHub \<Rightarrow> liveHub" where
  "hub_set x t h =
     (if t = [] then dropLocked x h
      else
        (let h = (if lh_slots h x = None then h\<lparr>lh_order := lh_order h @ [x]\<rparr> else h)
         in h\<lparr>lh_slots := (lh_slots h)(x \<mapsto> t)\<rparr>))"

definition hub_drop :: "string \<Rightarrow> liveHub \<Rightarrow> liveHub" where
  "hub_drop x h = dropLocked x h"

definition register :: "string \<Rightarrow> nat \<Rightarrow> liveHub \<Rightarrow> liveHub" where
  "register x i h = h\<lparr>lh_writers := (lh_writers h)(x \<mapsto> i)\<rparr>"

section \<open>Writers\<close>

datatype sink = PrintFn nat | LinesTo nat

datatype io_error = ErrClosedPipe | ErrEOF | ErrRead nat

record lineWriter =
  lw_id :: string
  lw_hub :: bool
  lw_print :: "sink option"
  lw_commitOnClose :: bool
  lw_once :: bool
  lw_filter :: lineFilter
  lw_closed :: bool

record lw_sys =
  sys_hub :: liveHub
  sys_print :: "nat option"
  sys_ws :: "lineWriter list"
  sys_out :: "(sink \<times> nat list) list"

function FormatUint :: "nat \<Rightarrow> string" where
  "FormatUint n = (if n < 10 then [char_of (48 + n)] else FormatUint (n div 10) @ [char_of (48 + n mod 10)])"
  by pat_completeness auto

termination
  by (relation "measure id") auto

declare FormatUint.simps [simp del]

definition newLineWriter :: "sink \<Rightarrow> lw_sys \<Rightarrow> nat \<times> lw_sys" where
  "newLineWriter pr s =
     (let n = lh_seq (sys_hub s) + 1;
          w = \<lparr>lw_id = ''live-'' @ FormatUint (unat n), lw_hub = True, lw_print = Some pr, lw_commitOnClose = True,
               lw_once = False, lw_filter = lf_new, lw_closed = False\<rparr>
      in (length (sys_ws s), s\<lparr>sys_hub := (sys_hub s)\<lparr>lh_seq := n\<rparr>, sys_ws := sys_ws s @ [w]\<rparr>))"

definition newFinishedLineWriter :: "nat \<Rightarrow> lw_sys \<Rightarrow> nat \<times> lw_sys" where
  "newFinishedLineWriter out s =
     (let w = \<lparr>lw_id = [], lw_hub = False, lw_print = Some (LinesTo out), lw_commitOnClose = False,
               lw_once = False, lw_filter = lf_new, lw_closed = False\<rparr>
      in (length (sys_ws s), s\<lparr>sys_ws := sys_ws s @ [w]\<rparr>))"

text \<open>\<open>fire\<close> is the callback of \<open>SetOnSchedule\<close>, which may start the display; \<open>stderr\<close> names the error stream.\<close>

definition SetLinePrint :: "nat option \<Rightarrow> lw_sys \<Rightarrow> lw_sys" where
  "SetLinePrint pr s = s\<lparr>sys_print := pr\<rparr>"

definition Session_LineWriter :: "(lw_sys \<Rightarrow> lw_sys) \<Rightarrow> nat \<Rightarrow> lw_sys \<Rightarrow> nat \<times> lw_sys" where
  "Session_LineWriter fire stderr s =
     (let s = fire s in
      case sys_print s of
        None \<Rightarrow> newFinishedLineWriter stderr s
      | Some pr \<Rightarrow> newLineWriter (PrintFn pr) s)"

definition attach :: "nat \<Rightarrow> lw_sys \<Rightarrow> lw_sys" where
  "attach i s =
     (let w = sys_ws s ! i in
      if \<not> lw_hub w \<or> lw_once w then s
      else s\<lparr>sys_ws := (sys_ws s)[i := w\<lparr>lw_once := True\<rparr>], sys_hub := register (lw_id w) i (sys_hub s)\<rparr>)"

text \<open>
  What a writer does outside its lock: a call of \<open>print\<close>, and the two updates of the hub under the lock
  of the hub.
\<close>

datatype lw_act = Emit sink "nat list" | SetRow string "nat list" | DropRow string

fun do_act :: "lw_act \<Rightarrow> lw_sys \<Rightarrow> lw_sys" where
  "do_act (Emit pr t) s = s\<lparr>sys_out := sys_out s @ [(pr, t)]\<rparr>"
| "do_act (SetRow x t) s = s\<lparr>sys_hub := hub_set x t (sys_hub s)\<rparr>"
| "do_act (DropRow x) s = s\<lparr>sys_hub := hub_drop x (sys_hub s)\<rparr>"

definition write_locked :: "nat \<Rightarrow> string \<Rightarrow> lw_sys \<Rightarrow> ((nat \<times> io_error option) \<times> lw_act list \<times> lw_sys) option" where
  "write_locked i p s =
     (let w = sys_ws s ! i in
      if lw_closed w then Some ((0, Some ErrClosedPipe), [], s)
      else
        (case lf_write p (lw_filter w) of
           None \<Rightarrow> None
         | Some (committed, f) \<Rightarrow>
             Some ((length p, None),
               (case lw_print w of None \<Rightarrow> [] | Some pr \<Rightarrow> map (Emit pr) committed) @
               (if lw_hub w then [SetRow (lw_id w) (lf_line f)] else []),
               s\<lparr>sys_ws := (sys_ws s)[i := w\<lparr>lw_filter := f\<rparr>]\<rparr>)))"

definition Write :: "nat \<Rightarrow> string \<Rightarrow> lw_sys \<Rightarrow> ((nat \<times> io_error option) \<times> lw_sys) option" where
  "Write i p s = map_option (\<lambda>(r, acts, s'). (r, fold do_act acts s')) (write_locked i p (attach i s))"

definition close_locked :: "nat \<Rightarrow> lw_sys \<Rightarrow> lw_act list \<times> lw_sys" where
  "close_locked i s =
     (let w = sys_ws s ! i in
      if lw_closed w then ([], s)
      else
        (let (t, f) = lf_take (lw_filter w) in
         ((if lw_hub w then [DropRow (lw_id w)] else []) @
          (case lw_print w of Some pr \<Rightarrow> if lw_commitOnClose w \<and> t \<noteq> [] then [Emit pr t] else [] | None \<Rightarrow> []),
          s\<lparr>sys_ws := (sys_ws s)[i := w\<lparr>lw_closed := True, lw_filter := f\<rparr>]\<rparr>)))"

definition Close :: "nat \<Rightarrow> lw_sys \<Rightarrow> io_error option \<times> lw_sys" where
  "Close i s = (let (acts, s') = close_locked i s in (None, fold do_act acts s'))"

text \<open>
  The reader of \<open>ReadFrom\<close> is what its reads return: bytes, with an error at the end. With no error it
  never returns.
\<close>

fun ReadFrom :: "nat \<Rightarrow> (string \<times> io_error option) list \<Rightarrow> nat \<Rightarrow> lw_sys \<Rightarrow> ((nat \<times> io_error option) \<times> lw_sys) option" where
  "ReadFrom i [] n s = None"
| "ReadFrom i ((buf, err) # rs) n s =
     (case (if buf \<noteq> [] then Write i buf s else Some ((0, None), s)) of
        None \<Rightarrow> None
      | Some ((nw, Some werr), s1) \<Rightarrow> Some ((n + nw, Some werr), snd (Close i s1))
      | Some ((nw, None), s1) \<Rightarrow>
          (case err of
             None \<Rightarrow> ReadFrom i rs (n + nw) s1
           | Some e \<Rightarrow>
               (let (cErr, s2) = Close i s1 in
                if e = ErrEOF then Some ((n + nw, cErr), s2)
                else if cErr \<noteq> None then Some ((n + nw, cErr), s2)
                else Some ((n + nw, Some e), s2))))"

definition abandon :: "nat \<Rightarrow> lw_sys \<Rightarrow> nat list \<times> lw_sys" where
  "abandon i s =
     (let w = sys_ws s ! i in
      if lw_closed w then ([], s)
      else
        (let (t, f) = lf_take (lw_filter w) in
         (t, s\<lparr>sys_ws := (sys_ws s)[i := w\<lparr>lw_closed := True, lw_print := None, lw_filter := f\<rparr>]\<rparr>)))"

text \<open>Go ranges over the writers of the hub in an order of its own: \<open>its\<close> is that order.\<close>

definition hub_take :: "string list \<Rightarrow> lw_sys \<Rightarrow> nat list \<times> lw_sys" where
  "hub_take its s =
     (map (\<lambda>x. the (lh_writers (sys_hub s) x)) its,
      s\<lparr>sys_hub := (sys_hub s)\<lparr>lh_writers := Map.empty, lh_slots := Map.empty, lh_order := []\<rparr>\<rparr>)"

fun abandon_loop :: "nat list \<Rightarrow> lw_sys \<Rightarrow> nat list list \<times> lw_sys" where
  "abandon_loop [] s = ([], s)"
| "abandon_loop (i # ws) s =
     (let (t, s1) = abandon i s; (ts, s2) = abandon_loop ws s1 in (if t \<noteq> [] then t # ts else ts, s2))"

definition abandonAll :: "string list \<Rightarrow> lw_sys \<Rightarrow> nat list list \<times> lw_sys" where
  "abandonAll its s = (let (ws, s1) = hub_take its s in abandon_loop ws s1)"

definition LiveLines :: "lw_sys \<Rightarrow> nat list list" where
  "LiveLines s = hub_snapshot (sys_hub s)"

definition TakeLiveLines :: "string list \<Rightarrow> lw_sys \<Rightarrow> nat list list \<times> lw_sys" where
  "TakeLiveLines its s = abandonAll its s"

text \<open>The display leaves when it was told to, no task is shown and no row is live (\<open>progress/view.go\<close>).\<close>

definition shouldQuit :: "bool \<Rightarrow> 'n list \<Rightarrow> nat list list \<Rightarrow> bool" where
  "shouldQuit finished nodes rows \<longleftrightarrow> finished \<and> nodes = [] \<and> rows = []"

section \<open>Log lines are the lines of the stream\<close>

definition trim_cr :: "string \<Rightarrow> string" where
  "trim_cr s = trim_suffix s [CHR 0x0D]"

lemma IndexByte_None: "IndexByte s c = None \<longleftrightarrow> c \<notin> set s"
  by (induction s) auto

lemma IndexByte_Some: "IndexByte s c = Some i \<Longrightarrow> s = take i s @ c # drop (Suc i) s \<and> c \<notin> set (take i s)"
  by (induction s arbitrary: i) (auto split: if_splits)

lemma take_loop_plain: "CHR 0x0A \<notin> set s \<Longrightarrow> take_loop s = ([], s)"
  by (simp add: take_loop.simps [of s] IndexByte_None [THEN iffD2])

lemma IndexByte_first: "c \<notin> set a \<Longrightarrow> IndexByte (a @ c # b) c = Some (length a)"
  by (induction a) auto

lemma take_loop_line:
  "CHR 0x0A \<notin> set a \<Longrightarrow> take_loop (a @ CHR 0x0A # b) = (trim_cr a # fst (take_loop b), snd (take_loop b))"
  by (simp add: take_loop.simps [of "a @ CHR 0x0A # b"] IndexByte_first trim_cr_def split: prod.splits)

lemma take_loop_split: "take_loop s = (map trim_cr (butlast (split_on (CHR 0x0A) s)), last (split_on (CHR 0x0A) s))"
proof (induction s rule: length_induct)
  case (1 s)
  show ?case
  proof (cases "CHR 0x0A \<in> set s")
    case True
    then obtain a b where s: "s = a @ CHR 0x0A # b" "CHR 0x0A \<notin> set a" using split_list_first by metis
    then have "take_loop b = (map trim_cr (butlast (split_on (CHR 0x0A) b)), last (split_on (CHR 0x0A) b))" using 1 by simp
    then show ?thesis using s by (simp add: take_loop_line split_on_append split_on_plain butlast_append)
  qed (simp add: take_loop_plain split_on_plain)
qed

lemma take_loop_append:
  "take_loop (s @ t) = (fst (take_loop s) @ fst (take_loop (snd (take_loop s) @ t)), snd (take_loop (snd (take_loop s) @ t)))"
proof (induction s rule: length_induct)
  case (1 s)
  show ?case
  proof (cases "CHR 0x0A \<in> set s")
    case True
    then obtain a b where s: "s = a @ CHR 0x0A # b" "CHR 0x0A \<notin> set a" using split_list_first by metis
    then have "take_loop (b @ t) = (fst (take_loop b) @ fst (take_loop (snd (take_loop b) @ t)), snd (take_loop (snd (take_loop b) @ t)))"
      using 1 by simp
    then show ?thesis using s by (simp add: take_loop_line)
  qed (simp add: take_loop_plain)
qed

lemma take_loop_rest: "CHR 0x0A \<notin> set (snd (take_loop s))"
  using split_on_elems [OF last_in_set [OF split_on_nonempty]] by (simp add: take_loop_split)

definition take_write :: "string \<Rightarrow> string \<Rightarrow> (string list \<times> string) option" where
  "take_write p pend = Some (TakeLines p pend)"

interpretation log_lines: chunked take_write take_write "\<lambda>n s. True" "\<lambda>s. CHR 0x0A \<notin> set s"
proof
  fix p q pend c g
  assume ok: "CHR 0x0A \<notin> set pend"
  show "take_write [] pend = Some ([], pend)" using ok by (simp add: take_write_def TakeLines_def take_loop_plain)
  show "take_write (p @ q) pend =
      Option.bind (take_write p pend) (\<lambda>(c, g). map_option (\<lambda>(d, h). (c @ d, h)) (take_write q g))"
    using take_loop_append [of "pend @ p" q] by (simp add: take_write_def TakeLines_def case_prod_unfold)
  show "take_write p pend = Some (c, g) \<Longrightarrow> CHR 0x0A \<notin> set g"
    using take_loop_rest [of "pend @ p"] by (simp add: take_write_def TakeLines_def)
qed simp

section \<open>Names of writers\<close>

lemma FormatUint_value: "dec_value (FormatUint n) = int n"
proof (induction n rule: FormatUint.induct)
  case (1 n)
  have "of_char (char_of (48 + k) :: char) = (48 + k :: nat)" if "k < 10" for k :: nat using that by simp
  moreover have "int (n div 10) * 10 + int (n mod 10) = int n" using div_mult_mod_eq [of n 10] by linarith
  ultimately show ?case using 1 by (simp add: FormatUint.simps [of n] dec_value_def)
qed

lemma FormatUint_inj: "FormatUint m = FormatUint n \<longleftrightarrow> m = n"
  using FormatUint_value by (metis of_nat_eq_iff)

section \<open>Calls that interleave\<close>

text \<open>
  A call is the list of what it still has to do; each entry is one critical section or one call of
  \<open>print\<close>. A step of the machine is one entry of one call, in any order; the order Go ranges over a map
  is part of the step.
\<close>

datatype lw_task = Attach nat | WriteLocked nat string | CloseLocked nat | Act lw_act | HubTake | Abandon nat

fun task_step :: "string list \<Rightarrow> lw_task \<Rightarrow> lw_sys \<Rightarrow> (lw_task list \<times> lw_sys) option" where
  "task_step its (Attach i) s = Some ([], attach i s)"
| "task_step its (WriteLocked i p) s = map_option (\<lambda>(r, acts, s'). (map Act acts, s')) (write_locked i p s)"
| "task_step its (CloseLocked i) s = Some (apfst (map Act) (close_locked i s))"
| "task_step its (Act a) s = Some ([], do_act a s)"
| "task_step its HubTake s = Some (apfst (map Abandon) (hub_take its s))"
| "task_step its (Abandon i) s = Some ([], snd (abandon i s))"

definition iteration :: "string list \<Rightarrow> lw_sys \<Rightarrow> bool" where
  "iteration its s \<longleftrightarrow> distinct its \<and> set its = dom (lh_writers (sys_hub s))"

definition lw_init :: lw_sys where
  "lw_init = \<lparr>sys_hub = newLiveHub, sys_print = None, sys_ws = [], sys_out = []\<rparr>"

inductive lw_step :: "lw_sys \<times> lw_task list list \<Rightarrow> lw_sys \<times> lw_task list list \<Rightarrow> bool" where
  new: "lw_step (s, ts) (snd (newLineWriter pr s), ts)"
| finished: "lw_step (s, ts) (snd (newFinishedLineWriter out s), ts)"
| print: "lw_step (s, ts) (SetLinePrint pr s, ts)"
| call_write: "i < length (sys_ws s) \<Longrightarrow> lw_step (s, ts) (s, ts @ [[Attach i, WriteLocked i p]])"
| call_close: "i < length (sys_ws s) \<Longrightarrow> lw_step (s, ts) (s, ts @ [[CloseLocked i]])"
| call_take: "lw_step (s, ts) (s, ts @ [[HubTake]])"
| run: "k < length ts \<Longrightarrow> ts ! k = t # rest \<Longrightarrow> (t = HubTake \<longrightarrow> iteration its s) \<Longrightarrow> task_step its t s = Some (todo, s') \<Longrightarrow>
    lw_step (s, ts) (s', ts[k := todo @ rest])"

text \<open>A row, the hub, a call and the system are well formed.\<close>

definition row_ok :: "nat list \<Rightarrow> bool" where
  "row_ok t \<longleftrightarrow> t \<noteq> [] \<and> length t \<le> lineMaxCols \<and> list_all printable t"

definition hub_ok :: "liveHub \<Rightarrow> bool" where
  "hub_ok h \<longleftrightarrow> distinct (lh_order h) \<and> set (lh_order h) = dom (lh_slots h) \<and> (\<forall>x t. lh_slots h x = Some t \<longrightarrow> row_ok t)"

fun act_ok :: "lw_act \<Rightarrow> bool" where
  "act_ok (Emit pr t) = row_ok t"
| "act_ok (SetRow x t) = (t = [] \<or> row_ok t)"
| "act_ok (DropRow x) = True"

fun entry_ok :: "nat \<Rightarrow> lw_task \<Rightarrow> bool" where
  "entry_ok n (Attach i) = (i < n)"
| "entry_ok n (WriteLocked i p) = (i < n)"
| "entry_ok n (CloseLocked i) = (i < n)"
| "entry_ok n (Act a) = act_ok a"
| "entry_ok n HubTake = True"
| "entry_ok n (Abandon i) = (i < n)"

definition writer_ok :: "lineWriter \<Rightarrow> bool" where
  "writer_ok w \<longleftrightarrow> lf_ok (lw_filter w) \<and> length (lf_pending (lw_filter w)) \<le> lineMaxPending"

definition sys_ok :: "lw_sys \<Rightarrow> bool" where
  "sys_ok s \<longleftrightarrow> hub_ok (sys_hub s) \<and> list_all writer_ok (sys_ws s) \<and> list_all (\<lambda>(pr, t). row_ok t) (sys_out s) \<and>
     (\<forall>x i. lh_writers (sys_hub s) x = Some i \<longrightarrow> i < length (sys_ws s))"

lemma hub_drop_ok: "hub_ok h \<Longrightarrow> hub_ok (dropLocked x h)"
  by (auto simp: hub_ok_def dropLocked_def)

lemma hub_set_ok: "hub_ok h \<Longrightarrow> t = [] \<or> row_ok t \<Longrightarrow> hub_ok (hub_set x t h)"
  using hub_drop_ok [of h x] by (auto simp: hub_set_def Let_def hub_ok_def domI)

lemma do_act_ok:
  assumes "sys_ok s" and "act_ok a"
  shows "sys_ok (do_act a s) \<and> length (sys_ws (do_act a s)) = length (sys_ws s)"
  using assms hub_set_ok hub_drop_ok
  by (cases a) (auto simp: sys_ok_def hub_drop_def hub_set_def dropLocked_def Let_def)

lemma row_of_filter: "lf_ok f \<Longrightarrow> lf_line f = [] \<or> row_ok (lf_line f)"
  by (simp add: lf_ok_def row_ok_def)

lemma sys_ok_update:
  assumes "sys_ok s" and "writer_ok w"
  shows "sys_ok (s\<lparr>sys_ws := (sys_ws s)[i := w]\<rparr>)"
  using assms by (auto simp: sys_ok_def list_all_iff dest!: set_update_subset_insert [THEN subsetD])

lemma sys_ok_writer: "sys_ok s \<Longrightarrow> i < length (sys_ws s) \<Longrightarrow> writer_ok (sys_ws s ! i)"
  by (simp add: sys_ok_def list_all_length)

lemma attach_ok:
  assumes "sys_ok s" "i < length (sys_ws s)"
  shows "sys_ok (attach i s) \<and> length (sys_ws (attach i s)) = length (sys_ws s)"
proof -
  have "writer_ok ((sys_ws s ! i)\<lparr>lw_once := True\<rparr>)" using sys_ok_writer [OF assms] by (simp add: writer_ok_def)
  from sys_ok_update [OF assms(1) this, of i] show ?thesis
    using assms by (auto simp: attach_def Let_def register_def sys_ok_def hub_ok_def)
qed

lemma lf_take_ok: "writer_ok w \<Longrightarrow> lf_take (lw_filter w) = (t, f) \<Longrightarrow> writer_ok (w\<lparr>lw_filter := f\<rparr>) \<and> (t = [] \<or> row_ok t)"
  by (auto simp: writer_ok_def lf_take_def lf_reset_def lf_ok_def row_ok_def)

lemma write_locked_ok:
  assumes "sys_ok s" "i < length (sys_ws s)" "write_locked i p s = Some (r, acts, s')"
  shows "sys_ok s' \<and> length (sys_ws s') = length (sys_ws s) \<and> list_all act_ok acts"
proof (cases "lw_closed (sys_ws s ! i)")
  case False
  let ?w = "sys_ws s ! i"
  obtain c f where f: "lf_write p (lw_filter ?w) = Some (c, f)"
    and e: "acts = (case lw_print ?w of None \<Rightarrow> [] | Some pr \<Rightarrow> map (Emit pr) c) @ (if lw_hub ?w then [SetRow (lw_id ?w) (lf_line f)] else [])"
      "s' = s\<lparr>sys_ws := (sys_ws s)[i := ?w\<lparr>lw_filter := f\<rparr>]\<rparr>"
    using assms(3) False by (auto simp: write_locked_def Let_def split: option.splits)
  have w: "lf_ok (lw_filter ?w)" "length (lf_pending (lw_filter ?w)) \<le> lineMaxPending"
    using sys_ok_writer [OF assms(1,2)] by (simp_all add: writer_ok_def)
  note f = lf_write_ok [OF f w]
  have "writer_ok (?w\<lparr>lw_filter := f\<rparr>)" using f(1,2) by (simp add: writer_ok_def)
  then show ?thesis using sys_ok_update [OF assms(1)] f(3) row_of_filter [OF f(1)] e
    by (auto simp: list_all_iff row_ok_def split: option.splits)
qed (use assms in \<open>simp add: write_locked_def Let_def\<close>)

lemma close_locked_ok:
  assumes "sys_ok s" "i < length (sys_ws s)" "close_locked i s = (acts, s')"
  shows "sys_ok s' \<and> length (sys_ws s') = length (sys_ws s) \<and> list_all act_ok acts"
proof -
  obtain t f where t: "lf_take (lw_filter (sys_ws s ! i)) = (t, f)" by fastforce
  note w = lf_take_ok [OF sys_ok_writer [OF assms(1,2)] t]
  then have "writer_ok ((sys_ws s ! i)\<lparr>lw_closed := True, lw_filter := f\<rparr>)" by (simp add: writer_ok_def)
  then show ?thesis using assms sys_ok_update [OF assms(1)] w t
    by (auto simp: close_locked_def Let_def split: if_splits option.splits)
qed

lemma abandon_ok:
  assumes "sys_ok s" "i < length (sys_ws s)" "abandon i s = (t, s')"
  shows "sys_ok s' \<and> length (sys_ws s') = length (sys_ws s) \<and> (t = [] \<or> row_ok t)"
proof -
  obtain u f where t: "lf_take (lw_filter (sys_ws s ! i)) = (u, f)" by fastforce
  note w = lf_take_ok [OF sys_ok_writer [OF assms(1,2)] t]
  then have "writer_ok ((sys_ws s ! i)\<lparr>lw_closed := True, lw_print := None, lw_filter := f\<rparr>)" by (simp add: writer_ok_def)
  then show ?thesis using assms sys_ok_update [OF assms(1)] w t
    by (auto simp: abandon_def Let_def split: if_splits)
qed

lemma hub_take_ok:
  assumes "sys_ok s" "iteration its s" "hub_take its s = (ws, s')"
  shows "sys_ok s' \<and> sys_ws s' = sys_ws s \<and> (\<forall>i \<in> set ws. i < length (sys_ws s))"
  using assms by (auto simp: hub_take_def sys_ok_def hub_ok_def iteration_def dom_def)

lemma task_step_ok:
  assumes "sys_ok s" "t = HubTake \<longrightarrow> iteration its s" "entry_ok (length (sys_ws s)) t" "task_step its t s = Some (todo, s')"
  shows "sys_ok s' \<and> length (sys_ws s') = length (sys_ws s) \<and> list_all (entry_ok (length (sys_ws s'))) todo"
proof (cases t)
  case (WriteLocked i p)
  then show ?thesis using assms write_locked_ok [OF assms(1), of i p] by (fastforce simp: list_all_iff)
next
  case (CloseLocked i)
  then show ?thesis using assms close_locked_ok [OF assms(1), of i] by (cases "close_locked i s") (fastforce simp: list_all_iff)
next
  case (Act a)
  then show ?thesis using assms do_act_ok [OF assms(1), of a] by auto
next
  case HubTake
  then show ?thesis using assms hub_take_ok [OF assms(1), of its] by (cases "hub_take its s") (fastforce simp: list_all_iff)
next
  case (Abandon i)
  then show ?thesis using assms abandon_ok [OF assms(1), of i] by (cases "abandon i s") fastforce
qed (use assms attach_ok in auto)

definition machine_ok :: "lw_sys \<times> lw_task list list \<Rightarrow> bool" where
  "machine_ok m \<longleftrightarrow> sys_ok (fst m) \<and> list_all (list_all (entry_ok (length (sys_ws (fst m))))) (snd m)"

lemma lw_init_ok: "machine_ok (lw_init, [])"
  by (simp add: machine_ok_def lw_init_def sys_ok_def hub_ok_def newLiveHub_def)

lemma entry_ok_Suc: "entry_ok n t \<Longrightarrow> entry_ok (Suc n) t"
  by (cases t) auto

lemma lf_new_writer: "lf_ok lf_new" "lf_pending lf_new = []"
  by (simp_all add: lf_new_ok) (simp add: lf_new_def)

lemma new_ok:
  assumes "sys_ok s" and "s' = snd (newLineWriter pr s) \<or> s' = snd (newFinishedLineWriter out s)"
  shows "sys_ok s' \<and> length (sys_ws s') = length (sys_ws s) + 1"
  using assms by (fastforce simp: newLineWriter_def newFinishedLineWriter_def Let_def sys_ok_def hub_ok_def writer_ok_def lf_new_writer)

lemma lw_step_ok: "lw_step m m' \<Longrightarrow> machine_ok m \<Longrightarrow> machine_ok m'"
proof (induction rule: lw_step.induct)
  case (run k ts t rest its s todo s')
  let ?n = "length (sys_ws s)"
  have all: "list_all (entry_ok ?n) (ts ! k)" using run by (auto simp: machine_ok_def list_all_length)
  then have t: "entry_ok ?n t" "list_all (entry_ok ?n) rest" using run by auto
  have s: "sys_ok s" using run by (simp add: machine_ok_def)
  note r = task_step_ok [OF s run(3) t(1) run(4)]
  then show ?case using run t by (auto simp: machine_ok_def list_all_iff dest!: set_update_subset_insert [THEN subsetD])
next
  case (new s ts pr)
  then show ?case using new_ok [of s "snd (newLineWriter pr s)" pr] by (auto simp: machine_ok_def list_all_iff intro: entry_ok_Suc)
next
  case (finished s ts out)
  then show ?case using new_ok [of s "snd (newFinishedLineWriter out s)" _ out] by (auto simp: machine_ok_def list_all_iff intro: entry_ok_Suc)
qed (auto simp: machine_ok_def list_all_iff sys_ok_def SetLinePrint_def)

definition lw_reach :: "lw_sys \<times> lw_task list list \<Rightarrow> bool" where
  "lw_reach m \<longleftrightarrow> lw_step\<^sup>*\<^sup>* (lw_init, []) m"

lemma lw_reach_ok: "lw_reach m \<Longrightarrow> machine_ok m"
  unfolding lw_reach_def by (induction rule: rtranclp_induct) (auto simp: lw_init_ok lw_step_ok)

lemma hub_snapshot_rows:
  assumes "hub_ok h"
  shows "hub_snapshot h = map (\<lambda>x. the (lh_slots h x)) (lh_order h)" and "r \<in> set (hub_snapshot h) \<Longrightarrow> row_ok r"
proof -
  have "\<exists>t. lh_slots h x = Some t \<and> row_ok t" if "x \<in> set (lh_order h)" for x using assms that by (auto simp: hub_ok_def)
  then have "concat (map (\<lambda>x. case lh_slots h x of Some t \<Rightarrow> if t \<noteq> [] then [t] else [] | None \<Rightarrow> []) xs) = map (\<lambda>x. the (lh_slots h x)) xs"
    if "set xs \<subseteq> set (lh_order h)" for xs
    using that by (induction xs) (fastforce simp: row_ok_def)+
  then show m: "hub_snapshot h = map (\<lambda>x. the (lh_slots h x)) (lh_order h)" by (simp add: hub_snapshot_def)
  show "r \<in> set (hub_snapshot h) \<Longrightarrow> row_ok r" using assms unfolding m by (auto simp: hub_ok_def)
qed

end
