(* ===== verification/LineWriterLive.thy ===== *)
theory LineWriterLive
  imports LineWriter "HOL-Library.Multiset"
begin

text \<open>
  What the display shows of the line writers. Writers keep their names, and the names are different for
  fewer than \<open>2 ^ 64\<close> writers. When calls do not overlap, the rows are the lines of the open writers; when
  they do, a row can stay behind.
\<close>

section \<open>Names\<close>

definition same_writers :: "lw_sys \<Rightarrow> lw_sys \<Rightarrow> bool" where
  "same_writers s s' \<longleftrightarrow> length (sys_ws s') = length (sys_ws s) \<and> lh_seq (sys_hub s') = lh_seq (sys_hub s) \<and>
     (\<forall>i < length (sys_ws s). lw_id (sys_ws s' ! i) = lw_id (sys_ws s ! i) \<and> lw_hub (sys_ws s' ! i) = lw_hub (sys_ws s ! i) \<and>
        (lw_closed (sys_ws s ! i) \<longrightarrow> lw_closed (sys_ws s' ! i)))"

definition ids_ok :: "lw_sys \<Rightarrow> bool" where
  "ids_ok s \<longleftrightarrow> unat (lh_seq (sys_hub s)) \<le> length (sys_ws s) \<and>
     (\<forall>i < length (sys_ws s). lw_hub (sys_ws s ! i) \<longrightarrow>
        (\<exists>k \<le> unat (lh_seq (sys_hub s)). lw_id (sys_ws s ! i) = ''live-'' @ FormatUint k)) \<and>
     (\<forall>i < length (sys_ws s). \<forall>j < length (sys_ws s). lw_hub (sys_ws s ! i) \<longrightarrow> lw_hub (sys_ws s ! j) \<longrightarrow>
        lw_id (sys_ws s ! i) = lw_id (sys_ws s ! j) \<longrightarrow> i = j) \<and>
     (\<forall>x i. lh_writers (sys_hub s) x = Some i \<longrightarrow> i < length (sys_ws s) \<and> lw_hub (sys_ws s ! i) \<and> lw_id (sys_ws s ! i) = x)"

lemma ids_inj:
  "ids_ok s \<Longrightarrow> i < length (sys_ws s) \<Longrightarrow> j < length (sys_ws s) \<Longrightarrow> lw_hub (sys_ws s ! i) \<Longrightarrow> lw_hub (sys_ws s ! j) \<Longrightarrow>
    lw_id (sys_ws s ! i) = lw_id (sys_ws s ! j) \<longleftrightarrow> i = j"
  unfolding ids_ok_def by blast

lemma ids_ok_same:
  assumes "ids_ok s" and "same_writers s s'"
    and "\<And>x i. lh_writers (sys_hub s') x = Some i \<Longrightarrow> lh_writers (sys_hub s) x = Some i \<or>
      i < length (sys_ws s) \<and> lw_hub (sys_ws s ! i) \<and> lw_id (sys_ws s ! i) = x"
  shows "ids_ok s'"
proof -
  have "i < length (sys_ws s) \<and> lw_hub (sys_ws s ! i) \<and> lw_id (sys_ws s ! i) = x" if "lh_writers (sys_hub s') x = Some i" for x i
    using assms(1) assms(3) [OF that] unfolding ids_ok_def by blast
  then show ?thesis using assms(1,2) unfolding ids_ok_def same_writers_def by auto
qed

lemma slots_drop [simp]: "lh_slots (dropLocked x h) = (lh_slots h)(x := None)"
  by (auto simp: dropLocked_def)

lemma slots_set [simp]: "lh_slots (hub_set x t h) = (lh_slots h)(x := (if t = [] then None else Some t))"
  by (auto simp: hub_set_def Let_def)

lemma hub_rest [simp]:
  "lh_writers (dropLocked x h) = lh_writers h" "lh_seq (dropLocked x h) = lh_seq h"
  "lh_writers (hub_set x t h) = lh_writers h" "lh_seq (hub_set x t h) = lh_seq h"
  by (simp_all add: dropLocked_def hub_set_def Let_def)

lemma do_act_rest [simp]:
  "sys_ws (do_act a s) = sys_ws s" "lh_writers (sys_hub (do_act a s)) = lh_writers (sys_hub s)"
  "lh_seq (sys_hub (do_act a s)) = lh_seq (sys_hub s)"
  by (cases a; simp add: hub_drop_def)+

lemma same_writers_refl [simp]: "same_writers s s"
  by (simp add: same_writers_def)

lemma upd_nth: "j < length xs \<Longrightarrow> xs[i := x] ! j = (if i = j then x else xs ! j)"
  by (cases "i = j") auto

lemma attach_same: "same_writers s (attach i s)"
  by (cases "lw_hub (sys_ws s ! i) \<and> \<not> lw_once (sys_ws s ! i)")
    (auto simp: attach_def Let_def register_def same_writers_def upd_nth)

lemma write_locked_same:
  assumes "write_locked i p s = Some (r, acts, s')"
  shows "same_writers s s'" and "sys_hub s' = sys_hub s"
proof -
  show "sys_hub s' = sys_hub s" using assms by (auto simp: write_locked_def Let_def split: if_splits option.splits)
  consider "s' = s" | f where "s' = s\<lparr>sys_ws := (sys_ws s)[i := (sys_ws s ! i)\<lparr>lw_filter := f\<rparr>]\<rparr>"
    using assms by (auto simp: write_locked_def Let_def split: if_splits option.splits)
  then show "same_writers s s'" by cases (auto simp: same_writers_def upd_nth)
qed

lemma close_locked_same:
  assumes "close_locked i s = (acts, s')"
  shows "same_writers s s'" and "sys_hub s' = sys_hub s"
proof -
  show "sys_hub s' = sys_hub s" using assms by (auto simp: close_locked_def lf_take_def Let_def split: if_splits)
  consider "s' = s" | f where "s' = s\<lparr>sys_ws := (sys_ws s)[i := (sys_ws s ! i)\<lparr>lw_closed := True, lw_filter := f\<rparr>]\<rparr>"
    using assms by (auto simp: close_locked_def lf_take_def Let_def split: if_splits)
  then show "same_writers s s'" by cases (auto simp: same_writers_def upd_nth)
qed

lemma abandon_same:
  shows "same_writers s (snd (abandon i s))" and "sys_hub (snd (abandon i s)) = sys_hub s"
proof -
  show "sys_hub (snd (abandon i s)) = sys_hub s" by (simp add: abandon_def lf_take_def Let_def)
  consider "snd (abandon i s) = s"
    | f where "snd (abandon i s) = s\<lparr>sys_ws := (sys_ws s)[i := (sys_ws s ! i)\<lparr>lw_closed := True, lw_print := None, lw_filter := f\<rparr>]\<rparr>"
    by (cases "lw_closed (sys_ws s ! i)") (auto simp: abandon_def lf_take_def Let_def)
  then show "same_writers s (snd (abandon i s))" by cases (auto simp: same_writers_def upd_nth)
qed

lemma task_step_same:
  assumes "task_step its t s = Some (todo, s')"
  shows "same_writers s s'"
proof (cases t)
  case (CloseLocked i)
  then show ?thesis using assms close_locked_same by (cases "close_locked i s") auto
next
  case (Act a)
  then show ?thesis using assms by (auto simp: same_writers_def)
next
  case (WriteLocked i p)
  then show ?thesis using assms write_locked_same by auto
qed (use assms attach_same abandon_same in \<open>auto simp: hub_take_def same_writers_def\<close>)

lemma task_step_ids:
  assumes "ids_ok s" "entry_ok (length (sys_ws s)) t" "task_step its t s = Some (todo, s')"
  shows "ids_ok s'"
proof (rule ids_ok_same [OF assms(1) task_step_same [OF assms(3)]])
  fix x i
  assume "lh_writers (sys_hub s') x = Some i"
  then show "lh_writers (sys_hub s) x = Some i \<or> i < length (sys_ws s) \<and> lw_hub (sys_ws s ! i) \<and> lw_id (sys_ws s ! i) = x"
  proof (cases t)
    case (WriteLocked j p)
    then show ?thesis using assms(3) write_locked_same \<open>lh_writers (sys_hub s') x = Some i\<close> by auto
  next
    case (CloseLocked j)
    then show ?thesis using assms(3) close_locked_same \<open>lh_writers (sys_hub s') x = Some i\<close> by (cases "close_locked j s") auto
  next
    case (Act a)
    then show ?thesis using assms(3) \<open>lh_writers (sys_hub s') x = Some i\<close> by auto
  qed (use assms(2,3) abandon_same in \<open>auto simp: hub_take_def attach_def Let_def register_def split: if_splits\<close>)
qed

lemma new_ids:
  assumes "ids_ok s" and "length (sys_ws s) + 1 < 2 ^ 64"
  shows "ids_ok (snd (newLineWriter pr s))" and "ids_ok (snd (newFinishedLineWriter out s))"
proof -
  have u: "unat (lh_seq (sys_hub s) + 1) = unat (lh_seq (sys_hub s)) + 1"
    using assms by (simp add: ids_ok_def unat_word_ariths)
  show "ids_ok (snd (newLineWriter pr s))"
    using assms(1) unfolding ids_ok_def newLineWriter_def Let_def
    by (fastforce simp: u nth_append FormatUint_inj less_Suc_eq)
  show "ids_ok (snd (newFinishedLineWriter out s))"
    using assms(1) unfolding ids_ok_def newFinishedLineWriter_def Let_def by (fastforce simp: nth_append less_Suc_eq)
qed

lemma lw_init_ids: "ids_ok lw_init"
  by (simp add: ids_ok_def lw_init_def newLiveHub_def)

lemma lw_step_length: "lw_step m m' \<Longrightarrow> length (sys_ws (fst m)) \<le> length (sys_ws (fst m'))"
  by (induction rule: lw_step.induct)
    (auto simp: newLineWriter_def newFinishedLineWriter_def Let_def SetLinePrint_def same_writers_def dest: task_step_same)

lemma run_entry_ok:
  "machine_ok (s, ts) \<Longrightarrow> k < length ts \<Longrightarrow> ts ! k = t # rest \<Longrightarrow> entry_ok (length (sys_ws s)) t \<and> list_all (entry_ok (length (sys_ws s))) rest"
  by (fastforce simp: machine_ok_def list_all_length)

lemma lw_step_ids:
  assumes "lw_step m m'" "machine_ok m" "ids_ok (fst m)" "length (sys_ws (fst m')) < 2 ^ 64"
  shows "ids_ok (fst m')"
  using assms
proof (induction rule: lw_step.induct)
  case (run k ts t rest its s todo s')
  then show ?case using run_entry_ok [of s ts k t rest] task_step_ids by auto
next
  case (new s ts pr)
  then show ?case using new_ids(1) by (simp add: newLineWriter_def Let_def)
next
  case (finished s ts out)
  then show ?case using new_ids(2) by (simp add: newFinishedLineWriter_def Let_def)
qed (simp_all add: ids_ok_def SetLinePrint_def)

lemma lw_reach_ids:
  assumes "lw_reach m" "length (sys_ws (fst m)) < 2 ^ 64"
  shows "ids_ok (fst m)"
  using assms unfolding lw_reach_def
proof (induction rule: rtranclp_induct)
  case (step m m')
  then show ?case using lw_step_ids lw_step_length [OF step(2)] lw_reach_ok [unfolded lw_reach_def] by fastforce
qed (simp add: lw_init_ids)

section \<open>A row that stays behind\<close>

text \<open>Calls with something left to do to the row of a name, or to all rows.\<close>

fun touches :: "string \<Rightarrow> lw_task \<Rightarrow> bool" where
  "touches x (Act (SetRow y t)) = (x = y)"
| "touches x (Act (DropRow y)) = (x = y)"
| "touches x HubTake = True"
| "touches x t = False"

definition left_behind :: "string \<Rightarrow> nat list \<Rightarrow> lw_sys \<times> lw_task list list \<Rightarrow> bool" where
  "left_behind x r m \<longleftrightarrow> lh_slots (sys_hub (fst m)) x = Some r \<and>
     (\<exists>i < length (sys_ws (fst m)). lw_hub (sys_ws (fst m) ! i) \<and> lw_id (sys_ws (fst m) ! i) = x \<and> lw_closed (sys_ws (fst m) ! i)) \<and>
     (\<forall>ts \<in> set (snd m). \<forall>t \<in> set ts. \<not> touches x t)"

definition taking :: "lw_sys \<times> lw_task list list \<Rightarrow> bool" where
  "taking m \<longleftrightarrow> (\<exists>ts \<in> set (snd m). HubTake \<in> set ts)"

lemma task_step_slots:
  assumes "\<not> touches x t" "task_step its t s = Some (todo, s')"
  shows "lh_slots (sys_hub s') x = lh_slots (sys_hub s) x"
proof (cases t)
  case (WriteLocked j p)
  then show ?thesis using assms write_locked_same by auto
next
  case (CloseLocked j)
  then show ?thesis using assms close_locked_same by (cases "close_locked j s") auto
next
  case (Act a)
  then show ?thesis using assms by (cases a) (auto simp: hub_drop_def)
next
  case (Attach i)
  then show ?thesis using assms by (auto simp: attach_def Let_def register_def)
qed (use assms abandon_same in auto)

text \<open>A writer that is closed leaves nothing to do; an open one touches only its own row.\<close>

lemma task_step_touches:
  assumes "ids_ok s" "entry_ok (length (sys_ws s)) t" "\<not> touches x t" "task_step its t s = Some (todo, s')"
    and "i < length (sys_ws s)" "lw_hub (sys_ws s ! i)" "lw_id (sys_ws s ! i) = x" "lw_closed (sys_ws s ! i)"
    and "u \<in> set todo"
  shows "\<not> touches x u"
proof (cases t)
  case (WriteLocked j p)
  then have "\<not> lw_closed (sys_ws s ! j)" using assms by (auto simp: write_locked_def Let_def)
  then have "j \<noteq> i" using assms(8) by auto
  then have "lw_hub (sys_ws s ! j) \<Longrightarrow> lw_id (sys_ws s ! j) \<noteq> x" using ids_inj [OF assms(1), of j i] assms WriteLocked by auto
  then show ?thesis using assms(4,9) WriteLocked
    by (auto simp: write_locked_def Let_def split: if_splits option.splits)
next
  case (CloseLocked j)
  then have "\<not> lw_closed (sys_ws s ! j)" using assms by (auto simp: close_locked_def Let_def)
  then have "j \<noteq> i" using assms(8) by auto
  then have "lw_hub (sys_ws s ! j) \<Longrightarrow> lw_id (sys_ws s ! j) \<noteq> x" using ids_inj [OF assms(1), of j i] assms CloseLocked by auto
  then show ?thesis using assms(4,9) CloseLocked
    by (auto simp: close_locked_def lf_take_def Let_def split: if_splits option.splits)
qed (use assms in auto)

lemma left_behind_step:
  assumes "lw_step m m'" "machine_ok m" "ids_ok (fst m)" "left_behind x r m" "\<not> taking m'"
  shows "left_behind x r m'"
  using assms
proof (induction rule: lw_step.induct)
  case (run k ts t rest its s todo s')
  have k: "ts ! k \<in> set ts" using run(1) by (rule nth_mem)
  then have n: "\<not> touches x t" "\<forall>u \<in> set rest. \<not> touches x u" using run by (auto simp: left_behind_def)
  obtain i where i: "i < length (sys_ws s)" "lw_hub (sys_ws s ! i)" "lw_id (sys_ws s ! i) = x" "lw_closed (sys_ws s ! i)"
    using run by (auto simp: left_behind_def)
  have ok: "entry_ok (length (sys_ws s)) t" using run run_entry_ok by blast
  have "\<forall>u \<in> set todo. \<not> touches x u" using task_step_touches [OF _ ok n(1) run(4) i] run by auto
  moreover have "lh_slots (sys_hub s') x = Some r" using task_step_slots [OF n(1) run(4)] run by (simp add: left_behind_def)
  moreover have "same_writers s s'" using task_step_same [OF run(4)] .
  ultimately show ?case using run n i
    by (auto simp: left_behind_def same_writers_def dest!: set_update_subset_insert [THEN subsetD])
next
  case (new s ts pr)
  then show ?case by (auto simp: left_behind_def newLineWriter_def Let_def nth_append)
next
  case (finished s ts out)
  then show ?case by (auto simp: left_behind_def newFinishedLineWriter_def Let_def nth_append)
qed (auto simp: left_behind_def SetLinePrint_def taking_def)

definition lw_later :: "lw_sys \<times> lw_task list list \<Rightarrow> lw_sys \<times> lw_task list list \<Rightarrow> bool" where
  "lw_later = (\<lambda>m m'. lw_step m m' \<and> \<not> taking m')\<^sup>*\<^sup>*"

lemma lw_later_reach: "lw_reach m \<Longrightarrow> lw_later m m' \<Longrightarrow> lw_reach m'"
proof -
  assume "lw_reach m" "lw_later m m'"
  then have "lw_step\<^sup>*\<^sup>* (lw_init, []) m" "lw_step\<^sup>*\<^sup>* m m'"
    unfolding lw_reach_def lw_later_def by (auto elim: mono_rtranclp [rule_format, rotated])
  then show "lw_reach m'" unfolding lw_reach_def by simp
qed

lemma left_behind_stays:
  assumes "lw_reach m" "left_behind x r m" "lw_later m m'" "length (sys_ws (fst m')) < 2 ^ 64"
  shows "left_behind x r m'"
  using assms(3,4) unfolding lw_later_def
proof (induction rule: rtranclp_induct)
  case (step a b)
  have a: "lw_reach a" using lw_later_reach [OF assms(1)] step(1) by (simp add: lw_later_def)
  have l: "length (sys_ws (fst a)) < 2 ^ 64" using lw_step_length [of a b] step by simp
  show ?case using left_behind_step [of a b] step lw_reach_ok [OF a] lw_reach_ids [OF a l] l by simp
qed (rule assms(2))

lemma left_behind_shown:
  assumes "lw_reach m" "left_behind x r m"
  shows "r \<in> set (LiveLines (fst m))"
proof -
  have h: "hub_ok (sys_hub (fst m))" using lw_reach_ok [OF assms(1)] by (simp add: machine_ok_def sys_ok_def)
  have "lh_slots (sys_hub (fst m)) x = Some r" using assms(2) by (simp add: left_behind_def)
  moreover from this have "x \<in> set (lh_order (sys_hub (fst m)))" using h by (auto simp: hub_ok_def)
  ultimately show ?thesis unfolding LiveLines_def hub_snapshot_rows(1) [OF h] by force
qed

text \<open>
  A write and the end of the display overlap: the write has left its lock, all writers are taken and
  closed, then the write sets its row.
\<close>

definition a_row :: lineWriter where
  "a_row = \<lparr>lw_id = ''live-1'', lw_hub = True, lw_print = Some (PrintFn 0), lw_commitOnClose = True, lw_once = True,
     lw_filter = lf_new\<lparr>lf_line := [97], lf_col := 1\<rparr>, lw_closed = False\<rparr>"

definition stale_row :: lw_sys where
  "stale_row = \<lparr>sys_hub = \<lparr>lh_seq = 1, lh_order = [''live-1''], lh_slots = [''live-1'' \<mapsto> [97]], lh_writers = Map.empty\<rparr>,
     sys_print = None, sys_ws = [a_row\<lparr>lw_print := None, lw_filter := lf_new, lw_closed := True\<rparr>], sys_out = []\<rparr>"

lemma FormatUint_1: "FormatUint (Suc 0) = ''1''"
  by code_simp

lemma write_a: "lf_write ''a'' lf_new = Some ([], lf_new\<lparr>lf_line := [97], lf_col := 1\<rparr>)"
  by (simp add: lf_write_def lf_new_def lineMaxPending_def write_plain plain_char_def lf_put_def lineMaxCols_def write_loop_Nil)

lemma stale_reach: "lw_reach (stale_row, [[], []])"
proof -
  let ?s1 = "snd (newLineWriter (PrintFn 0) lw_init)"
  let ?s2 = "attach 0 ?s1"
  let ?ts = "[[WriteLocked 0 ''a''], [HubTake]]"
  have s2: "?s2 = \<lparr>sys_hub = \<lparr>lh_seq = 1, lh_order = [], lh_slots = Map.empty, lh_writers = [''live-1'' \<mapsto> 0]\<rparr>,
      sys_print = None, sys_ws = [a_row\<lparr>lw_filter := lf_new\<rparr>], sys_out = []\<rparr>"
    by (simp add: lw_init_def newLiveHub_def newLineWriter_def attach_def register_def a_row_def FormatUint_1)
  let ?s3 = "?s2\<lparr>sys_ws := [a_row]\<rparr>"
  let ?s4 = "?s3\<lparr>sys_hub := \<lparr>lh_seq = 1, lh_order = [], lh_slots = Map.empty, lh_writers = Map.empty\<rparr>\<rparr>"
  let ?s5 = "snd (abandon 0 ?s4)"
  have w: "write_locked 0 ''a'' ?s2 = Some ((1, None), [SetRow ''live-1'' [97]], ?s3)"
    unfolding s2 by (simp add: write_locked_def Let_def write_a a_row_def)
  have "lw_step (lw_init, []) (?s1, [])" by (rule lw_step.new)
  moreover have "lw_step (?s1, []) (?s1, [] @ [[Attach 0, WriteLocked 0 ''a'']])"
    by (rule lw_step.call_write) (simp add: newLineWriter_def Let_def)
  moreover have "lw_step (?s1, [] @ [[Attach 0, WriteLocked 0 ''a'']]) (?s1, [] @ [[Attach 0, WriteLocked 0 ''a'']] @ [[HubTake]])"
    using lw_step.call_take [of ?s1 "[[Attach 0, WriteLocked 0 ''a'']]"] by simp
  moreover have "lw_step (?s1, [] @ [[Attach 0, WriteLocked 0 ''a'']] @ [[HubTake]]) (?s2, ?ts)"
    using lw_step.run [of 0 "[[Attach 0, WriteLocked 0 ''a''], [HubTake]]"] by fastforce
  moreover have "lw_step (?s2, ?ts) (?s3, [[Act (SetRow ''live-1'' [97])], [HubTake]])"
    using lw_step.run [of 0 ?ts "WriteLocked 0 ''a''" "[]" "[]" ?s2] w by simp
  moreover have "lw_step (?s3, [[Act (SetRow ''live-1'' [97])], [HubTake]]) (?s4, [[Act (SetRow ''live-1'' [97])], [Abandon 0]])"
    using lw_step.run [of 1 "[[Act (SetRow ''live-1'' [97])], [HubTake]]" HubTake "[]" "[''live-1'']" ?s3]
    by (simp add: s2 hub_take_def iteration_def)
  moreover have "lw_step (?s4, [[Act (SetRow ''live-1'' [97])], [Abandon 0]]) (?s5, [[Act (SetRow ''live-1'' [97])], []])"
    using lw_step.run [of 1 "[[Act (SetRow ''live-1'' [97])], [Abandon 0]]" "Abandon 0" "[]" "[]" ?s4] by simp
  moreover have "lw_step (?s5, [[Act (SetRow ''live-1'' [97])], []]) (do_act (SetRow ''live-1'' [97]) ?s5, [[], []])"
    using lw_step.run [of 0 "[[Act (SetRow ''live-1'' [97])], []]" "Act (SetRow ''live-1'' [97])" "[]" "[]" ?s5] by simp
  moreover have "do_act (SetRow ''live-1'' [97]) ?s5 = stale_row"
    by (simp add: s2 abandon_def lf_take_def lf_reset_def hub_set_def Let_def stale_row_def a_row_def) (simp add: lf_new_def)
  ultimately show ?thesis unfolding lw_reach_def by (force intro: converse_rtranclp_into_rtranclp)
qed

lemma stale_left_behind: "left_behind ''live-1'' [97] (stale_row, [[], []])"
  by (simp add: left_behind_def stale_row_def a_row_def)

section \<open>Calls that do not overlap\<close>

inductive lw_seq :: "lw_sys \<Rightarrow> bool" where
  start: "lw_seq lw_init"
| new: "lw_seq s \<Longrightarrow> lw_seq (snd (newLineWriter pr s))"
| finished: "lw_seq s \<Longrightarrow> lw_seq (snd (newFinishedLineWriter out s))"
| print: "lw_seq s \<Longrightarrow> lw_seq (SetLinePrint pr s)"
| wrote: "lw_seq s \<Longrightarrow> i < length (sys_ws s) \<Longrightarrow> Write i p s = Some (r, s') \<Longrightarrow> lw_seq s'"
| close: "lw_seq s \<Longrightarrow> i < length (sys_ws s) \<Longrightarrow> lw_seq (snd (Close i s))"
| taken: "lw_seq s \<Longrightarrow> iteration its s \<Longrightarrow> lw_seq (snd (TakeLiveLines its s))"

text \<open>
  The line of a writer is its row; a closed writer has none; a writer with a row is known to the hub.
\<close>

definition row_of :: "lineWriter \<Rightarrow> nat list option" where
  "row_of w = (if lf_line (lw_filter w) = [] then None else Some (lf_line (lw_filter w)))"

definition shown :: "lw_sys \<Rightarrow> nat \<Rightarrow> bool" where
  "shown s i \<longleftrightarrow>
     (let w = sys_ws s ! i; h = sys_hub s in
      (lw_closed w \<longrightarrow> lf_line (lw_filter w) = []) \<and>
      (lw_hub w \<longrightarrow> lh_slots h (lw_id w) = row_of w \<and> (lf_line (lw_filter w) \<noteq> [] \<longrightarrow> lw_once w) \<and>
         (lw_once w \<and> \<not> lw_closed w \<longrightarrow> lh_writers h (lw_id w) = Some i)))"

definition has_name :: "lw_sys \<Rightarrow> string \<Rightarrow> bool" where
  "has_name s x \<longleftrightarrow> (\<exists>i < length (sys_ws s). lw_hub (sys_ws s ! i) \<and> lw_id (sys_ws s ! i) = x)"

definition live_ok :: "lw_sys \<Rightarrow> bool" where
  "live_ok s \<longleftrightarrow> sys_ok s \<and> ids_ok s \<and> (\<forall>i < length (sys_ws s). shown s i) \<and>
     (\<forall>x. lh_slots (sys_hub s) x \<noteq> None \<longrightarrow> has_name s x)"

lemma has_name_same: "same_writers s s' \<Longrightarrow> has_name s' x = has_name s x"
  by (auto simp: same_writers_def has_name_def)

lemma emit_fold:
  "sys_hub (fold do_act (map (Emit pr) ls) s) = sys_hub s" "sys_ws (fold do_act (map (Emit pr) ls) s) = sys_ws s"
  "sys_out (fold do_act (map (Emit pr) ls) s) = sys_out s @ map (Pair pr) ls"
  by (induction ls arbitrary: s) simp_all

lemma fold_act_ok: "sys_ok s \<Longrightarrow> list_all act_ok acts \<Longrightarrow> sys_ok (fold do_act acts s)"
  by (induction acts arbitrary: s) (auto simp: do_act_ok)

lemma fold_act_rest:
  "sys_ws (fold do_act acts s) = sys_ws s" "lh_writers (sys_hub (fold do_act acts s)) = lh_writers (sys_hub s)"
  "lh_seq (sys_hub (fold do_act acts s)) = lh_seq (sys_hub s)"
  by (induction acts arbitrary: s) simp_all

lemma attach_live:
  assumes "live_ok s" "i < length (sys_ws s)"
  shows "live_ok (attach i s)" and "lw_once (sys_ws (attach i s) ! i) \<or> \<not> lw_hub (sys_ws (attach i s) ! i)"
proof -
  let ?w = "sys_ws s ! i"
  have ids: "ids_ok (attach i s)" using task_step_ids [of s "Attach i" "[]"] assms by (simp add: live_ok_def)
  have ok: "sys_ok (attach i s)" using attach_ok assms by (simp add: live_ok_def)
  have "live_ok (attach i s) \<and> (lw_once (sys_ws (attach i s) ! i) \<or> \<not> lw_hub (sys_ws (attach i s) ! i))"
  proof (cases "lw_hub ?w \<and> \<not> lw_once ?w")
    case True
    then have e: "attach i s = s\<lparr>sys_ws := (sys_ws s)[i := ?w\<lparr>lw_once := True\<rparr>], sys_hub := register (lw_id ?w) i (sys_hub s)\<rparr>"
      by (simp add: attach_def Let_def)
    have "shown (attach i s) j" if j: "j < length (sys_ws s)" for j
    proof (cases "j = i")
      case True
      then show ?thesis using assms j \<open>lw_hub ?w \<and> \<not> lw_once ?w\<close> unfolding e by (simp add: live_ok_def shown_def row_of_def register_def Let_def)
    next
      case False
      moreover have "shown s j" using assms j by (simp add: live_ok_def)
      moreover have "lw_hub (sys_ws s ! j) \<longrightarrow> lw_id (sys_ws s ! j) \<noteq> lw_id ?w"
        using ids_inj [of s j i] assms j True False by (auto simp: live_ok_def)
      ultimately show ?thesis unfolding e by (auto simp: shown_def register_def Let_def)
    qed
    moreover have "lh_slots (sys_hub (attach i s)) = lh_slots (sys_hub s)" "length (sys_ws (attach i s)) = length (sys_ws s)"
      "lw_once (sys_ws (attach i s) ! i)" using assms(2) by (simp_all add: e register_def)
    ultimately show ?thesis using assms(1) ok ids has_name_same [OF attach_same] by (simp add: live_ok_def)
  qed (use assms in \<open>auto simp: attach_def Let_def\<close>)
  then show "live_ok (attach i s)" "lw_once (sys_ws (attach i s) ! i) \<or> \<not> lw_hub (sys_ws (attach i s) ! i)" by auto
qed

text \<open>The one argument for writing and closing: writer \<open>i\<close> changes, and its row with it.\<close>

lemma live_update:
  assumes "live_ok s" "i < length (sys_ws s)" "sys_ok s'"
    and "sys_ws s' = (sys_ws s)[i := w]" "lw_id w = lw_id (sys_ws s ! i)" "lw_hub w = lw_hub (sys_ws s ! i)" "lw_once w = lw_once (sys_ws s ! i)"
    and "lh_writers (sys_hub s') = lh_writers (sys_hub s)" "lh_seq (sys_hub s') = lh_seq (sys_hub s)"
    and "lh_slots (sys_hub s') = (if lw_hub w then (lh_slots (sys_hub s))(lw_id w := row_of w) else lh_slots (sys_hub s))"
    and "lw_closed (sys_ws s ! i) \<longrightarrow> lw_closed w" "lw_closed w \<longrightarrow> lf_line (lw_filter w) = []"
    and "lw_hub w \<longrightarrow> lf_line (lw_filter w) \<noteq> [] \<longrightarrow> lw_once w"
  shows "live_ok s'"
proof -
  have same: "same_writers s s'" using assms(2-11) by (auto simp: same_writers_def upd_nth)
  then have ids: "ids_ok s'" using ids_ok_same [of s s'] assms(1,8) by (simp add: live_ok_def)
  have "shown s' j" if j: "j < length (sys_ws s)" for j
  proof (cases "j = i")
    case True
    have "shown s i" using assms(1,2) by (simp add: live_ok_def)
    moreover have "sys_ws s' ! i = w" using assms(2,4) by simp
    ultimately show ?thesis using True assms(5-) unfolding shown_def Let_def by auto
  next
    case False
    then have w: "sys_ws s' ! j = sys_ws s ! j" using assms(4) by simp
    have "shown s j" using assms(1) j by (simp add: live_ok_def)
    moreover have "lw_hub w \<and> lw_hub (sys_ws s ! j) \<longrightarrow> lw_id (sys_ws s ! j) \<noteq> lw_id w"
      using ids_inj [of s j i] assms(1,2,5,6) j False by (auto simp: live_ok_def)
    ultimately show ?thesis unfolding shown_def Let_def w assms(8) assms(10) by auto
  qed
  moreover have "has_name s' x" if "lh_slots (sys_hub s') x \<noteq> None" for x
  proof (cases "lw_hub w \<and> x = lw_id w")
    case True
    then have "has_name s x" using assms(2,5,6) by (auto simp: has_name_def)
    then show ?thesis by (simp add: has_name_same [OF same])
  next
    case False
    then have "lh_slots (sys_hub s) x \<noteq> None" using that assms(10) by (auto split: if_splits)
    then show ?thesis using assms(1) by (simp add: live_ok_def has_name_same [OF same])
  qed
  moreover have "length (sys_ws s') = length (sys_ws s)" using same by (simp add: same_writers_def)
  ultimately show ?thesis using ids assms(3) by (simp add: live_ok_def)
qed

lemma Write_open:
  assumes "i < length (sys_ws s)" "s1 = attach i s" "w = sys_ws s1 ! i" "\<not> lw_closed w" "lf_write p (lw_filter w) = Some (c, f)"
  obtains s' where "Write i p s = Some ((length p, None), s')"
    and "sys_ws s' = (sys_ws s1)[i := w\<lparr>lw_filter := f\<rparr>]"
    and "sys_hub s' = (if lw_hub w then hub_set (lw_id w) (lf_line f) (sys_hub s1) else sys_hub s1)"
    and "sys_out s' = sys_out s1 @ (case lw_print w of None \<Rightarrow> [] | Some pr \<Rightarrow> map (Pair pr) c)"
proof -
  let ?s2 = "s1\<lparr>sys_ws := (sys_ws s1)[i := w\<lparr>lw_filter := f\<rparr>]\<rparr>"
  let ?e = "case lw_print w of None \<Rightarrow> [] | Some pr \<Rightarrow> map (Emit pr) c"
  let ?s3 = "fold do_act ?e ?s2"
  have e: "sys_hub ?s3 = sys_hub s1" "sys_ws ?s3 = sys_ws ?s2"
    "sys_out ?s3 = sys_out s1 @ (case lw_print w of None \<Rightarrow> [] | Some pr \<Rightarrow> map (Pair pr) c)"
    by (cases "lw_print w"; simp add: emit_fold)+
  have w: "Write i p s = Some ((length p, None), fold do_act (if lw_hub w then [SetRow (lw_id w) (lf_line f)] else []) ?s3)"
    using assms by (simp add: Write_def write_locked_def Let_def)
  show ?thesis by (rule that [OF w]) (use e in simp_all)
qed

lemma Write_length:
  assumes "Write i p s = Some (r, s')"
  shows "length (sys_ws s') = length (sys_ws s)"
proof -
  obtain acts s2 where w: "write_locked i p (attach i s) = Some (r, acts, s2)" "s' = fold do_act acts s2"
    using assms by (auto simp: Write_def)
  then show ?thesis using write_locked_same(1) [OF w(1)] attach_same [of s i] by (simp add: fold_act_rest same_writers_def)
qed

lemma Write_live:
  assumes "live_ok s" "i < length (sys_ws s)" "Write i p s = Some (r, s')"
  shows "live_ok s'"
proof -
  let ?s1 = "attach i s"
  let ?w = "sys_ws ?s1 ! i"
  note a = attach_live [OF assms(1,2)]
  have len: "i < length (sys_ws ?s1)" using assms(2) attach_same [of s i] by (simp add: same_writers_def)
  have ok: "sys_ok ?s1" using a(1) by (simp add: live_ok_def)
  have ok': "sys_ok s'" using assms(3) write_locked_ok [OF ok len] fold_act_ok by (fastforce simp: Write_def)
  show ?thesis
  proof (cases "lw_closed ?w")
    case True
    then show ?thesis using assms(3) a(1) by (auto simp: Write_def write_locked_def Let_def)
  next
    case False
    then obtain c f where f: "lf_write p (lw_filter ?w) = Some (c, f)"
      using assms(3) by (auto simp: Write_def write_locked_def Let_def split: option.splits)
    obtain s2 where s2: "Write i p s = Some ((length p, None), s2)" "sys_ws s2 = (sys_ws ?s1)[i := ?w\<lparr>lw_filter := f\<rparr>]"
      "sys_hub s2 = (if lw_hub ?w then hub_set (lw_id ?w) (lf_line f) (sys_hub ?s1) else sys_hub ?s1)"
      using Write_open [OF assms(2) refl refl False f] by metis
    have e: "s' = s2" using s2(1) assms(3) by simp
    show ?thesis unfolding e
      by (rule live_update [OF a(1) len ok' [unfolded e] s2(2)]) (use a(2) False s2(3) in \<open>auto simp: row_of_def\<close>)
  qed
qed

lemma Close_open:
  assumes "i < length (sys_ws s)" "w = sys_ws s ! i" "\<not> lw_closed w"
  obtains s' where "Close i s = (None, s')"
    and "sys_ws s' = (sys_ws s)[i := w\<lparr>lw_closed := True, lw_filter := lf_reset (lw_filter w)\<rparr>]"
    and "sys_hub s' = (if lw_hub w then dropLocked (lw_id w) (sys_hub s) else sys_hub s)"
    and "sys_out s' = sys_out s @ (case lw_print w of None \<Rightarrow> []
       | Some pr \<Rightarrow> if lw_commitOnClose w \<and> lf_line (lw_filter w) \<noteq> [] then [(pr, lf_line (lw_filter w))] else [])"
proof
  show "Close i s = (None, snd (Close i s))" by (simp add: Close_def Let_def case_prod_unfold)
qed (use assms in \<open>auto simp: Close_def close_locked_def Let_def lf_take_def hub_drop_def split: option.splits\<close>)

lemma Close_live:
  assumes "live_ok s" "i < length (sys_ws s)"
  shows "live_ok (snd (Close i s))"
proof (cases "lw_closed (sys_ws s ! i)")
  case False
  let ?w = "sys_ws s ! i"
  obtain s2 where s2: "Close i s = (None, s2)" "sys_ws s2 = (sys_ws s)[i := ?w\<lparr>lw_closed := True, lw_filter := lf_reset (lw_filter ?w)\<rparr>]"
      "sys_hub s2 = (if lw_hub ?w then dropLocked (lw_id ?w) (sys_hub s) else sys_hub s)"
    using Close_open [OF assms(2) refl False] by metis
  have "sys_ok s" using assms(1) by (simp add: live_ok_def)
  then have ok: "sys_ok s2" using s2(1) close_locked_ok [OF _ assms(2)] fold_act_ok
    by (cases "close_locked i s") (fastforce simp: Close_def)
  have "live_ok s2"
    by (rule live_update [OF assms ok s2(2)]) (use s2(3) in \<open>auto simp: row_of_def lf_reset_def\<close>)
  then show ?thesis using s2(1) by simp
qed (use assms in \<open>simp add: Close_def close_locked_def Let_def\<close>)

text \<open>Abandoning a list of writers takes the line of each and closes it.\<close>

definition abandoned :: "lineWriter \<Rightarrow> lineWriter" where
  "abandoned w = (if lw_closed w then w else w\<lparr>lw_closed := True, lw_print := None, lw_filter := lf_reset (lw_filter w)\<rparr>)"

lemma abandon_eq:
  "abandon i s = (if lw_closed (sys_ws s ! i) then [] else lf_line (lw_filter (sys_ws s ! i)), s\<lparr>sys_ws := (sys_ws s)[i := abandoned (sys_ws s ! i)]\<rparr>)"
  by (simp add: abandon_def abandoned_def lf_take_def Let_def)

lemma abandon_loop_eq:
  assumes "distinct is" "\<forall>i \<in> set is. i < length (sys_ws s) \<and> (lw_closed (sys_ws s ! i) \<longrightarrow> lf_line (lw_filter (sys_ws s ! i)) = [])"
  shows "fst (abandon_loop is s) = filter (\<lambda>t. t \<noteq> []) (map (\<lambda>i. lf_line (lw_filter (sys_ws s ! i))) is) \<and>
    sys_hub (snd (abandon_loop is s)) = sys_hub s \<and> length (sys_ws (snd (abandon_loop is s))) = length (sys_ws s) \<and>
    (\<forall>j < length (sys_ws s). sys_ws (snd (abandon_loop is s)) ! j = (if j \<in> set is then abandoned (sys_ws s ! j) else sys_ws s ! j)) \<and>
    (sys_ok s \<longrightarrow> sys_ok (snd (abandon_loop is s)))"
  using assms
proof (induction "is" arbitrary: s)
  case (Cons i "is")
  let ?s = "snd (abandon i s)"
  have s: "sys_ws ?s = (sys_ws s)[i := abandoned (sys_ws s ! i)]" "sys_hub ?s = sys_hub s" by (simp_all add: abandon_eq)
  have t: "fst (abandon i s) = lf_line (lw_filter (sys_ws s ! i))" using Cons.prems by (simp add: abandon_eq)
  have l: "abandon_loop (i # is) s = ((if fst (abandon i s) \<noteq> [] then [fst (abandon i s)] else []) @ fst (abandon_loop is ?s), snd (abandon_loop is ?s))"
    by (simp add: case_prod_unfold Let_def)
  have n: "i \<notin> set is" "distinct is" using Cons.prems by auto
  have p: "\<forall>j \<in> set is. j < length (sys_ws ?s) \<and> (lw_closed (sys_ws ?s ! j) \<longrightarrow> lf_line (lw_filter (sys_ws ?s ! j)) = [])"
    using Cons.prems n by (auto simp: s upd_nth)
  have m: "map (\<lambda>j. lf_line (lw_filter (sys_ws ?s ! j))) is = map (\<lambda>j. lf_line (lw_filter (sys_ws s ! j))) is"
    using n Cons.prems by (auto simp: s upd_nth)
  have ok: "sys_ok s \<longrightarrow> sys_ok ?s" using abandon_ok [of s i] Cons.prems by (cases "abandon i s") auto
  have w: "sys_ws (snd (abandon_loop is ?s)) ! j = (if j \<in> set (i # is) then abandoned (sys_ws s ! j) else sys_ws s ! j)"
    if "j < length (sys_ws s)" for j
    using that Cons.IH [OF n(2) p] n(1) Cons.prems by (auto simp: s upd_nth)
  show ?case using Cons.IH [OF n(2) p] ok w unfolding l m s(2) by (simp add: t s(1))
qed simp

lemma abandon_loop_length: "length (sys_ws (snd (abandon_loop is s))) = length (sys_ws s)"
proof (induction "is" arbitrary: s)
  case (Cons i "is")
  have "snd (abandon_loop (i # is) s) = snd (abandon_loop is (snd (abandon i s)))" by (simp add: case_prod_unfold Let_def)
  then show ?case using Cons abandon_same(1) [of s i] by (simp add: same_writers_def)
qed simp

text \<open>What \<open>TakeLiveLines\<close> returns is what was shown, in the order of the map; then nothing is shown.\<close>

lemma Take_live:
  assumes "live_ok s" "iteration its s"
  shows "live_ok (snd (TakeLiveLines its s))" and "mset (fst (TakeLiveLines its s)) = mset (LiveLines s)"
    and "LiveLines (snd (TakeLiveLines its s)) = []"
proof -
  let ?h = "sys_hub s"
  let ?is = "map (\<lambda>x. the (lh_writers ?h x)) its"
  let ?s1 = "s\<lparr>sys_hub := ?h\<lparr>lh_writers := Map.empty, lh_slots := Map.empty, lh_order := []\<rparr>\<rparr>"
  let ?s2 = "snd (abandon_loop ?is ?s1)"
  have ok: "sys_ok s" "ids_ok s" "hub_ok ?h" and sh: "\<And>i. i < length (sys_ws s) \<Longrightarrow> shown s i"
    using assms(1) by (auto simp: live_ok_def sys_ok_def)
  have i: "\<exists>i. lh_writers ?h x = Some i \<and> i < length (sys_ws s) \<and> lw_hub (sys_ws s ! i) \<and> lw_id (sys_ws s ! i) = x" if "x \<in> set its" for x
    using that assms(2) ok(2) by (auto simp: iteration_def ids_ok_def)
  have "inj_on (\<lambda>x. the (lh_writers ?h x)) (set its)" using i by (intro inj_onI) (metis option.sel)
  then have d: "distinct ?is" using assms(2) by (simp add: distinct_map iteration_def)
  have p: "\<forall>i \<in> set ?is. i < length (sys_ws ?s1) \<and> (lw_closed (sys_ws ?s1 ! i) \<longrightarrow> lf_line (lw_filter (sys_ws ?s1 ! i)) = [])"
    using i sh by (fastforce simp: shown_def Let_def)
  note l = abandon_loop_eq [OF d p]
  have T: "TakeLiveLines its s = abandon_loop ?is ?s1" by (simp add: TakeLiveLines_def abandonAll_def hub_take_def)
  then show "LiveLines (snd (TakeLiveLines its s)) = []" using l by (simp add: LiveLines_def hub_snapshot_def)
  have ok2: "sys_ok ?s2" using l ok(1) by (simp add: sys_ok_def hub_ok_def)
  have ws: "length (sys_ws ?s2) = length (sys_ws s)" "lh_writers (sys_hub ?s2) = Map.empty" "lh_slots (sys_hub ?s2) = Map.empty"
    "lh_seq (sys_hub ?s2) = lh_seq ?h"
    and wj: "\<And>j. j < length (sys_ws s) \<Longrightarrow> sys_ws ?s2 ! j = (if j \<in> set ?is then abandoned (sys_ws s ! j) else sys_ws s ! j)"
    using l by simp_all
  have same: "same_writers s ?s2" using ws wj by (auto simp: same_writers_def abandoned_def)
  have ids: "ids_ok ?s2" using ids_ok_same [OF ok(2) same] ws by simp
  have row: "lh_slots ?h (lw_id (sys_ws s ! j)) = row_of (sys_ws s ! j) \<and> (lw_once (sys_ws s ! j) \<and> \<not> lw_closed (sys_ws s ! j) \<longrightarrow> j \<in> set ?is)"
    if j: "j < length (sys_ws s)" "lw_hub (sys_ws s ! j)" for j
  proof -
    have "lw_id (sys_ws s ! j) \<in> set its" if "lh_writers ?h (lw_id (sys_ws s ! j)) = Some j"
      using that assms(2) by (auto simp: iteration_def)
    then show ?thesis using sh [OF j(1)] j(2) by (force simp: shown_def Let_def)
  qed
  have "shown ?s2 j" if j: "j < length (sys_ws s)" for j
  proof -
    have "shown s j" using sh j .
    then show ?thesis using row [OF j] unfolding shown_def Let_def wj [OF j] ws
      by (auto simp: abandoned_def row_of_def lf_reset_def)
  qed
  then show "live_ok (snd (TakeLiveLines its s))" using ok2 ids ws by (simp add: T live_ok_def)
  have sl: "lh_slots ?h x = row_of (sys_ws s ! the (lh_writers ?h x))" if "x \<in> set its" for x
    using i [OF that] row by fastforce
  then have e: "filter (\<lambda>t. t \<noteq> []) (map (\<lambda>i. lf_line (lw_filter (sys_ws s ! i))) (map (\<lambda>x. the (lh_writers ?h x)) xs)) =
      map (\<lambda>x. the (lh_slots ?h x)) (filter (\<lambda>x. lh_slots ?h x \<noteq> None) xs)" if "set xs \<subseteq> set its" for xs
    using that by (induction xs) (auto simp: row_of_def)
  have "set (filter (\<lambda>x. lh_slots ?h x \<noteq> None) its) = set (lh_order ?h)"
  proof -
    have "x \<in> set its" if "lh_slots ?h x = Some t" for x t
    proof -
      have "has_name s x" using assms(1) that by (simp add: live_ok_def)
      then obtain j where j: "j < length (sys_ws s)" "lw_hub (sys_ws s ! j)" "lw_id (sys_ws s ! j) = x"
        by (auto simp: has_name_def)
      then have "lh_writers ?h x = Some j" using sh [OF j(1)] that by (auto simp: shown_def Let_def row_of_def split: if_splits)
      then show ?thesis using assms(2) by (auto simp: iteration_def)
    qed
    then show ?thesis using ok(3) by (auto simp: hub_ok_def)
  qed
  moreover have "distinct (filter (\<lambda>x. lh_slots ?h x \<noteq> None) its)" "distinct (lh_order ?h)"
    using assms(2) ok(3) by (simp_all add: iteration_def hub_ok_def)
  ultimately have "mset (filter (\<lambda>x. lh_slots ?h x \<noteq> None) its) = mset (lh_order ?h)"
    using set_eq_iff_mset_eq_distinct by blast
  then show "mset (fst (TakeLiveLines its s)) = mset (LiveLines s)"
    using l e [of its] by (simp add: T LiveLines_def hub_snapshot_rows(1) [OF ok(3)] del: map_map)
qed

lemma new_live:
  assumes "live_ok s" "length (sys_ws s) + 1 < 2 ^ 64" "s' = snd (newLineWriter pr s) \<or> s' = snd (newFinishedLineWriter out s)"
  shows "live_ok s'"
proof -
  have ids: "ids_ok s'" using assms new_ids by (auto simp: live_ok_def)
  have ok: "sys_ok s'" using assms new_ok by (auto simp: live_ok_def)
  obtain w where w: "sys_ws s' = sys_ws s @ [w]" "lh_slots (sys_hub s') = lh_slots (sys_hub s)" "lh_writers (sys_hub s') = lh_writers (sys_hub s)"
    "lw_filter w = lf_new" "\<not> lw_once w"
    using assms(3) by (auto simp: newLineWriter_def newFinishedLineWriter_def Let_def)
  have n: "has_name s' x" if "has_name s x" for x using that unfolding has_name_def w by (auto simp: nth_append intro: less_SucI)
  have "lh_slots (sys_hub s) (lw_id w) = None" if "lw_hub w"
  proof (rule ccontr)
    assume "lh_slots (sys_hub s) (lw_id w) \<noteq> None"
    then obtain i where "i < length (sys_ws s)" "lw_hub (sys_ws s ! i)" "lw_id (sys_ws s ! i) = lw_id w"
      using assms(1) by (auto simp: live_ok_def has_name_def)
    then show False using ids_inj [OF ids, of i "length (sys_ws s)"] that by (simp add: w nth_append)
  qed
  then have "shown s' (length (sys_ws s))" by (auto simp: shown_def Let_def w row_of_def lf_new_def)
  moreover have "shown s' i" if "i < length (sys_ws s)" for i
    using that assms(1) by (auto simp: live_ok_def shown_def Let_def w nth_append)
  ultimately show ?thesis using ids ok n assms(1) w(1,2) by (auto simp: live_ok_def less_Suc_eq)
qed

lemma lw_seq_live: "lw_seq s \<Longrightarrow> length (sys_ws s) < 2 ^ 64 \<Longrightarrow> live_ok s"
proof (induction rule: lw_seq.induct)
  case start
  show ?case using lw_init_ok lw_init_ids by (simp add: live_ok_def machine_ok_def) (simp add: lw_init_def newLiveHub_def)
next
  case (new s pr)
  then show ?case using new_live [of s _ pr] by (auto simp: newLineWriter_def Let_def)
next
  case (finished s out)
  then show ?case using new_live [of s _ _ out] by (auto simp: newFinishedLineWriter_def Let_def)
next
  case (print s pr)
  then show ?case by (simp add: SetLinePrint_def live_ok_def sys_ok_def ids_ok_def shown_def has_name_def)
next
  case (wrote s i p r s')
  then have "length (sys_ws s') = length (sys_ws s)" using Write_length by blast
  then show ?case using wrote Write_live by simp
next
  case (close s i)
  obtain acts s2 where c: "close_locked i s = (acts, s2)" by fastforce
  have "length (sys_ws (snd (Close i s))) = length (sys_ws s)"
    using close_locked_same(1) [OF c] by (simp add: Close_def c fold_act_rest same_writers_def)
  then show ?case using close Close_live by simp
next
  case (taken s its)
  have "length (sys_ws (snd (TakeLiveLines its s))) = length (sys_ws s)"
    by (simp add: TakeLiveLines_def abandonAll_def hub_take_def abandon_loop_length)
  then show ?case using taken Take_live(1) by simp
qed

text \<open>The rows are the lines of the open writers that have one.\<close>

lemma live_rows:
  assumes "live_ok s"
  shows "\<exists>js. distinct js \<and>
    set js = {i. i < length (sys_ws s) \<and> lw_hub (sys_ws s ! i) \<and> \<not> lw_closed (sys_ws s ! i) \<and> lf_line (lw_filter (sys_ws s ! i)) \<noteq> []} \<and>
    LiveLines s = map (\<lambda>i. lf_line (lw_filter (sys_ws s ! i))) js"
proof (intro exI conjI)
  let ?h = "sys_hub s"
  let ?js = "map (\<lambda>x. the (lh_writers ?h x)) (lh_order ?h)"
  have h: "hub_ok ?h" and sh: "\<And>i. i < length (sys_ws s) \<Longrightarrow> shown s i" using assms by (auto simp: live_ok_def sys_ok_def)
  have x: "\<exists>i. lh_writers ?h x = Some i \<and> i < length (sys_ws s) \<and> lw_hub (sys_ws s ! i) \<and> lw_id (sys_ws s ! i) = x \<and>
      \<not> lw_closed (sys_ws s ! i) \<and> lh_slots ?h x = Some (lf_line (lw_filter (sys_ws s ! i))) \<and> lf_line (lw_filter (sys_ws s ! i)) \<noteq> []"
    if "x \<in> set (lh_order ?h)" for x
  proof -
    have n: "lh_slots ?h x \<noteq> None" using that h by (auto simp: hub_ok_def)
    then have "has_name s x" using assms by (simp add: live_ok_def)
    then obtain i where i: "i < length (sys_ws s)" "lw_hub (sys_ws s ! i)" "lw_id (sys_ws s ! i) = x" by (auto simp: has_name_def)
    then show ?thesis using sh [OF i(1)] n by (auto simp: shown_def Let_def row_of_def split: if_splits)
  qed
  then have "inj_on (\<lambda>x. the (lh_writers ?h x)) (set (lh_order ?h))" by (intro inj_onI) (metis option.sel)
  then show "distinct ?js" using h by (simp add: distinct_map hub_ok_def)
  show "set ?js = {i. i < length (sys_ws s) \<and> lw_hub (sys_ws s ! i) \<and> \<not> lw_closed (sys_ws s ! i) \<and> lf_line (lw_filter (sys_ws s ! i)) \<noteq> []}"
  proof (intro equalityI subsetI)
    fix i
    assume "i \<in> {i. i < length (sys_ws s) \<and> lw_hub (sys_ws s ! i) \<and> \<not> lw_closed (sys_ws s ! i) \<and> lf_line (lw_filter (sys_ws s ! i)) \<noteq> []}"
    then have i: "i < length (sys_ws s)" "lw_hub (sys_ws s ! i)" "\<not> lw_closed (sys_ws s ! i)" "lf_line (lw_filter (sys_ws s ! i)) \<noteq> []" by auto
    then have "lh_writers ?h (lw_id (sys_ws s ! i)) = Some i" "lw_id (sys_ws s ! i) \<in> set (lh_order ?h)"
      using sh [OF i(1)] h by (auto simp: shown_def Let_def row_of_def hub_ok_def)
    then show "i \<in> set ?js" by force
  qed (use x in fastforce)
  show "LiveLines s = map (\<lambda>i. lf_line (lw_filter (sys_ws s ! i))) ?js"
    using x unfolding LiveLines_def hub_snapshot_rows(1) [OF h] by fastforce
qed

section \<open>Reading a stream to its end\<close>

lemma feed:
  assumes "i < length (sys_ws s)" "\<not> lw_closed (sys_ws s ! i)" "lf_write d (lw_filter (sys_ws s ! i)) = Some (c, g)"
    and "lw_print (sys_ws s ! i) = Some pr"
  obtains s1 where "(if d \<noteq> [] then Write i d s else Some ((0, None), s)) = Some ((length d, None), s1)"
    and "length (sys_ws s1) = length (sys_ws s)" "\<not> lw_closed (sys_ws s1 ! i)" "lw_filter (sys_ws s1 ! i) = g" "lw_print (sys_ws s1 ! i) = Some pr"
    and "lw_commitOnClose (sys_ws s1 ! i) = lw_commitOnClose (sys_ws s ! i)" "sys_out s1 = sys_out s @ map (Pair pr) c"
proof (cases "d = []")
  case True
  then show ?thesis using assms by (intro that [of s]) (auto simp: lf_write_def)
next
  case False
  let ?w = "sys_ws (attach i s) ! i"
  have w: "lw_closed ?w = lw_closed (sys_ws s ! i)" "lw_filter ?w = lw_filter (sys_ws s ! i)" "lw_print ?w = lw_print (sys_ws s ! i)"
    "lw_commitOnClose ?w = lw_commitOnClose (sys_ws s ! i)" "length (sys_ws (attach i s)) = length (sys_ws s)" "sys_out (attach i s) = sys_out s"
    using assms(1) by (simp_all add: attach_def Let_def)
  have o: "\<not> lw_closed ?w" "lf_write d (lw_filter ?w) = Some (c, g)" using assms w by simp_all
  obtain s1 where s1: "Write i d s = Some ((length d, None), s1)" "sys_ws s1 = (sys_ws (attach i s))[i := ?w\<lparr>lw_filter := g\<rparr>]"
    "sys_out s1 = sys_out (attach i s) @ (case lw_print ?w of None \<Rightarrow> [] | Some pr \<Rightarrow> map (Pair pr) c)"
    using Write_open [OF assms(1) refl refl o] by metis
  show ?thesis using s1 assms w False by (intro that [of s1]) simp_all
qed

lemma ReadFrom_end:
  assumes "i < length (sys_ws s)" "\<not> lw_closed (sys_ws s ! i)" "lw_print (sys_ws s ! i) = Some pr" "lw_commitOnClose (sys_ws s ! i)"
    and "writes lf_write (ds @ [d]) (lw_filter (sys_ws s ! i)) = Some (c, f)"
  shows "\<exists>s'. ReadFrom i (map (\<lambda>d. (d, None)) ds @ [(d, Some e)]) n s =
      Some ((n + length (concat (ds @ [d])), if e = ErrEOF then None else Some e), s') \<and>
    lw_closed (sys_ws s' ! i) \<and>
    sys_out s' = sys_out s @ map (Pair pr) (c @ (if lf_line f = [] then [] else [lf_line f]))"
  using assms
proof (induction ds arbitrary: n s c)
  case Nil
  then have w: "lf_write d (lw_filter (sys_ws s ! i)) = Some (c, f)" by (auto split: bind_splits)
  obtain s1 where s1: "(if d \<noteq> [] then Write i d s else Some ((0, None), s)) = Some ((length d, None), s1)"
    "i < length (sys_ws s1)" "\<not> lw_closed (sys_ws s1 ! i)" "lw_filter (sys_ws s1 ! i) = f" "lw_print (sys_ws s1 ! i) = Some pr"
    "lw_commitOnClose (sys_ws s1 ! i)" "sys_out s1 = sys_out s @ map (Pair pr) c"
    using feed [OF Nil(1,2) w Nil(3)] Nil(1,4) by metis
  obtain s2 where s2: "Close i s1 = (None, s2)" "sys_ws s2 = (sys_ws s1)[i := (sys_ws s1 ! i)\<lparr>lw_closed := True, lw_filter := lf_reset f\<rparr>]"
    "sys_out s2 = sys_out s1 @ (if lf_line f \<noteq> [] then [(pr, lf_line f)] else [])"
    using Close_open [OF s1(2) refl s1(3)] s1(4,5,6) by auto
  show ?case using s1 s2 by (simp del: if_split)
next
  case (Cons b ds)
  obtain c1 g c2 where w: "lf_write b (lw_filter (sys_ws s ! i)) = Some (c1, g)" "writes lf_write (ds @ [d]) g = Some (c2, f)" "c = c1 @ c2"
    using Cons.prems(5) by (auto split: bind_splits)
  obtain s1 where s1: "(if b \<noteq> [] then Write i b s else Some ((0, None), s)) = Some ((length b, None), s1)"
    "i < length (sys_ws s1)" "\<not> lw_closed (sys_ws s1 ! i)" "lw_filter (sys_ws s1 ! i) = g" "lw_print (sys_ws s1 ! i) = Some pr"
    "lw_commitOnClose (sys_ws s1 ! i)" "sys_out s1 = sys_out s @ map (Pair pr) c1"
    using feed [OF Cons.prems(1,2) w(1) Cons.prems(3)] Cons.prems(1,4) by metis
  have "ReadFrom i (map (\<lambda>d. (d, None)) (b # ds) @ [(d, Some e)]) n s = ReadFrom i (map (\<lambda>d. (d, None)) ds @ [(d, Some e)]) (n + length b) s1"
    using s1(1) by simp
  then show ?case using Cons.IH [OF s1(2,3,5,6), of c2 "n + length b"] w s1 by (auto simp: add.assoc)
qed

end
