(* ===== verification/CondaVersion.thy ===== *)
theory CondaVersion
  imports GoStrings "HOL-Library.Char_ord" "HOL-Library.List_Lexorder"
begin

text \<open>
  Conda versions (\<open>x/tool/conda/version.go\<close>): parsing, the order, and the prefix test. Version
  strings are ASCII. Numbers are Go's 64-bit \<open>int\<close>, with its wrap-around (\<open>wrap64\<close>).
\<close>

section \<open>Atoms\<close>

datatype conda_error = ErrInvalidVersion | ErrInvalidRef | ErrEmptyRef | ErrNoBuild | IndexPanic

datatype atom_kind = AtomString | AtomNumber | AtomPost

record atom =
  a_kind :: atom_kind
  a_num :: int
  a_str :: string

definition fillAtom :: atom where
  "fillAtom = \<lparr>a_kind = AtomNumber, a_num = 0, a_str = []\<rparr>"

definition atom_equal :: "atom \<Rightarrow> atom \<Rightarrow> bool" where
  "atom_equal a b \<longleftrightarrow>
     a_kind a = a_kind b \<and>
     (case a_kind a of AtomNumber \<Rightarrow> a_num a = a_num b | AtomString \<Rightarrow> a_str a = a_str b | AtomPost \<Rightarrow> True)"

definition atom_rank :: "atom \<Rightarrow> nat" where
  "atom_rank a = (case a_kind a of AtomString \<Rightarrow> 0 | AtomNumber \<Rightarrow> 1 | AtomPost \<Rightarrow> 2)"

definition atom_less :: "atom \<Rightarrow> atom \<Rightarrow> bool" where
  "atom_less a b \<longleftrightarrow>
     (if atom_equal a b then False
      else if atom_rank a \<noteq> atom_rank b then atom_rank a < atom_rank b
      else (case a_kind a of AtomString \<Rightarrow> a_str a < a_str b | AtomNumber \<Rightarrow> a_num a < a_num b | AtomPost \<Rightarrow> False))"

section \<open>Parsing\<close>

definition wrap64 :: "int \<Rightarrow> int" where
  "wrap64 x = (x + 2 ^ 63) mod 2 ^ 64 - 2 ^ 63"

definition is_digit :: "char \<Rightarrow> bool" where
  "is_digit c \<longleftrightarrow> 48 \<le> (of_char c :: nat) \<and> (of_char c :: nat) \<le> 57"

definition Digits :: "string \<Rightarrow> bool" where
  "Digits s \<longleftrightarrow> s \<noteq> [] \<and> list_all is_digit s"

definition digit_step :: "char \<Rightarrow> int \<Rightarrow> int" where
  "digit_step c n = wrap64 (n * 10 + (int (of_char c) - 48))"

definition digits_num :: "string \<Rightarrow> int" where
  "digits_num s = fold digit_step s 0"

definition parseAtom :: "string \<Rightarrow> atom" where
  "parseAtom piece =
     (if piece = ''post'' then \<lparr>a_kind = AtomPost, a_num = 0, a_str = []\<rparr>
      else if piece = ''dev'' then \<lparr>a_kind = AtomString, a_num = 0, a_str = ''DEV''\<rparr>
      else if Digits piece then \<lparr>a_kind = AtomNumber, a_num = digits_num piece, a_str = []\<rparr>
      else \<lparr>a_kind = AtomString, a_num = 0, a_str = piece\<rparr>)"

text \<open>\<open>versionCheckRe\<close>, and \<open>versionSplitRe\<close>: the maximal runs of digits, of stars and of other bytes.\<close>

definition version_char :: "char \<Rightarrow> bool" where
  "version_char c \<longleftrightarrow>
     c \<in> {CHR ''*'', CHR ''.'', CHR ''+'', CHR ''!'', CHR ''_''} \<or> is_digit c \<or> 97 \<le> (of_char c :: nat) \<and> (of_char c :: nat) \<le> 122"

definition versionCheck :: "string \<Rightarrow> bool" where
  "versionCheck s \<longleftrightarrow> s \<noteq> [] \<and> list_all version_char s"

definition char_class :: "char \<Rightarrow> nat" where
  "char_class c = (if is_digit c then 0 else if c = CHR ''*'' then 1 else 2)"

function version_pieces :: "string \<Rightarrow> string list" where
  "version_pieces [] = []"
| "version_pieces (c # cs) =
     (c # takeWhile (\<lambda>d. char_class d = char_class c) cs) #
     version_pieces (dropWhile (\<lambda>d. char_class d = char_class c) cs)"
  by pat_completeness auto

termination
  by (relation "measure length") (auto simp: le_imp_less_Suc length_dropWhile_le)

fun splitComponents :: "string list \<Rightarrow> conda_error + atom list list" where
  "splitComponents [] = Inr []"
| "splitComponents (segment # segments) =
     (if segment = [] then Inl ErrInvalidVersion
      else
        (let atoms = map parseAtom (version_pieces segment);
             atoms' = (if \<not> is_digit (hd segment) then fillAtom # atoms else atoms)
         in bind_result (splitComponents segments) (\<lambda>out. Inr (atoms' # out))))"

definition splitVersion :: "string \<Rightarrow> conda_error + atom list list" where
  "splitVersion version =
     (if version = [] then Inl ErrInvalidVersion
      else if has_suffix version ''_'' then
        (let segments = split_on (CHR ''.'') (replace_char (CHR ''_'') (CHR ''.'') (butlast version))
         in if segments = [] \<or> hd segments = [] then Inl ErrInvalidVersion
            else splitComponents (butlast segments @ [last segments @ ''_'']))
      else splitComponents (split_on (CHR ''.'') (replace_char (CHR ''_'') (CHR ''.'') version)))"

definition splitLocal :: "string \<Rightarrow> conda_error + (string \<times> string list)" where
  "splitLocal version =
     (case split_on (CHR ''+'') version of
        [a] \<Rightarrow> Inr (a, [])
      | [a, b] \<Rightarrow>
          (if a = [] then Inl ErrInvalidVersion
           else Inr (a, split_on (CHR ''.'') (replace_char (CHR ''_'') (CHR ''.'') b)))
      | _ \<Rightarrow> Inl ErrInvalidVersion)"

definition splitEpoch :: "string \<Rightarrow> conda_error + (atom \<times> string)" where
  "splitEpoch version =
     (case split_on (CHR ''!'') version of
        [a] \<Rightarrow> Inr (\<lparr>a_kind = AtomNumber, a_num = 0, a_str = []\<rparr>, a)
      | [a, b] \<Rightarrow>
          (if a = [] \<or> \<not> is_digit (hd a) \<or> \<not> Digits a then Inl ErrInvalidVersion
           else Inr (\<lparr>a_kind = AtomNumber, a_num = digits_num a, a_str = []\<rparr>, b))
      | _ \<Rightarrow> Inl ErrInvalidVersion)"

record condaVersion =
  cv_original :: string
  cv_parts :: "atom list list"
  cv_local :: "atom list list"

definition parse_checked :: "string \<Rightarrow> conda_error + condaVersion" where
  "parse_checked version =
     bind_result (splitEpoch version) (\<lambda>(epoch, rest).
     bind_result (splitLocal rest) (\<lambda>(main, local).
     bind_result (splitVersion main) (\<lambda>parts.
     bind_result (splitComponents local) (\<lambda>localParts.
       Inr \<lparr>cv_original = version, cv_parts = [epoch] # parts, cv_local = localParts\<rparr>))))"

definition parseCondaVersion :: "string \<Rightarrow> conda_error + condaVersion" where
  "parseCondaVersion raw =
     (let version = ToLower (TrimSpace raw) in
      if version = [] then Inl ErrInvalidVersion
      else
        (let version' = (if \<not> versionCheck version \<and> CHR ''-'' \<in> set version \<and> CHR ''_'' \<notin> set version
                         then replace_char (CHR ''-'') (CHR ''_'') version else version)
         in if \<not> versionCheck version' then Inl ErrInvalidVersion else parse_checked version'))"

section \<open>Comparing\<close>

definition compare_atom :: "atom \<Rightarrow> atom \<Rightarrow> int" where
  "compare_atom c1 c2 = (if atom_equal c1 c2 then 0 else if atom_less c1 c2 then -1 else 1)"

text \<open>The two loops of \<open>compareParts\<close>; a missing atom is \<open>fillAtom\<close>, a missing component has no atoms.\<close>

fun compare_comps :: "atom list \<Rightarrow> atom list \<Rightarrow> int" where
  "compare_comps [] [] = 0"
| "compare_comps (a # as) [] = (let c = compare_atom a fillAtom in if c \<noteq> 0 then c else compare_comps as [])"
| "compare_comps [] (b # bs) = (let c = compare_atom fillAtom b in if c \<noteq> 0 then c else compare_comps [] bs)"
| "compare_comps (a # as) (b # bs) = (let c = compare_atom a b in if c \<noteq> 0 then c else compare_comps as bs)"

fun compareParts :: "atom list list \<Rightarrow> atom list list \<Rightarrow> int" where
  "compareParts [] [] = 0"
| "compareParts (a # as) [] = (let c = compare_comps a [] in if c \<noteq> 0 then c else compareParts as [])"
| "compareParts [] (b # bs) = (let c = compare_comps [] b in if c \<noteq> 0 then c else compareParts [] bs)"
| "compareParts (a # as) (b # bs) = (let c = compare_comps a b in if c \<noteq> 0 then c else compareParts as bs)"

definition compare :: "condaVersion \<Rightarrow> condaVersion \<Rightarrow> int" where
  "compare v w =
     (let c = compareParts (cv_parts v) (cv_parts w) in
      if c \<noteq> 0 then c else compareParts (cv_local v) (cv_local w))"

definition version_equal :: "condaVersion \<Rightarrow> condaVersion \<Rightarrow> bool" where
  "version_equal v w \<longleftrightarrow> compare v w = 0"

definition compareVersions :: "string \<Rightarrow> string \<Rightarrow> conda_error + int" where
  "compareVersions left right =
     bind_result (parseCondaVersion left) (\<lambda>a.
     bind_result (parseCondaVersion right) (\<lambda>b. Inr (compare a b)))"

section \<open>Prefixes\<close>

definition prefixParts :: "atom list list \<Rightarrow> nat \<Rightarrow> atom list list" where
  "prefixParts parts n = (if n = 0 then [] else if n > length parts then parts else take n parts)"

definition partsEqual :: "atom list list \<Rightarrow> atom list list \<Rightarrow> bool" where
  "partsEqual l r \<longleftrightarrow> compareParts l r = 0"

definition componentPrefixEqual :: "atom list \<Rightarrow> atom list \<Rightarrow> nat \<Rightarrow> bool" where
  "componentPrefixEqual l r n \<longleftrightarrow>
     (if n = 0 then True
      else
        (let l' = (if n < length l then take n l else l); r' = (if n < length r then take n r else r)
         in compareParts [l'] [r'] = 0))"

definition prefix_tail :: "atom list list \<Rightarrow> atom list list \<Rightarrow> bool" where
  "prefix_tail left right \<longleftrightarrow>
     (if right = [] then False
      else
        (let cut = length right - 1 in
         if \<not> partsEqual (prefixParts left cut) (prefixParts right cut) then False
         else
           (let head = (if length left > cut then left ! cut else []); tail = right ! cut in
            if tail = [] then False
            else
              (let inner = length tail - 1 in
               if \<not> componentPrefixEqual head tail inner then False
               else
                 (let c1 = (if length head > inner then head ! inner else fillAtom); c2 = tail ! inner in
                  if a_kind c2 = AtomString then a_kind c1 = AtomString \<and> has_prefix (a_str c1) (a_str c2)
                  else atom_equal c1 c2)))))"

definition hasPrefix :: "condaVersion \<Rightarrow> condaVersion \<Rightarrow> bool" where
  "hasPrefix v other \<longleftrightarrow>
     (if cv_local other \<noteq> [] then
        (if \<not> partsEqual (cv_parts v) (cv_parts other) then False
         else prefix_tail (cv_local v) (cv_local other))
      else prefix_tail (cv_parts v) (cv_parts other))"

section \<open>Three-way comparison\<close>

text \<open>
  A comparison that returns \<open>-1\<close>, \<open>0\<close> or \<open>1\<close> and is a total preorder. Comparing lists position by
  position, with a default for the positions one of them lacks, gives another one.
\<close>

lemma all_nat_split: "(\<forall>i. P i) \<longleftrightarrow> P 0 \<and> (\<forall>i. P (Suc i))"
  by (metis not0_implies_Suc)

locale three_way =
  fixes cmp :: "'a \<Rightarrow> 'a \<Rightarrow> int"
  assumes range: "cmp x y \<in> {-1, 0, 1}"
    and anti: "cmp y x = - cmp x y"
    and le_trans: "cmp x y \<le> 0 \<Longrightarrow> cmp y z \<le> 0 \<Longrightarrow> cmp x z \<le> 0"
begin

lemma refl: "cmp x x = 0"
  using anti [of x x] by simp

lemma eq_trans: "cmp x y = 0 \<Longrightarrow> cmp y z = 0 \<Longrightarrow> cmp x z = 0"
  using le_trans [of x y z] le_trans [of z y x] anti [of x y] anti [of y z] anti [of x z] by linarith

lemma eq_left: "cmp x y = 0 \<Longrightarrow> cmp x z = cmp y z"
proof -
  assume e: "cmp x y = 0"
  have "cmp x z \<le> 0 \<longleftrightarrow> cmp y z \<le> 0" using le_trans [of x y z] le_trans [of y x z] e anti [of x y] by auto
  moreover have "cmp z x \<le> 0 \<longleftrightarrow> cmp z y \<le> 0" using le_trans [of z x y] le_trans [of z y x] e anti [of x y] by auto
  ultimately show ?thesis using range [of x z] range [of y z] anti [of x z] anti [of y z] by auto
qed

lemma eq_right: "cmp x y = 0 \<Longrightarrow> cmp z x = cmp z y"
  using eq_left [of x y z] anti [of x z] anti [of y z] by simp

lemma less_le_trans: "cmp x y < 0 \<Longrightarrow> cmp y z \<le> 0 \<Longrightarrow> cmp x z < 0"
  using le_trans [of x y z] eq_trans [of y x z] eq_left [of x z y] anti [of x y] anti [of y z] by (cases "cmp x z = 0") auto

lemma le_less_trans: "cmp x y \<le> 0 \<Longrightarrow> cmp y z < 0 \<Longrightarrow> cmp x z < 0"
  using le_trans [of x y z] eq_right [of x z y] anti [of x y] by (cases "cmp x z = 0") auto

end

fun lex_cmp :: "('a \<Rightarrow> 'a \<Rightarrow> int) \<Rightarrow> 'a \<Rightarrow> 'a list \<Rightarrow> 'a list \<Rightarrow> int" where
  "lex_cmp cmp d [] [] = 0"
| "lex_cmp cmp d (x # xs) [] = (let c = cmp x d in if c \<noteq> 0 then c else lex_cmp cmp d xs [])"
| "lex_cmp cmp d [] (y # ys) = (let c = cmp d y in if c \<noteq> 0 then c else lex_cmp cmp d [] ys)"
| "lex_cmp cmp d (x # xs) (y # ys) = (let c = cmp x y in if c \<noteq> 0 then c else lex_cmp cmp d xs ys)"

lemma compare_comps_lex: "compare_comps = lex_cmp compare_atom fillAtom"
proof (intro ext)
  show "compare_comps l r = lex_cmp compare_atom fillAtom l r" for l r
    by (induction l r rule: compare_comps.induct) (auto simp: Let_def)
qed

lemma compareParts_lex: "compareParts = lex_cmp compare_comps []"
proof (intro ext)
  show "compareParts l r = lex_cmp compare_comps [] l r" for l r
    by (induction l r rule: compareParts.induct) (auto simp: Let_def)
qed

definition hd_or :: "'a \<Rightarrow> 'a list \<Rightarrow> 'a" where
  "hd_or d xs = (case xs of [] \<Rightarrow> d | x # _ \<Rightarrow> x)"

lemma hd_or_simps [simp]: "hd_or d [] = d" "hd_or d (x # xs) = x"
  by (simp_all add: hd_or_def)

definition nth_or :: "'a \<Rightarrow> 'a list \<Rightarrow> nat \<Rightarrow> 'a" where
  "nth_or d xs i = (if i < length xs then xs ! i else d)"

lemma nth_or_simps [simp]: "nth_or d [] i = d" "nth_or d (x # xs) 0 = x" "nth_or d (x # xs) (Suc i) = nth_or d xs i"
  by (simp_all add: nth_or_def)

context three_way
begin

lemma lex_unfold: "lex_cmp cmp d xs ys = (let c = cmp (hd_or d xs) (hd_or d ys) in if c \<noteq> 0 then c else lex_cmp cmp d (tl xs) (tl ys))"
  by (cases xs; cases ys) (simp_all add: refl Let_def)

lemma lex_anti: "lex_cmp cmp d ys xs = - lex_cmp cmp d xs ys"
proof (induction "length xs + length ys" arbitrary: xs ys rule: less_induct)
  case less
  show ?case
  proof (cases "xs = [] \<and> ys = []")
    case False
    then have "length (tl xs) + length (tl ys) < length xs + length ys" by (cases xs; cases ys) auto
    then have "lex_cmp cmp d (tl ys) (tl xs) = - lex_cmp cmp d (tl xs) (tl ys)" by (rule less)
    then show ?thesis using anti [of "hd_or d ys" "hd_or d xs"] by (subst (1 2) lex_unfold) (simp add: Let_def)
  qed simp
qed

lemma lex_trans: "lex_cmp cmp d xs ys \<le> 0 \<Longrightarrow> lex_cmp cmp d ys zs \<le> 0 \<Longrightarrow> lex_cmp cmp d xs zs \<le> 0"
proof (induction "length xs + length ys + length zs" arbitrary: xs ys zs rule: less_induct)
  case less
  let ?x = "hd_or d xs" and ?y = "hd_or d ys" and ?z = "hd_or d zs"
  show ?case
  proof (cases "xs = [] \<and> ys = [] \<and> zs = []")
    case False
    then have len: "length (tl xs) + length (tl ys) + length (tl zs) < length xs + length ys + length zs"
      by (cases xs; cases ys; cases zs) auto
    have c: "cmp ?x ?y \<le> 0" "cmp ?y ?z \<le> 0"
      using less.prems lex_unfold [of d xs ys] lex_unfold [of d ys zs] by (auto simp: Let_def split: if_splits)
    show ?thesis
    proof (cases "cmp ?x ?y = 0 \<and> cmp ?y ?z = 0")
      case True
      then have "lex_cmp cmp d (tl xs) (tl zs) \<le> 0"
        using less.prems less.hyps [OF len] by (simp add: lex_unfold [of d xs ys] lex_unfold [of d ys zs])
      then show ?thesis using eq_trans [of ?x ?y ?z] True by (simp add: lex_unfold [of d xs zs])
    next
      case False
      then have "cmp ?x ?z < 0" using c less_le_trans [of ?x ?y ?z] le_less_trans [of ?x ?y ?z] by (cases "cmp ?x ?y = 0") auto
      then show ?thesis by (simp add: lex_unfold [of d xs zs] Let_def)
    qed
  qed simp
qed

lemma lex_range: "lex_cmp cmp d xs ys \<in> {-1, 0, 1}"
proof (induction "length xs + length ys" arbitrary: xs ys rule: less_induct)
  case less
  show ?case
  proof (cases "xs = [] \<and> ys = []")
    case False
    then have "length (tl xs) + length (tl ys) < length xs + length ys" by (cases xs; cases ys) auto
    then have IH: "lex_cmp cmp d (tl xs) (tl ys) \<in> {-1, 0, 1}" by (rule less)
    show ?thesis unfolding lex_unfold [of d xs ys] using IH range [of "hd_or d xs" "hd_or d ys"] by (auto simp: Let_def)
  qed simp
qed

lemma lex_three_way: "three_way (lex_cmp cmp d)"
  by (unfold_locales) (use lex_range lex_anti lex_trans in blast)+

text \<open>Two lists compare equal when they do at every position.\<close>

lemma lex_eq_iff: "lex_cmp cmp d xs ys = 0 \<longleftrightarrow> (\<forall>i. cmp (nth_or d xs i) (nth_or d ys i) = 0)"
proof (induction "length xs + length ys" arbitrary: xs ys rule: less_induct)
  case less
  show ?case
  proof (cases "xs = [] \<and> ys = []")
    case False
    then have "length (tl xs) + length (tl ys) < length xs + length ys" by (cases xs; cases ys) auto
    then have IH: "lex_cmp cmp d (tl xs) (tl ys) = 0 \<longleftrightarrow> (\<forall>i. cmp (nth_or d (tl xs) i) (nth_or d (tl ys) i) = 0)" by (rule less)
    have h: "nth_or d zs 0 = hd_or d zs" "nth_or d zs (Suc i) = nth_or d (tl zs) i" for zs i by (cases zs; simp)+
    show ?thesis
      unfolding lex_unfold [of d xs ys] using IH by (subst all_nat_split [of "\<lambda>i. cmp (nth_or d xs i) (nth_or d ys i) = 0"]) (simp add: h Let_def)
  qed (simp add: refl)
qed

end

section \<open>The order of versions\<close>

text \<open>What an atom is compared by: strings come before numbers, and \<open>post\<close> after both.\<close>

datatype atom_key = KStr string | KNum int | KPost

instantiation atom_key :: linorder
begin

fun less_atom_key :: "atom_key \<Rightarrow> atom_key \<Rightarrow> bool" where
  "less_atom_key (KStr s) (KStr t) \<longleftrightarrow> s < t"
| "less_atom_key (KStr s) _ \<longleftrightarrow> True"
| "less_atom_key (KNum m) (KNum n) \<longleftrightarrow> m < n"
| "less_atom_key (KNum m) KPost \<longleftrightarrow> True"
| "less_atom_key _ _ \<longleftrightarrow> False"

definition less_eq_atom_key :: "atom_key \<Rightarrow> atom_key \<Rightarrow> bool" where
  "less_eq_atom_key a b \<longleftrightarrow> a < b \<or> a = b"

instance
proof
  fix x y z :: atom_key
  show "x < y \<longleftrightarrow> x \<le> y \<and> \<not> y \<le> x" by (cases x; cases y) (auto simp: less_eq_atom_key_def)
  show "x \<le> x" by (simp add: less_eq_atom_key_def)
  show "x \<le> y \<Longrightarrow> y \<le> z \<Longrightarrow> x \<le> z" by (cases x; cases y; cases z) (auto simp: less_eq_atom_key_def)
  show "x \<le> y \<Longrightarrow> y \<le> x \<Longrightarrow> x = y" by (cases x; cases y) (auto simp: less_eq_atom_key_def)
  show "x \<le> y \<or> y \<le> x" by (cases x; cases y) (auto simp: less_eq_atom_key_def)
qed

end

definition key_of :: "atom \<Rightarrow> atom_key" where
  "key_of a = (case a_kind a of AtomString \<Rightarrow> KStr (a_str a) | AtomNumber \<Rightarrow> KNum (a_num a) | AtomPost \<Rightarrow> KPost)"

lemma atom_equal_key: "atom_equal a b \<longleftrightarrow> key_of a = key_of b"
  by (cases "a_kind a"; cases "a_kind b") (auto simp: atom_equal_def key_of_def)

lemma atom_less_key: "atom_less a b \<longleftrightarrow> key_of a < key_of b"
  by (cases "a_kind a"; cases "a_kind b") (auto simp: atom_less_def atom_equal_def atom_rank_def key_of_def)

lemma compare_atom_key: "compare_atom a b = (if key_of a = key_of b then 0 else if key_of a < key_of b then -1 else 1)"
  by (simp add: compare_atom_def atom_equal_key atom_less_key)

interpretation atoms: three_way compare_atom
  by unfold_locales (auto simp: compare_atom_key split: if_splits)

interpretation comps: three_way compare_comps
  unfolding compare_comps_lex by (rule atoms.lex_three_way)

interpretation parts: three_way compareParts
  unfolding compareParts_lex by (rule comps.lex_three_way)

interpretation versions: three_way compare
proof
  fix v w x
  show "compare v w \<in> {-1, 0, 1}"
    using parts.range [of "cv_parts v" "cv_parts w"] parts.range [of "cv_local v" "cv_local w"] by (auto simp: compare_def Let_def)
  show "compare w v = - compare v w"
    using parts.anti [of "cv_parts w" "cv_parts v"] parts.anti [of "cv_local w" "cv_local v"] by (auto simp: compare_def Let_def)
  assume a: "compare v w \<le> 0" "compare w x \<le> 0"
  let ?p = "\<lambda>v w. compareParts (cv_parts v) (cv_parts w)" and ?l = "\<lambda>v w. compareParts (cv_local v) (cv_local w)"
  have p: "?p v w \<le> 0" "?p w x \<le> 0" using a by (auto simp: compare_def Let_def split: if_splits)
  show "compare v x \<le> 0"
  proof (cases "?p v w = 0 \<and> ?p w x = 0")
    case True
    then have "?l v w \<le> 0" "?l w x \<le> 0" using a by (auto simp: compare_def)
    then have "?l v x \<le> 0" by (rule parts.le_trans)
    then show ?thesis using True parts.eq_trans [of "cv_parts v" "cv_parts w" "cv_parts x"] by (simp add: compare_def)
  next
    case False
    then have "?p v x < 0"
      using p parts.less_le_trans [of "cv_parts v" "cv_parts w" "cv_parts x"] parts.le_less_trans [of "cv_parts v" "cv_parts w" "cv_parts x"]
      by (cases "?p v w = 0") auto
    then show ?thesis by (simp add: compare_def Let_def)
  qed
qed

text \<open>The atom at a position of a version, filled up with zeros.\<close>

definition atom_at :: "atom list list \<Rightarrow> nat \<Rightarrow> nat \<Rightarrow> atom_key" where
  "atom_at ps i j = key_of (nth_or fillAtom (nth_or [] ps i) j)"

lemma compare_comps_eq_iff: "compare_comps a b = 0 \<longleftrightarrow> (\<forall>j. key_of (nth_or fillAtom a j) = key_of (nth_or fillAtom b j))"
  unfolding compare_comps_lex atoms.lex_eq_iff by (simp add: compare_atom_key)

lemma compareParts_eq_iff: "compareParts ps qs = 0 \<longleftrightarrow> (\<forall>i j. atom_at ps i j = atom_at qs i j)"
  unfolding compareParts_lex comps.lex_eq_iff compare_comps_eq_iff atom_at_def ..

section \<open>Dotted decimal versions\<close>

text \<open>
  A version written as decimal numbers with dots between them is read back as those numbers, as long
  as they fit a 64-bit \<open>int\<close>, and two of them are ordered by their first difference, a missing number
  being zero.
\<close>

fun dec :: "nat \<Rightarrow> string" where
  "dec n = (if n < 10 then [char_of (48 + n)] else dec (n div 10) @ [char_of (48 + n mod 10)])"

declare dec.simps [simp del]

definition dotted :: "nat list \<Rightarrow> string" where
  "dotted ns = join_with (CHR ''.'') (map dec ns)"

definition num_cmp :: "nat \<Rightarrow> nat \<Rightarrow> int" where
  "num_cmp a b = (if a = b then 0 else if a < b then -1 else 1)"

definition dotted_cmp :: "nat list \<Rightarrow> nat list \<Rightarrow> int" where
  "dotted_cmp = lex_cmp num_cmp 0"

definition num_atom :: "nat \<Rightarrow> atom" where
  "num_atom n = \<lparr>a_kind = AtomNumber, a_num = int n, a_str = []\<rparr>"

lemma digit_char: "d < 10 \<Longrightarrow> of_char (char_of (48 + d) :: char) = (48 + d :: nat)"
  by simp

lemma is_digit_char [simp]: "(d :: nat) < 10 \<Longrightarrow> is_digit (char_of (48 + d))"
  by (simp add: is_digit_def)

lemma dec_digits: "Digits (dec n)"
proof (induction n rule: dec.induct)
  case (1 n)
  show ?case
  proof (cases "n < 10")
    case True
    then show ?thesis by (simp add: dec.simps [of n] Digits_def)
  next
    case False
    then show ?thesis using 1 by (simp add: dec.simps [of n] Digits_def)
  qed
qed

lemma wrap64_id: "0 \<le> x \<Longrightarrow> x < 2 ^ 63 \<Longrightarrow> wrap64 x = x"
  by (simp add: wrap64_def)

lemma digits_num_dec: "n < 2 ^ 63 \<Longrightarrow> digits_num (dec n) = int n"
proof (induction n rule: dec.induct)
  case (1 n)
  show ?case
  proof (cases "n < 10")
    case True
    then show ?thesis by (simp add: dec.simps [of n] digits_num_def digit_step_def wrap64_id)
  next
    case False
    have "digits_num (dec (n div 10)) = int (n div 10)" using 1 False by simp
    moreover have "int (n div 10) * 10 + int (n mod 10) = int n" by presburger
    ultimately show ?thesis using False 1(2) by (simp add: dec.simps [of n] digits_num_def digit_step_def wrap64_id)
  qed
qed

lemma pieces_digits: "Digits s \<Longrightarrow> version_pieces s = [s]"
proof (cases s)
  case (Cons c cs)
  assume "Digits s"
  then have "\<forall>d \<in> set (c # cs). char_class d = 0" by (simp add: Cons Digits_def list_all_iff char_class_def)
  then have t: "takeWhile (\<lambda>d. char_class d = char_class c) cs = cs" "dropWhile (\<lambda>d. char_class d = char_class c) cs = []" by auto
  show ?thesis unfolding Cons version_pieces.simps t by simp
qed (simp add: Digits_def)

lemma parseAtom_dec: "n < 2 ^ 63 \<Longrightarrow> parseAtom (dec n) = num_atom n"
proof -
  assume "n < 2 ^ 63"
  moreover have "dec n \<noteq> ''post''" "dec n \<noteq> ''dev''" using dec_digits [of n] by (auto simp: Digits_def is_digit_def)
  ultimately show ?thesis using dec_digits [of n] by (simp add: parseAtom_def digits_num_dec num_atom_def)
qed

lemma components_dec:
  "\<forall>n \<in> set ns. n < 2 ^ 63 \<Longrightarrow> splitComponents (map dec ns) = Inr (map (\<lambda>n. [num_atom n]) ns)"
proof (induction ns)
  case (Cons n ns)
  moreover have "dec n \<noteq> []" "is_digit (hd (dec n))" using dec_digits [of n] by (cases "dec n"; simp add: Digits_def)+
  ultimately show ?case using pieces_digits [OF dec_digits, of n] by (simp add: parseAtom_dec)
qed simp

lemma dotted_chars: "c \<in> set (dotted ns) \<Longrightarrow> c = CHR ''.'' \<or> is_digit c"
proof (induction ns)
  case (Cons n ns)
  have "c \<in> set (dec n) \<Longrightarrow> is_digit c" using dec_digits [of n] by (auto simp: Digits_def list_all_iff)
  then show ?case using Cons by (cases ns) (auto simp: dotted_def)
qed (simp add: dotted_def)

lemma dotted_plain: "\<not> is_digit c \<Longrightarrow> c \<noteq> CHR ''.'' \<Longrightarrow> c \<notin> set (dotted ns)"
  using dotted_chars by blast

lemma map_plain: "(\<And>c. c \<in> set s \<Longrightarrow> f c = c) \<Longrightarrow> map f s = s"
  by (simp add: map_idI)

lemma dotted_not_space: "c \<in> set (dotted ns) \<Longrightarrow> \<not> is_space c"
  using dotted_chars [of c ns] by (auto simp: is_space_def is_digit_def Let_def)

lemma TrimSpace_plain: "(\<And>c. c \<in> set s \<Longrightarrow> \<not> is_space c) \<Longrightarrow> TrimSpace s = s"
proof -
  assume a: "\<And>c. c \<in> set s \<Longrightarrow> \<not> is_space c"
  have "dropWhile is_space s = s" by (cases s) (simp_all add: a)
  moreover have "dropWhile is_space (rev s) = rev s"
  proof (cases "rev s")
    case (Cons c cs)
    then have "c \<in> set s" by (metis list.set_intros(1) set_rev)
    then show ?thesis using a Cons by simp
  qed simp
  ultimately show ?thesis by (simp add: TrimSpace_def)
qed

lemma lower_plain: "is_digit c \<or> c = CHR ''.'' \<Longrightarrow> lower c = c"
  by (auto simp: lower_def is_digit_def)

lemma dotted_lower: "ToLower (TrimSpace (dotted ns)) = dotted ns"
  using TrimSpace_plain [of "dotted ns"] dotted_not_space dotted_chars [of _ ns]
  by (auto simp: ToLower_def intro!: map_idI lower_plain)

lemma dotted_nonempty [simp]: "ns \<noteq> [] \<Longrightarrow> dotted ns \<noteq> []"
proof (cases ns)
  case (Cons n ms)
  then show ?thesis using dec_digits [of n] by (cases ms) (auto simp: dotted_def Digits_def)
qed simp

lemma dotted_check: "ns \<noteq> [] \<Longrightarrow> versionCheck (dotted ns)"
  using dotted_chars [of _ ns] by (auto simp: versionCheck_def version_char_def list_all_iff)

lemma dotted_replace: "replace_char (CHR ''_'') (CHR ''.'') (dotted ns) = dotted ns"
proof -
  have "CHR ''_'' \<notin> set (dotted ns)" by (rule dotted_plain) (simp_all add: is_digit_def)
  then show ?thesis by (auto simp: replace_char_def intro!: map_idI)
qed

lemma dotted_split: "ns \<noteq> [] \<Longrightarrow> split_on (CHR ''.'') (dotted ns) = map dec ns"
proof -
  assume "ns \<noteq> []"
  moreover have "CHR ''.'' \<notin> set (dec n)" for n using dec_digits [of n] by (auto simp: Digits_def list_all_iff is_digit_def)
  ultimately show ?thesis by (simp add: dotted_def split_join)
qed

lemma not_suffix: "c \<notin> set s \<Longrightarrow> \<not> has_suffix s [c]"
  unfolding has_suffix_def by (metis in_set_dropD list.set_intros(1))

definition dotted_version :: "nat list \<Rightarrow> condaVersion" where
  "dotted_version ns =
     \<lparr>cv_original = dotted ns, cv_parts = [num_atom 0] # map (\<lambda>n. [num_atom n]) ns, cv_local = []\<rparr>"

lemma splitVersion_dotted:
  assumes "ns \<noteq> []" and "\<forall>n \<in> set ns. n < 2 ^ 63"
  shows "splitVersion (dotted ns) = Inr (map (\<lambda>n. [num_atom n]) ns)"
proof -
  have "\<not> has_suffix (dotted ns) ''_''" by (rule not_suffix, rule dotted_plain) (simp_all add: is_digit_def)
  then show ?thesis using assms by (simp add: splitVersion_def dotted_replace dotted_split components_dec)
qed

lemma parse_dotted:
  assumes "ns \<noteq> []" and "\<forall>n \<in> set ns. n < 2 ^ 63"
  shows "parseCondaVersion (dotted ns) = Inr (dotted_version ns)"
proof -
  have "split_on (CHR ''!'') (dotted ns) = [dotted ns]" "split_on (CHR ''+'') (dotted ns) = [dotted ns]"
    by (rule split_on_plain, rule dotted_plain; simp add: is_digit_def)+
  then show ?thesis
    using assms dotted_check [OF assms(1)]
    by (simp add: parseCondaVersion_def dotted_lower parse_checked_def splitEpoch_def splitLocal_def splitVersion_dotted
        dotted_version_def num_atom_def)
qed

interpretation nums: three_way num_cmp
  by unfold_locales (auto simp: num_cmp_def split: if_splits)

lemma compare_num_atom: "compare_atom (num_atom a) (num_atom b) = num_cmp a b"
  by (simp add: compare_atom_key key_of_def num_atom_def num_cmp_def)

lemma fillAtom_num: "fillAtom = num_atom 0"
  by (simp add: fillAtom_def num_atom_def)

lemma compareParts_dotted:
  "compareParts (map (\<lambda>n. [num_atom n]) ns) (map (\<lambda>n. [num_atom n]) ms) = dotted_cmp ns ms"
  unfolding dotted_cmp_def
  by (induction num_cmp "0 :: nat" ns ms rule: lex_cmp.induct) (simp_all add: compare_num_atom fillAtom_num Let_def)

lemma compare_dotted: "compare (dotted_version ns) (dotted_version ms) = dotted_cmp ns ms"
  by (simp add: compare_def dotted_version_def compareParts_dotted compare_num_atom nums.refl Let_def)

lemma compareVersions_dotted:
  assumes "ns \<noteq> []" "ms \<noteq> []" and "\<forall>n \<in> set ns \<union> set ms. n < 2 ^ 63"
  shows "compareVersions (dotted ns) (dotted ms) = Inr (dotted_cmp ns ms)"
  using assms by (simp add: compareVersions_def parse_dotted compare_dotted)

text \<open>One dotted version has another as prefix when its first numbers, filled up with zeros, are those of the other.\<close>

definition dotted_prefix :: "nat list \<Rightarrow> nat list \<Rightarrow> bool" where
  "dotted_prefix ms ns \<longleftrightarrow> list_all (\<lambda>i. nth_or 0 ns i = ms ! i) [0..<length ms]"

lemma dotted_prefix_iff: "dotted_prefix ms ns \<longleftrightarrow> (\<forall>i < length ms. nth_or 0 ns i = ms ! i)"
  by (auto simp: dotted_prefix_def list_all_iff)

lemma prefixParts_take: "prefixParts ps n = take n ps"
  by (simp add: prefixParts_def)

lemma dotted_cmp_eq_iff: "dotted_cmp ns ms = 0 \<longleftrightarrow> (\<forall>i. nth_or 0 ns i = nth_or 0 ms i)"
  unfolding dotted_cmp_def nums.lex_eq_iff by (auto simp: num_cmp_def split: if_splits)

lemma dotted_cmp_take_eq:
  "dotted_cmp (take n ns) (take n ms) = 0 \<longleftrightarrow> (\<forall>i < n. nth_or 0 ns i = nth_or 0 ms i)"
  unfolding dotted_cmp_eq_iff by (auto simp: nth_or_def split: if_splits)

lemma hasPrefix_dotted: "hasPrefix (dotted_version ns) (dotted_version ms) \<longleftrightarrow> dotted_prefix ms ns"
proof -
  let ?f = "\<lambda>n. [num_atom n]"
  let ?n = "length ms"
  have parts: "cv_parts (dotted_version ks) = map ?f (0 # ks)" for ks by (simp add: dotted_version_def)
  have cut: "partsEqual (prefixParts (map ?f (0 # ns)) ?n) (prefixParts (map ?f (0 # ms)) ?n) \<longleftrightarrow>
      (\<forall>i < ?n. nth_or 0 (0 # ns) i = nth_or 0 (0 # ms) i)"
    unfolding prefixParts_take partsEqual_def take_map compareParts_dotted by (rule dotted_cmp_take_eq)
  have eq: "atom_equal (num_atom a) (num_atom b) \<longleftrightarrow> a = b" for a b by (simp add: atom_equal_def num_atom_def)
  have tail: "map ?f (0 # ms) ! ?n = [num_atom ((0 # ms) ! ?n)]" by (simp del: list.map add: nth_map)
  have kind: "a_kind (num_atom k) = AtomNumber" for k by (simp add: num_atom_def)
  have "hasPrefix (dotted_version ns) (dotted_version ms) \<longleftrightarrow> prefix_tail (map ?f (0 # ns)) (map ?f (0 # ms))"
    by (simp add: hasPrefix_def parts) (simp add: dotted_version_def)
  also have "\<dots> \<longleftrightarrow> (\<forall>i < ?n. nth_or 0 (0 # ns) i = nth_or 0 (0 # ms) i) \<and> nth_or 0 (0 # ns) ?n = (0 # ms) ! ?n"
    using cut nth_or_def [of 0 "0 # ns" ?n]
    by (simp add: prefix_tail_def Let_def tail componentPrefixEqual_def kind eq fillAtom_num del: list.map nth_Cons_Suc)
  also have "\<dots> \<longleftrightarrow> (\<forall>i < Suc ?n. nth_or 0 (0 # ns) i = (0 # ms) ! i)"
    by (auto simp: less_Suc_eq nth_or_def [of 0 "0 # ms"])
  also have "\<dots> \<longleftrightarrow> dotted_prefix ms ns" by (simp add: dotted_prefix_iff All_less_Suc2)
  finally show ?thesis .
qed

end
