(* ===== verification/CondaMatch.thy ===== *)
theory CondaMatch
  imports CondaVersion
begin

text \<open>
  Match specs (\<open>x/tool/conda/match.go\<close>): reading \<open>name version build\<close>, the version expressions and
  what they accept, and the globs on builds. \<open>re\<close> stands for \<open>regexp.Compile\<close> followed by
  \<open>MatchString\<close>: \<open>None\<close> is a pattern that does not compile. The patterns the package itself builds
  from globs (literals and \<open>.*\<close> between \<open>^\<close> and \<open>$\<close>) are read by \<open>compile\<close>, every other one is left
  to \<open>re\<close>. Strings are ASCII.
\<close>

section \<open>Regular expressions built from globs\<close>

definition meta_chars :: string where
  "meta_chars = ''.+?()|^$[]{}'' @ [CHR 0x5C]"

definition globToRegexp :: "string \<Rightarrow> string" where
  "globToRegexp pattern =
     concat (map (\<lambda>r. if r = CHR ''*'' then ''.*'' else if r \<in> set meta_chars then [CHR 0x5C, r] else [r]) pattern)"

datatype glob_item = Lit char | AnyText

fun regex_items :: "string \<Rightarrow> glob_item list option" where
  "regex_items [] = Some []"
| "regex_items [c] = (if c = CHR ''*'' \<or> c \<in> set meta_chars then None else Some [Lit c])"
| "regex_items (c # d # s) =
     (if c = CHR 0x5C then (if d \<in> set meta_chars then map_option ((#) (Lit d)) (regex_items s) else None)
      else if c = CHR ''.'' \<and> d = CHR ''*'' then map_option ((#) AnyText) (regex_items s)
      else if c = CHR ''*'' \<or> c \<in> set meta_chars then None
      else map_option ((#) (Lit c)) (regex_items (d # s)))"

fun items_match :: "glob_item list \<Rightarrow> string \<Rightarrow> bool" where
  "items_match [] s \<longleftrightarrow> s = []"
| "items_match (Lit c # is) [] \<longleftrightarrow> False"
| "items_match (Lit c # is) (d # s) \<longleftrightarrow> c = d \<and> items_match is s"
| "items_match (AnyText # is) [] \<longleftrightarrow> items_match is []"
| "items_match (AnyText # is) (d # s) \<longleftrightarrow> items_match is (d # s) \<or> d \<noteq> CHR 0x0A \<and> items_match (AnyText # is) s"

definition compile :: "(string \<Rightarrow> (string \<Rightarrow> bool) option) \<Rightarrow> string \<Rightarrow> (string \<Rightarrow> bool) option" where
  "compile re pat =
     (if length pat \<ge> 2 \<and> hd pat = CHR ''^'' \<and> last pat = CHR ''$'' then
        (case regex_items (butlast (tl pat)) of Some is \<Rightarrow> Some (items_match is) | None \<Rightarrow> re pat)
      else re pat)"

section \<open>Version expressions\<close>

datatype versionExpr =
  AlwaysExpr
| CompareExpr string condaVersion
| AndExpr "versionExpr list"
| OrExpr "versionExpr list"
| RegexExpr "string \<Rightarrow> bool"

definition compatibleRelease :: "condaVersion \<Rightarrow> condaVersion \<Rightarrow> bool" where
  "compatibleRelease v bound =
     (case parseCondaVersion (join_with (CHR ''.'') (butlast (split_on (CHR ''.'') (cv_original bound)))) of
        Inl e \<Rightarrow> False
      | Inr prefix \<Rightarrow> compare v bound \<ge> 0 \<and> hasPrefix v prefix)"

definition compare_match :: "string \<Rightarrow> condaVersion \<Rightarrow> condaVersion \<Rightarrow> bool" where
  "compare_match op ver v =
     (if op = ''=='' then version_equal v ver
      else if op = ''!='' then \<not> version_equal v ver
      else if op = ''<'' then compare v ver < 0
      else if op = ''<='' then compare v ver \<le> 0
      else if op = ''>'' then compare v ver > 0
      else if op = ''>='' then compare v ver \<ge> 0
      else if op = ''='' then hasPrefix v ver
      else if op = ''!=startswith'' then \<not> hasPrefix v ver
      else if op = ''~='' then compatibleRelease v ver
      else False)"

fun expr_match :: "versionExpr \<Rightarrow> condaVersion \<Rightarrow> bool" where
  "expr_match AlwaysExpr v \<longleftrightarrow> True"
| "expr_match (CompareExpr op ver) v \<longleftrightarrow> compare_match op ver v"
| "expr_match (AndExpr parts) v \<longleftrightarrow> list_all (\<lambda>p. expr_match p v) parts"
| "expr_match (OrExpr parts) v \<longleftrightarrow> list_ex (\<lambda>p. expr_match p v) parts"
| "expr_match (RegexExpr f) v \<longleftrightarrow> f (cv_original v)"

section \<open>Match specs\<close>

record matchSpec =
  ms_channel :: string
  ms_name :: string
  ms_version :: string
  ms_build :: string

definition op_char :: "char \<Rightarrow> bool" where
  "op_char c \<longleftrightarrow> c \<in> set ''<>!=~''"

definition splitName :: "string \<Rightarrow> string \<times> string" where
  "splitName spec =
     (let stop = (\<lambda>r. r = CHR '' '' \<or> r = CHR 0x09 \<or> op_char r) in
      (takeWhile (Not \<circ> stop) spec, TrimSpace (dropWhile (Not \<circ> stop) spec)))"

definition startsVersionToken :: "string \<Rightarrow> bool" where
  "startsVersionToken token \<longleftrightarrow>
     (if token = [] then False else hd token \<in> set ''<>!=~|,()'' \<or> has_prefix token ''=='')"

definition splitVersionBuild :: "string \<Rightarrow> string \<times> string" where
  "splitVersionBuild rest =
     (let rest = TrimSpace rest in
      if rest = [] then ([], [])
      else
        (let fields = Fields rest in
         if length fields = 1 then (hd fields, [])
         else if startsVersionToken (last fields) then (concat fields, [])
         else (concat (butlast fields), last fields)))"

definition parseMatchSpec :: "string \<Rightarrow> conda_error + matchSpec" where
  "parseMatchSpec raw =
     (let spec = TrimSpace raw;
          spec = (if CHR ''['' \<in> set spec then TrimSpace (takeWhile (\<lambda>c. c \<noteq> CHR ''['') spec) else spec)
      in if spec = [] then Inl ErrInvalidRef
         else
           (let (channel, spec) = (case Cut ''::'' spec of Some (a, b) \<Rightarrow> (TrimSpace a, TrimSpace b) | None \<Rightarrow> ([], spec));
                (name, rest) = splitName spec
            in if name = [] then Inl ErrInvalidRef
               else
                 (let (version, build) = splitVersionBuild rest
                  in Inr \<lparr>ms_channel = channel, ms_name = ToLower name, ms_version = version, ms_build = build\<rparr>)))"

section \<open>Parsing version expressions\<close>

fun tokenize_loop :: "string \<Rightarrow> string \<Rightarrow> string list" where
  "tokenize_loop [] b = (if b = [] then [] else [rev b])"
| "tokenize_loop (r # rs) b =
     (if r = CHR '' '' \<or> r = CHR 0x09 then tokenize_loop rs b
      else if r \<in> set ''|,()'' then (if b = [] then [] else [rev b]) @ [r] # tokenize_loop rs []
      else tokenize_loop rs (r # b))"

definition tokenizeVersion :: "string \<Rightarrow> string list" where
  "tokenizeVersion spec = tokenize_loop spec []"

definition operators :: "string list" where
  "operators = [''=='', ''!='', ''<='', ''>='', ''~='', ''='', ''<'', ''>'']"

fun cut_loop :: "string list \<Rightarrow> string \<Rightarrow> (string \<times> string) option" where
  "cut_loop [] token = None"
| "cut_loop (op # ops) token =
     (let rest = drop (length op) token in
      if has_prefix token op \<and> rest \<noteq> [] \<and> \<not> op_char (hd rest) then Some (op, rest) else cut_loop ops token)"

definition cutOperator :: "string \<Rightarrow> (string \<times> string) option" where
  "cutOperator token = cut_loop operators token"

definition normalizeDotStar :: "string \<Rightarrow> string \<Rightarrow> string \<times> string" where
  "normalizeDotStar op rest =
     (if \<not> has_suffix rest ''.*'' then (op, rest)
      else if op = ''!='' then (''!=startswith'', trim_suffix rest ''.*'')
      else (op, trim_suffix rest ''.*''))"

definition parseVersionAtom :: "(string \<Rightarrow> (string \<Rightarrow> bool) option) \<Rightarrow> string \<Rightarrow> conda_error + versionExpr" where
  "parseVersionAtom re token =
     (if token = ''*'' then Inr AlwaysExpr
      else if has_prefix token ''^'' \<or> has_suffix token ''$'' then
        (if \<not> has_prefix token ''^'' \<or> \<not> has_suffix token ''$'' then Inl ErrInvalidVersion
         else (case compile re token of None \<Rightarrow> Inl ErrInvalidVersion | Some f \<Rightarrow> Inr (RegexExpr f)))
      else
        (case cutOperator token of
           Some (op, rest) \<Rightarrow>
             (let (op, rest) = normalizeDotStar op rest
              in bind_result (parseCondaVersion rest) (\<lambda>ver. Inr (CompareExpr op ver)))
         | None \<Rightarrow>
             (if CHR ''*'' \<in> set token \<and> \<not> has_suffix token ''*'' then
                (case compile re (''^'' @ globToRegexp token @ ''$'') of
                   None \<Rightarrow> Inl ErrInvalidVersion
                 | Some f \<Rightarrow> Inr (RegexExpr f))
              else if has_suffix token ''*'' then
                bind_result (parseCondaVersion (trim_suffix (trim_suffix token ''*'') ''.'')) (\<lambda>ver. Inr (CompareExpr ''='' ver))
              else bind_result (parseCondaVersion token) (\<lambda>ver. Inr (CompareExpr ''=='' ver)))))"

type_synonym parsed = "(conda_error + versionExpr \<times> string list) option"

text \<open>
  The parser functions take fuel, once for the loop of \<open>parseBinary\<close> and once for the nesting of
  parentheses; \<open>None\<close> is running out of it.
\<close>

fun parse_loop :: "nat \<Rightarrow> string \<Rightarrow> (string list \<Rightarrow> parsed) \<Rightarrow> versionExpr list \<Rightarrow> string list \<Rightarrow> (conda_error + versionExpr list \<times> string list) option" where
  "parse_loop 0 sep inner parts rest = None"
| "parse_loop (Suc n) sep inner parts rest =
     (if rest \<noteq> [] \<and> hd rest = sep then
        (case inner (tl rest) of
           None \<Rightarrow> None
         | Some (Inl e) \<Rightarrow> Some (Inl e)
         | Some (Inr (nxt, rest')) \<Rightarrow> parse_loop n sep inner (parts @ [nxt]) rest')
      else Some (Inr (parts, rest)))"

definition parseBinary :: "nat \<Rightarrow> string list \<Rightarrow> string \<Rightarrow> (string list \<Rightarrow> parsed) \<Rightarrow> (versionExpr list \<Rightarrow> versionExpr) \<Rightarrow> parsed" where
  "parseBinary n tokens sep inner join =
     (case inner tokens of
        None \<Rightarrow> None
      | Some (Inl e) \<Rightarrow> Some (Inl e)
      | Some (Inr (left, rest)) \<Rightarrow>
          (if rest = [] \<or> hd rest \<noteq> sep then Some (Inr (left, rest))
           else
             (case parse_loop n sep inner [left] rest of
                None \<Rightarrow> None
              | Some (Inl e) \<Rightarrow> Some (Inl e)
              | Some (Inr (parts, rest')) \<Rightarrow> Some (Inr (join parts, rest')))))"

primrec parseFactor :: "(string \<Rightarrow> (string \<Rightarrow> bool) option) \<Rightarrow> nat \<Rightarrow> string list \<Rightarrow> parsed" where
  "parseFactor re 0 tokens = None"
| "parseFactor re (Suc n) tokens =
     (case tokens of
        [] \<Rightarrow> Some (Inl ErrInvalidVersion)
      | t # ts \<Rightarrow>
          (if t = ''('' then
             (case parseBinary n ts ''|'' (\<lambda>us. parseBinary n us '','' (parseFactor re n) AndExpr) OrExpr of
                None \<Rightarrow> None
              | Some (Inl e) \<Rightarrow> Some (Inl e)
              | Some (Inr (expr, rest)) \<Rightarrow>
                  (if rest = [] \<or> hd rest \<noteq> '')'' then Some (Inl ErrInvalidVersion) else Some (Inr (expr, tl rest))))
           else
             (case parseVersionAtom re t of Inl e \<Rightarrow> Some (Inl e) | Inr expr \<Rightarrow> Some (Inr (expr, ts)))))"

definition parseAnd :: "(string \<Rightarrow> (string \<Rightarrow> bool) option) \<Rightarrow> nat \<Rightarrow> string list \<Rightarrow> parsed" where
  "parseAnd re n tokens = parseBinary n tokens '','' (parseFactor re n) AndExpr"

definition parseOr :: "(string \<Rightarrow> (string \<Rightarrow> bool) option) \<Rightarrow> nat \<Rightarrow> string list \<Rightarrow> parsed" where
  "parseOr re n tokens = parseBinary n tokens ''|'' (parseAnd re n) OrExpr"

definition parseVersionExpr :: "(string \<Rightarrow> (string \<Rightarrow> bool) option) \<Rightarrow> nat \<Rightarrow> string \<Rightarrow> (conda_error + versionExpr) option" where
  "parseVersionExpr re n spec =
     (case parseOr re n (tokenizeVersion spec) of
        None \<Rightarrow> None
      | Some (Inl e) \<Rightarrow> Some (Inl e)
      | Some (Inr (expr, rest)) \<Rightarrow> Some (if rest \<noteq> [] then Inl ErrInvalidVersion else Inr expr))"

text \<open>Fuel that is always enough.\<close>

definition spec_fuel :: "string \<Rightarrow> nat" where
  "spec_fuel spec = Suc (length (tokenizeVersion spec))"

definition matchVersion :: "(string \<Rightarrow> (string \<Rightarrow> bool) option) \<Rightarrow> string \<Rightarrow> string \<Rightarrow> (conda_error + bool) option" where
  "matchVersion re spec version =
     (if TrimSpace spec = [] \<or> spec = ''*'' then Some (Inr True)
      else
        (case parseVersionExpr re (spec_fuel spec) spec of
           None \<Rightarrow> None
         | Some (Inl e) \<Rightarrow> Some (Inl e)
         | Some (Inr expr) \<Rightarrow>
             Some (bind_result (parseCondaVersion version) (\<lambda>parsed. Inr (expr_match expr parsed)))))"

section \<open>Builds\<close>

definition pathMatch :: "(string \<Rightarrow> (string \<Rightarrow> bool) option) \<Rightarrow> string \<Rightarrow> string \<Rightarrow> bool option" where
  "pathMatch re pattern build = map_option (\<lambda>f. f build) (compile re (''^'' @ globToRegexp pattern @ ''$''))"

definition matchBuild :: "(string \<Rightarrow> (string \<Rightarrow> bool) option) \<Rightarrow> string \<Rightarrow> string \<Rightarrow> bool" where
  "matchBuild re spec build =
     (let spec = TrimSpace spec in
      if spec = [] \<or> spec = ''*'' then True
      else if CHR ''*'' \<in> set spec then pathMatch re spec build = Some True
      else spec = build)"

section \<open>Globs\<close>

text \<open>Reading back the pattern \<open>globToRegexp\<close> writes gives the glob: \<open>*\<close> is any text, another byte is itself.\<close>

definition glob_item_of :: "char \<Rightarrow> glob_item" where
  "glob_item_of c = (if c = CHR ''*'' then AnyText else Lit c)"

lemma regex_items_glob: "regex_items (globToRegexp p) = Some (map glob_item_of p)"
proof (induction p)
  case (Cons r p)
  have "regex_items (r # s) = map_option ((#) (Lit r)) (regex_items s)" if "r \<noteq> CHR ''*''" "r \<notin> set meta_chars" for s
  proof -
    have "r \<noteq> CHR 0x5C" "r \<noteq> CHR ''.''" using that by (auto simp: meta_chars_def)
    then show ?thesis using that by (cases s) auto
  qed
  then show ?case using Cons by (auto simp: globToRegexp_def glob_item_of_def meta_chars_def)
qed (simp add: globToRegexp_def)

lemma compile_glob: "compile re (''^'' @ globToRegexp p @ ''$'') = Some (items_match (map glob_item_of p))"
  by (simp add: compile_def regex_items_glob butlast_append)

lemma items_match_any: "items_match [AnyText] s \<longleftrightarrow> CHR 0x0A \<notin> set s"
  by (induction s) auto

lemma items_match_lit: "items_match (map Lit p @ is) s \<longleftrightarrow> has_prefix s p \<and> items_match is (drop (length p) s)"
proof (induction p arbitrary: s)
  case (Cons c p)
  then show ?case by (cases s) (auto simp: has_prefix_def)
qed (simp add: has_prefix_def)

lemma glob_lits: "CHR ''*'' \<notin> set p \<Longrightarrow> map glob_item_of p = map Lit p"
  by (auto simp: glob_item_of_def)

text \<open>A build spec that ends in its only star accepts the builds that start with the rest of it.\<close>

lemma pathMatch_prefix:
  assumes "CHR ''*'' \<notin> set p" and "CHR 0x0A \<notin> set build"
  shows "pathMatch re (p @ ''*'') build = Some (has_prefix build p)"
proof -
  have "map glob_item_of (p @ ''*'') = map Lit p @ [AnyText]" using glob_lits [OF assms(1)] by (simp add: glob_item_of_def)
  then show ?thesis
    using assms(2) in_set_dropD [of "CHR 0x0A" "length p" build]
    by (auto simp: pathMatch_def compile_glob items_match_lit items_match_any simp del: append_Cons append_Nil map_append)
qed

section \<open>The parser returns\<close>

definition consumes :: "nat \<Rightarrow> (string list \<Rightarrow> parsed) \<Rightarrow> bool" where
  "consumes n f \<longleftrightarrow>
     (\<forall>ts. length ts < n \<longrightarrow> (\<exists>e. f ts = Some (Inl e)) \<or> (\<exists>x rest. f ts = Some (Inr (x, rest)) \<and> length rest < length ts))"

lemma consumesD:
  "consumes n f \<Longrightarrow> length ts < n \<Longrightarrow>
    (\<exists>e. f ts = Some (Inl e)) \<or> (\<exists>x rest. f ts = Some (Inr (x, rest)) \<and> length rest < length ts)"
  by (simp add: consumes_def)

lemma parse_loop_returns:
  assumes "consumes m inner"
  shows "length rest < n \<Longrightarrow> length rest \<le> m \<Longrightarrow>
    (\<exists>e. parse_loop n sep inner parts rest = Some (Inl e)) \<or>
    (\<exists>ps r. parse_loop n sep inner parts rest = Some (Inr (ps, r)) \<and> length r \<le> length rest)"
proof (induction n arbitrary: parts rest)
  case (Suc n)
  show ?case
  proof (cases "rest \<noteq> [] \<and> hd rest = sep")
    case True
    then have len: "length (tl rest) < m" "length (tl rest) < length rest" using Suc.prems by (cases rest; simp)+
    consider (error) e where "inner (tl rest) = Some (Inl e)"
      | (ok) x r where "inner (tl rest) = Some (Inr (x, r))" "length r < length (tl rest)"
      using consumesD [OF assms len(1)] by blast
    then show ?thesis
    proof cases
      case (ok x r)
      then show ?thesis using True Suc.IH [of r "parts @ [x]"] Suc.prems len by fastforce
    qed (use True in simp)
  qed (auto)
qed simp

lemma parseBinary_consumes:
  assumes "consumes n inner"
  shows "consumes n (\<lambda>ts. parseBinary n ts sep inner join)"
  unfolding consumes_def
proof (intro allI impI)
  fix ts :: "string list"
  assume len: "length ts < n"
  consider (error) e where "inner ts = Some (Inl e)"
    | (ok) x r where "inner ts = Some (Inr (x, r))" "length r < length ts"
    using consumesD [OF assms len] by blast
  then show "(\<exists>e. parseBinary n ts sep inner join = Some (Inl e)) \<or>
      (\<exists>x rest. parseBinary n ts sep inner join = Some (Inr (x, rest)) \<and> length rest < length ts)"
  proof cases
    case (ok x r)
    then consider (stop) "r = [] \<or> hd r \<noteq> sep" | (fail) e where "parse_loop n sep inner [x] r = Some (Inl e)"
      | (list) ps q where "parse_loop n sep inner [x] r = Some (Inr (ps, q))" "length q \<le> length r"
      using parse_loop_returns [OF assms, of r n sep "[x]"] len by auto
    then show ?thesis using ok by cases (auto simp: parseBinary_def)
  qed (simp add: parseBinary_def)
qed

lemma parseFactor_consumes: "consumes n (parseFactor re n)"
proof (induction n)
  case (Suc n)
  let ?or = "\<lambda>ts. parseBinary n ts ''|'' (\<lambda>us. parseBinary n us '','' (parseFactor re n) AndExpr) OrExpr"
  have or: "consumes n ?or" using Suc parseBinary_consumes by blast
  show ?case
    unfolding consumes_def
  proof (intro allI impI)
    fix ts :: "string list"
    assume len: "length ts < Suc n"
    show "(\<exists>e. parseFactor re (Suc n) ts = Some (Inl e)) \<or>
        (\<exists>x rest. parseFactor re (Suc n) ts = Some (Inr (x, rest)) \<and> length rest < length ts)"
    proof (cases ts)
      case (Cons t us)
      then have "length us < n" using len by simp
      then consider (error) e where "?or us = Some (Inl e)"
        | (ok) x r where "?or us = Some (Inr (x, r))" "length r < length us"
        using consumesD [OF or] by blast
      then show ?thesis by cases (auto simp: Cons split: sum.splits)
    qed simp
  qed
qed (simp add: consumes_def)

lemma parseOr_consumes: "consumes n (parseOr re n)"
proof -
  have "consumes n (parseAnd re n)" using parseBinary_consumes [OF parseFactor_consumes] by (simp add: parseAnd_def [abs_def])
  then show ?thesis using parseBinary_consumes by (simp add: parseOr_def [abs_def])
qed

text \<open>Matching always answers: a version expression is parsed, or refused, with the fuel \<open>matchVersion\<close> gives.\<close>

lemma parseVersionExpr_returns: "\<exists>r. parseVersionExpr re (spec_fuel spec) spec = Some r"
proof -
  have "length (tokenizeVersion spec) < spec_fuel spec" by (simp add: spec_fuel_def)
  then show ?thesis using consumesD [OF parseOr_consumes, of _ _ re] by (fastforce simp: parseVersionExpr_def)
qed

lemma matchVersion_returns: "\<exists>r. matchVersion re spec version = Some r"
  using parseVersionExpr_returns [of re spec] by (auto simp: matchVersion_def split: sum.splits)

section \<open>Alternatives of conditions\<close>

text \<open>
  A spec without parentheses is a list of alternatives separated by \<open>|\<close>, each a list of conditions
  separated by commas: a comma binds tighter. \<open>reads\<close> says that a parser takes exactly the tokens
  \<open>seg\<close> when what follows is fit to follow them.
\<close>

definition reads :: "(string list \<Rightarrow> parsed) \<Rightarrow> (string list \<Rightarrow> bool) \<Rightarrow> string list \<Rightarrow> versionExpr \<Rightarrow> bool" where
  "reads f fit seg e \<longleftrightarrow> (\<forall>r. fit r \<longrightarrow> f (seg @ r) = Some (Inr (e, r)))"

definition joined :: "(versionExpr list \<Rightarrow> versionExpr) \<Rightarrow> versionExpr list \<Rightarrow> versionExpr" where
  "joined join es = (case es of [e] \<Rightarrow> e | _ \<Rightarrow> join es)"

fun sep_tokens :: "string \<Rightarrow> string list list \<Rightarrow> string list" where
  "sep_tokens sep [] = []"
| "sep_tokens sep [x] = x"
| "sep_tokens sep (x # y # ys) = x @ sep # sep_tokens sep (y # ys)"

lemma sep_tokens_Cons: "sep_tokens sep (x # xs) = x @ concat (map ((#) sep) xs)"
  by (induction xs arbitrary: x) auto

lemma parse_loop_list:
  assumes "list_all2 (reads inner fit) segs es" and "length segs < n"
    and "\<And>r. r \<noteq> [] \<Longrightarrow> hd r = sep \<Longrightarrow> fit r" and "fit r0" and "r0 = [] \<or> hd r0 \<noteq> sep"
  shows "parse_loop n sep inner parts (concat (map ((#) sep) segs) @ r0) = Some (Inr (parts @ es, r0))"
  using assms(1,2)
proof (induction segs es arbitrary: parts n rule: list_all2_induct)
  case Nil
  then show ?case using assms(5) by (cases n) auto
next
  case (Cons seg segs e es)
  have "fit (concat (map ((#) sep) segs) @ r0)" using assms(3,4) by (cases segs) auto
  then show ?case using Cons by (cases n) (auto simp: reads_def)
qed

lemma parseBinary_list:
  assumes "list_all2 (reads inner fit) segs es" and "segs \<noteq> []" and "length segs \<le> n"
    and "\<And>r. r \<noteq> [] \<Longrightarrow> hd r = sep \<Longrightarrow> fit r" and "fit r0" and "r0 = [] \<or> hd r0 \<noteq> sep"
  shows "parseBinary n (sep_tokens sep segs @ r0) sep inner join = Some (Inr (joined join es, r0))"
proof -
  obtain seg segs' e es' where s: "segs = seg # segs'" "es = e # es'" using assms(1,2) by (cases segs; cases es) auto
  let ?r = "concat (map ((#) sep) segs') @ r0"
  have "fit ?r" using assms(4,5) by (cases segs') auto
  then have "inner (seg @ ?r) = Some (Inr (e, ?r))" using assms(1) by (simp add: s reads_def)
  moreover have "parse_loop n sep inner [e] ?r = Some (Inr ([e] @ es', r0))"
    using assms by (intro parse_loop_list [where fit = fit]) (simp_all add: s)
  ultimately show ?thesis
    using assms(1,6) by (cases segs') (auto simp: s sep_tokens_Cons parseBinary_def joined_def split: list.splits)
qed

text \<open>What alternatives of conditions mean.\<close>

definition dnf_expr :: "versionExpr list list \<Rightarrow> versionExpr" where
  "dnf_expr ess = joined OrExpr (map (joined AndExpr) ess)"

lemma dnf_expr_match:
  assumes "ess \<noteq> []" and "[] \<notin> set ess"
  shows "expr_match (dnf_expr ess) v \<longleftrightarrow> (\<exists>es \<in> set ess. \<forall>e \<in> set es. expr_match e v)"
proof -
  have "expr_match (joined AndExpr es) v \<longleftrightarrow> (\<forall>e \<in> set es. expr_match e v)" for es
    by (auto simp: joined_def list_all_iff split: list.splits)
  moreover have "expr_match (joined OrExpr es) v \<longleftrightarrow> (\<exists>e \<in> set es. expr_match e v)" if "es \<noteq> []" for es
    using that by (auto simp: joined_def list_ex_iff split: list.splits)
  ultimately show ?thesis using assms by (simp add: dnf_expr_def)
qed

definition dnf_tokens :: "string list list \<Rightarrow> string list" where
  "dnf_tokens tss = sep_tokens ''|'' (map (\<lambda>ts. sep_tokens '','' (map (\<lambda>t. [t]) ts)) tss)"

lemma parseOr_dnf:
  assumes "list_all2 (list_all2 (\<lambda>t e. t \<noteq> ''('' \<and> parseVersionAtom re t = Inr e)) tss ess"
    and "tss \<noteq> []" and "[] \<notin> set tss" and "length tss < n" and "\<forall>ts \<in> set tss. length ts < n"
  shows "parseOr re n (dnf_tokens tss) = Some (Inr (dnf_expr ess, []))"
proof -
  let ?fit = "\<lambda>r. r = [] \<or> hd r \<noteq> '',''"
  have "reads (parseAnd re n) ?fit (sep_tokens '','' (map (\<lambda>t. [t]) ts)) (joined AndExpr es)"
    if ts: "list_all2 (\<lambda>t e. t \<noteq> ''('' \<and> parseVersionAtom re t = Inr e) ts es" "ts \<noteq> []" "length ts < n" for ts es
    unfolding reads_def parseAnd_def
  proof (intro allI impI parseBinary_list [where fit = "\<lambda>_. True"])
    show "list_all2 (reads (parseFactor re n) (\<lambda>_. True)) (map (\<lambda>t. [t]) ts) es"
      using ts(1,3) by (cases n) (auto simp: reads_def list.rel_map elim!: list.rel_mono_strong)
  qed (use ts in auto)
  then have "list_all2 (reads (parseAnd re n) ?fit) (map (\<lambda>ts. sep_tokens '','' (map (\<lambda>t. [t]) ts)) tss) (map (joined AndExpr) ess)"
    using assms(1,3,5) by (force simp: list.rel_map elim!: list.rel_mono_strong)
  from parseBinary_list [OF this, of n "''|''" "[]" OrExpr] show ?thesis
    using assms(2,4) by (simp add: parseOr_def dnf_tokens_def dnf_expr_def)
qed

section \<open>Tokens of a spec\<close>

definition plain_token :: "string \<Rightarrow> bool" where
  "plain_token t \<longleftrightarrow> t \<noteq> [] \<and> list_all (\<lambda>c. c \<noteq> CHR '' '' \<and> c \<noteq> CHR 0x09 \<and> c \<notin> set ''|,()'') t"

lemma tokenize_plain: "list_all (\<lambda>c. c \<noteq> CHR '' '' \<and> c \<noteq> CHR 0x09 \<and> c \<notin> set ''|,()'') t \<Longrightarrow>
    tokenize_loop (t @ s) b = tokenize_loop s (rev t @ b)"
  by (induction t arbitrary: b) auto

lemma tokenize_end: "plain_token t \<Longrightarrow> tokenize_loop t [] = [t]"
  using tokenize_plain [of t "[]" "[]"] by (simp add: plain_token_def)

lemma tokenize_sep: "plain_token t \<Longrightarrow> c \<in> set ''|,()'' \<Longrightarrow> tokenize_loop (t @ c # s) [] = t # [c] # tokenize_loop s []"
  using tokenize_plain [of t "c # s" "[]"] by (auto simp: plain_token_def)

lemma tokenize_conds:
  "ts \<noteq> [] \<Longrightarrow> list_all plain_token ts \<Longrightarrow>
    tokenize_loop (join_with (CHR '','') ts) [] = sep_tokens '','' (map (\<lambda>t. [t]) ts) \<and>
    tokenize_loop (join_with (CHR '','') ts @ CHR ''|'' # s) [] = sep_tokens '','' (map (\<lambda>t. [t]) ts) @ ''|'' # tokenize_loop s []"
proof (induction "CHR '',''" ts rule: join_with.induct)
  case (3 x y ys)
  then show ?case by (simp add: tokenize_sep)
qed (simp_all add: tokenize_end tokenize_sep)

lemma tokenize_dnf:
  "tss \<noteq> [] \<Longrightarrow> [] \<notin> set tss \<Longrightarrow> list_all (list_all plain_token) tss \<Longrightarrow>
    tokenizeVersion (join_with (CHR ''|'') (map (join_with (CHR '','')) tss)) = dnf_tokens tss"
  unfolding tokenizeVersion_def dnf_tokens_def
proof (induction tss)
  case (Cons ts tss)
  then show ?case using tokenize_conds [of ts "join_with (CHR ''|'') (map (join_with (CHR '','')) tss)"] by (cases tss) auto
qed simp

section \<open>Conditions on dotted versions\<close>

text \<open>What an operator with a dotted version asks of a dotted version.\<close>

definition op_holds :: "string \<Rightarrow> nat list \<Rightarrow> nat list \<Rightarrow> bool" where
  "op_holds op ms ns =
     (if op = ''=='' then dotted_cmp ns ms = 0
      else if op = ''!='' then dotted_cmp ns ms \<noteq> 0
      else if op = ''<'' then dotted_cmp ns ms < 0
      else if op = ''<='' then dotted_cmp ns ms \<le> 0
      else if op = ''>'' then dotted_cmp ns ms > 0
      else if op = ''>='' then dotted_cmp ns ms \<ge> 0
      else if op = ''='' then dotted_prefix ms ns
      else if op = ''~='' then length ms \<ge> 2 \<and> dotted_cmp ns ms \<ge> 0 \<and> dotted_prefix (butlast ms) ns
      else False)"

definition cond_token :: "string \<times> nat list \<Rightarrow> string" where
  "cond_token c = fst c @ dotted (snd c)"

definition cond_ok :: "string \<times> nat list \<Rightarrow> bool" where
  "cond_ok c \<longleftrightarrow> fst c \<in> set operators \<and> snd c \<noteq> [] \<and> list_all (\<lambda>n. n < 2 ^ 63) (snd c)"

lemma dotted_Cons: "ms \<noteq> [] \<Longrightarrow> \<exists>d ds. dotted ms = d # ds \<and> is_digit d"
proof (cases ms)
  case (Cons n ns)
  moreover obtain d ds where "dec n = d # ds" "is_digit d" using dec_digits [of n] by (cases "dec n") (auto simp: Digits_def)
  ultimately show ?thesis by (cases ns) (auto simp: dotted_def)
qed simp

lemma cutOperator_cond:
  assumes "op \<in> set operators" and "ms \<noteq> []"
  shows "cutOperator (op @ dotted ms) = Some (op, dotted ms)"
proof -
  obtain d ds where d: "dotted ms = d # ds" "is_digit d" using dotted_Cons [OF assms(2)] by blast
  then have "\<not> op_char d" "d \<noteq> CHR ''=''" by (auto simp: op_char_def is_digit_def)
  then show ?thesis using assms(1) unfolding d(1) by (auto simp: cutOperator_def operators_def has_prefix_def op_char_def)
qed

lemma cond_last: "ms \<noteq> [] \<Longrightarrow> c \<notin> set (dotted ms) \<Longrightarrow> \<not> has_suffix (op @ dotted ms) [c]"
proof -
  assume a: "ms \<noteq> []" "c \<notin> set (dotted ms)"
  then have "last (op @ dotted ms) \<noteq> c" using last_in_set [of "dotted ms"] by auto
  moreover have "has_suffix s [c] \<Longrightarrow> last s = c" for s by (metis has_suffix_def last_appendR last_snoc append_take_drop_id list.discI)
  ultimately show ?thesis by blast
qed

lemma parseVersionAtom_cond:
  assumes "cond_ok c"
  shows "parseVersionAtom re (cond_token c) = Inr (CompareExpr (fst c) (dotted_version (snd c)))"
proof -
  obtain op ms where c: "c = (op, ms)" by (cases c)
  have ms: "op \<in> set operators" "ms \<noteq> []" "\<forall>n \<in> set ms. n < 2 ^ 63" using assms by (auto simp: cond_ok_def c list_all_iff)
  have no: "CHR ''*'' \<notin> set (dotted ms)" "CHR ''$'' \<notin> set (dotted ms)" "CHR ''^'' \<notin> set (dotted ms)"
    by (rule dotted_plain; simp add: is_digit_def)+
  obtain d ds where d: "dotted ms = d # ds" using dotted_Cons [OF ms(2)] by blast
  have "op @ dotted ms \<noteq> ''*''" "\<not> has_prefix (op @ dotted ms) ''^''"
    using ms(1) by (auto simp: operators_def d has_prefix_def)
  moreover have "\<not> has_suffix (op @ dotted ms) ''$''" using ms(2) no(2) by (rule cond_last)
  moreover have "\<not> has_suffix (dotted ms) ''.*''"
  proof
    assume "has_suffix (dotted ms) ''.*''"
    then have "CHR ''*'' \<in> set (drop (length (dotted ms) - 2) (dotted ms))" by (simp add: has_suffix_def numeral_2_eq_2)
    then show False using no(1) by (meson in_set_dropD)
  qed
  ultimately show ?thesis
    using ms by (simp add: c cond_token_def parseVersionAtom_def cutOperator_cond normalizeDotStar_def parse_dotted)
qed

lemma compatible_dotted:
  assumes "ms \<noteq> []" and "\<forall>n \<in> set ms. n < 2 ^ 63"
  shows "compatibleRelease (dotted_version ns) (dotted_version ms) \<longleftrightarrow>
    length ms \<ge> 2 \<and> dotted_cmp ns ms \<ge> 0 \<and> dotted_prefix (butlast ms) ns"
proof -
  have b: "join_with (CHR ''.'') (butlast (split_on (CHR ''.'') (cv_original (dotted_version ms)))) = dotted (butlast ms)"
    using assms(1) by (simp add: dotted_version_def dotted_split map_butlast) (simp add: dotted_def map_butlast)
  show ?thesis
  proof (cases "butlast ms = []")
    case True
    then have "length ms < 2" using assms(1) by (cases ms rule: rev_cases) auto
    moreover have "parseCondaVersion [] = Inl ErrInvalidVersion" by (simp add: parseCondaVersion_def TrimSpace_def ToLower_def)
    ultimately show ?thesis using True by (simp add: compatibleRelease_def b) (simp add: dotted_def)
  next
    case False
    then have "2 \<le> length ms" by (cases ms rule: rev_cases) (auto simp: Suc_le_eq)
    moreover have "parseCondaVersion (dotted (butlast ms)) = Inr (dotted_version (butlast ms))"
      using False assms(2) by (intro parse_dotted) (auto dest: in_set_butlastD)
    ultimately show ?thesis by (simp add: compatibleRelease_def b compare_dotted hasPrefix_dotted)
  qed
qed

lemma compare_match_dotted:
  assumes "cond_ok (op, ms)"
  shows "compare_match op (dotted_version ms) (dotted_version ns) \<longleftrightarrow> op_holds op ms ns"
  using assms compatible_dotted [of ms ns]
  by (auto simp: compare_match_def op_holds_def version_equal_def compare_dotted hasPrefix_dotted cond_ok_def list_all_iff operators_def)

lemma cond_plain: "cond_ok c \<Longrightarrow> plain_token (cond_token c)"
proof -
  assume a: "cond_ok c"
  have "x \<noteq> CHR '' '' \<and> x \<noteq> CHR 0x09 \<and> x \<notin> set ''|,()''" if "x \<in> set (dotted (snd c))" for x
    using dotted_chars [OF that] by (auto simp: is_digit_def)
  then show ?thesis using a by (auto simp: plain_token_def cond_token_def cond_ok_def operators_def list_all_iff)
qed

text \<open>The spec string of alternatives of conditions, and the whole path through \<open>matchVersion\<close>.\<close>

definition spec_string :: "(string \<times> nat list) list list \<Rightarrow> string" where
  "spec_string css = join_with (CHR ''|'') (map (\<lambda>cs. join_with (CHR '','') (map cond_token cs)) css)"

lemma spec_string_Cons:
  assumes "css \<noteq> []" and "[] \<notin> set css" and "\<forall>cs \<in> set css. \<forall>c \<in> set cs. cond_ok c"
  shows "\<exists>x s. spec_string css = x # s \<and> op_char x"
proof -
  obtain c cs css' where css: "css = (c # cs) # css'" using assms(1,2) by (cases css; cases "hd css") auto
  have "\<exists>x s. fst c = x # s \<and> op_char x" using assms(3) by (auto simp: css cond_ok_def operators_def op_char_def)
  then show ?thesis by (cases cs; cases css') (auto simp: css spec_string_def cond_token_def)
qed

lemma TrimSpace_nonempty: "\<not> is_space x \<Longrightarrow> TrimSpace (x # s) \<noteq> []"
  by (simp add: TrimSpace_def dropWhile_append)

lemma sep_tokens_length: "x \<in> set xs \<Longrightarrow> length x \<le> length (sep_tokens sep xs)"
  by (induction sep xs rule: sep_tokens.induct) auto

lemma sep_tokens_count: "[] \<notin> set xs \<Longrightarrow> length xs \<le> length (sep_tokens sep xs)"
  by (induction sep xs rule: sep_tokens.induct) (auto simp: Suc_le_eq)

lemma dnf_tokens_length:
  assumes "[] \<notin> set tss"
  shows "length tss \<le> length (dnf_tokens tss)" and "ts \<in> set tss \<Longrightarrow> length ts \<le> length (dnf_tokens tss)"
proof -
  let ?f = "\<lambda>ts. sep_tokens '','' (map (\<lambda>t. [t]) ts)"
  have f: "length ts \<le> length (?f ts)" for ts :: "string list"
    using sep_tokens_count [of "map (\<lambda>t. [t]) ts" "'',''"] by auto
  have "[] \<notin> set (map ?f tss)"
  proof
    assume "[] \<in> set (map ?f tss)"
    then obtain us where "us \<in> set tss" "?f us = []" by auto
    then show False using f [of us] assms by auto
  qed
  then show "length tss \<le> length (dnf_tokens tss)"
    using sep_tokens_count [of "map ?f tss" "''|''"] by (simp add: dnf_tokens_def)
  show "length ts \<le> length (dnf_tokens tss)" if "ts \<in> set tss"
    using that f [of ts] sep_tokens_length [of "?f ts" "map ?f tss" "''|''"] by (auto simp: dnf_tokens_def)
qed

lemma parse_spec_string:
  assumes "css \<noteq> []" and "[] \<notin> set css" and "\<forall>cs \<in> set css. \<forall>c \<in> set cs. cond_ok c"
  shows "parseVersionExpr re (spec_fuel (spec_string css)) (spec_string css) =
    Some (Inr (dnf_expr (map (map (\<lambda>c. CompareExpr (fst c) (dotted_version (snd c)))) css)))"
proof -
  let ?tss = "map (map cond_token) css" and ?ess = "map (map (\<lambda>c. CompareExpr (fst c) (dotted_version (snd c)))) css"
  have ne: "?tss \<noteq> []" "[] \<notin> set ?tss" using assms(1,2) by auto
  have tok: "tokenizeVersion (spec_string css) = dnf_tokens ?tss"
    using tokenize_dnf [OF ne] assms(3) cond_plain by (simp add: spec_string_def list_all_iff comp_def)
  have "cond_token c \<noteq> ''(''" if "cond_ok c" for c
    using cond_plain [OF that] by (auto simp: plain_token_def)
  then have "list_all2 (list_all2 (\<lambda>t e. t \<noteq> ''('' \<and> parseVersionAtom re t = Inr e)) ?tss ?ess"
    using assms(3) by (simp add: list.rel_map list_all2_same parseVersionAtom_cond)
  then have "parseOr re (spec_fuel (spec_string css)) (dnf_tokens ?tss) = Some (Inr (dnf_expr ?ess, []))"
    using dnf_tokens_length [OF ne(2)] by (intro parseOr_dnf ne) (simp_all add: spec_fuel_def tok less_Suc_eq_le)
  then show ?thesis by (simp add: parseVersionExpr_def tok)
qed

lemma matchVersion_dnf:
  assumes "css \<noteq> []" and "[] \<notin> set css" and "\<forall>cs \<in> set css. \<forall>c \<in> set cs. cond_ok c"
    and "ns \<noteq> []" and "\<forall>n \<in> set ns. n < 2 ^ 63"
  shows "matchVersion re (spec_string css) (dotted ns) =
    Some (Inr (\<exists>cs \<in> set css. \<forall>c \<in> set cs. op_holds (fst c) (snd c) ns))"
proof -
  obtain x s where x: "spec_string css = x # s" "op_char x" using spec_string_Cons [OF assms(1-3)] by blast
  then have "\<not> is_space x" "x \<noteq> CHR ''*''" by (auto simp: op_char_def is_space_def)
  then have "TrimSpace (spec_string css) \<noteq> []" "spec_string css \<noteq> ''*''" using TrimSpace_nonempty x(1) by auto
  moreover have "expr_match (dnf_expr (map (map (\<lambda>c. CompareExpr (fst c) (dotted_version (snd c)))) css)) (dotted_version ns) \<longleftrightarrow>
      (\<exists>cs \<in> set css. \<forall>c \<in> set cs. op_holds (fst c) (snd c) ns)"
  proof -
    have "[] \<notin> set (map (map (\<lambda>c. CompareExpr (fst c) (dotted_version (snd c)))) css)" using assms(2) by auto
    moreover have "compare_match (fst c) (dotted_version (snd c)) (dotted_version ns) \<longleftrightarrow> op_holds (fst c) (snd c) ns"
      if "cs \<in> set css" "c \<in> set cs" for cs c
      using compare_match_dotted [of "fst c" "snd c" ns] assms(3) that by auto
    ultimately show ?thesis using assms(1) by (simp add: dnf_expr_match)
  qed
  ultimately show ?thesis using assms by (simp add: matchVersion_def parse_spec_string parse_dotted)
qed

end
