(* ===== verification/CondaSelect.thy ===== *)
theory CondaSelect
  imports CondaMatch "HOL-Library.Multiset"
begin

text \<open>
  Selecting records (\<open>x/tool/conda/resolve.go\<close>, the pure part, and the record types of
  \<open>index.go\<close>). \<open>re\<close> is the parameter of the match specs. A set of variants is a set of strings.
\<close>

section \<open>Records\<close>

record pkg =
  r_Name :: string
  r_Version :: string
  r_Build :: string
  r_BuildNumber :: int
  r_Depends :: "string list"
  r_SHA256 :: string
  r_MD5 :: string
  r_Size :: int
  r_Subdir :: string
  r_Filename :: string
  r_URL :: string

record constraint =
  c_version :: string
  c_build :: string

definition subdirNoarch :: string where
  "subdirNoarch = ''noarch''"

definition sameArtifact :: "pkg \<Rightarrow> pkg \<Rightarrow> bool" where
  "sameArtifact l r \<longleftrightarrow>
     r_Subdir l = r_Subdir r \<and> r_Version l = r_Version r \<and> r_Build l = r_Build r \<and> r_Filename l = r_Filename r"

section \<open>Variants\<close>

definition containsDigit :: "string \<Rightarrow> bool" where
  "containsDigit value = list_ex is_digit value"

definition trim_right :: "char \<Rightarrow> string \<Rightarrow> string" where
  "trim_right c s = rev (dropWhile (\<lambda>d. d = c) (rev s))"

definition is_letter :: "char \<Rightarrow> bool" where
  "is_letter c \<longleftrightarrow> (let n = (of_char c :: nat) in 65 \<le> n \<and> n \<le> 90 \<or> 97 \<le> n \<and> n \<le> 122)"

definition is_hex :: "char \<Rightarrow> bool" where
  "is_hex c \<longleftrightarrow> is_digit c \<or> (let n = (of_char c :: nat) in 97 \<le> n \<and> n \<le> 102)"

text \<open>
  The expression \<open>buildVariant\<close>: pieces between underscores, the first a letter followed by letters
  and digits with a digit among them, then numbers, then \<open>h\<close> with five or more hexadecimal digits, then a number.
\<close>

definition variant_head :: "string \<Rightarrow> bool" where
  "variant_head p \<longleftrightarrow> p \<noteq> [] \<and> is_letter (hd p) \<and> list_all (\<lambda>c. is_letter c \<or> is_digit c) p \<and> list_ex is_digit p"

definition variant_hash :: "string \<Rightarrow> bool" where
  "variant_hash p \<longleftrightarrow> p \<noteq> [] \<and> hd p = CHR ''h'' \<and> length (tl p) \<ge> 5 \<and> list_all is_hex (tl p)"

definition buildVariant :: "string \<Rightarrow> string option" where
  "buildVariant build =
     (let ps = split_on (CHR ''_'') build; k = length ps in
      if k \<ge> 3 \<and> variant_head (hd ps) \<and> list_all Digits (tl (take (k - 2) ps)) \<and>
         variant_hash (ps ! (k - 2)) \<and> Digits (last ps)
      then Some (join_with (CHR ''_'') (take (k - 2) ps)) else None)"

definition variantKey :: "string \<Rightarrow> string" where
  "variantKey raw =
     (let build = TrimSpace raw in
      if build = [] \<or> build = ''*'' then []
      else if has_suffix build ''*'' then
        (let build = trim_right (CHR ''_'') (trim_suffix build ''*'') in
         if build = [] \<or> CHR ''*'' \<in> set build \<or> \<not> containsDigit build then [] else build)
      else (case buildVariant build of None \<Rightarrow> [] | Some m \<Rightarrow> m))"

definition addVariant :: "string \<Rightarrow> string set \<Rightarrow> string set" where
  "addVariant build variants = (let key = variantKey build in if key = [] then variants else insert key variants)"

definition variantMatch :: "string \<Rightarrow> string set \<Rightarrow> bool" where
  "variantMatch build variants \<longleftrightarrow> (if variants = {} then False else variantKey build \<in> variants)"

section \<open>Ordering records\<close>

definition str_compare :: "string \<Rightarrow> string \<Rightarrow> int" where
  "str_compare a b = (if a = b then 0 else if a < b then -1 else 1)"

definition versionRank :: "string \<Rightarrow> string \<Rightarrow> int" where
  "versionRank left right = (case compareVersions left right of Inl e \<Rightarrow> str_compare left right | Inr c \<Rightarrow> c)"

definition nativeRank :: "pkg \<Rightarrow> string \<Rightarrow> int" where
  "nativeRank rec native = (if r_Subdir rec = native then 1 else 0)"

definition newerRecord :: "pkg \<Rightarrow> pkg \<Rightarrow> string \<Rightarrow> bool" where
  "newerRecord a b native \<longleftrightarrow>
     (let cmp = versionRank (r_Version a) (r_Version b) in
      if cmp \<noteq> 0 then cmp > 0
      else if r_BuildNumber a \<noteq> r_BuildNumber b then r_BuildNumber a > r_BuildNumber b
      else if nativeRank a native \<noteq> nativeRank b native then nativeRank a native > nativeRank b native
      else
        (let aConda = has_suffix (r_Filename a) ''.conda''; bConda = has_suffix (r_Filename b) ''.conda'' in
         if aConda \<noteq> bConda then aConda else r_Filename a < r_Filename b))"

definition betterRecord :: "pkg \<Rightarrow> pkg \<Rightarrow> string \<Rightarrow> string set \<Rightarrow> bool" where
  "betterRecord a b native variants \<longleftrightarrow>
     (let aHit = variantMatch (r_Build a) variants; bHit = variantMatch (r_Build b) variants in
      if aHit \<noteq> bHit then aHit else newerRecord a b native)"

section \<open>Picking a record\<close>

fun pick_filter :: "(string \<Rightarrow> (string \<Rightarrow> bool) option) \<Rightarrow> string \<Rightarrow> constraint \<Rightarrow> pkg list \<Rightarrow> (conda_error + pkg list) option" where
  "pick_filter re native item [] = Some (Inr [])"
| "pick_filter re native item (rec # recs) =
     (if r_Subdir rec \<noteq> native \<and> r_Subdir rec \<noteq> subdirNoarch then pick_filter re native item recs
      else
        (case matchVersion re (c_version item) (r_Version rec) of
           None \<Rightarrow> None
         | Some (Inl e) \<Rightarrow> Some (Inl e)
         | Some (Inr ok) \<Rightarrow>
             map_option (map_sum id (\<lambda>nxt. if ok \<and> matchBuild re (c_build item) (r_Build rec) then rec # nxt else nxt))
               (pick_filter re native item recs)))"

fun pick_loop :: "(string \<Rightarrow> (string \<Rightarrow> bool) option) \<Rightarrow> string \<Rightarrow> constraint list \<Rightarrow> pkg list \<Rightarrow> (conda_error + pkg list) option" where
  "pick_loop re native [] matched = Some (Inr matched)"
| "pick_loop re native (item # items) matched =
     (case pick_filter re native item matched of
        None \<Rightarrow> None
      | Some (Inl e) \<Rightarrow> Some (Inl e)
      | Some (Inr nxt) \<Rightarrow> (if nxt = [] then Some (Inl ErrNoBuild) else pick_loop re native items nxt))"

definition best_record :: "string \<Rightarrow> string set \<Rightarrow> pkg list \<Rightarrow> pkg \<Rightarrow> pkg" where
  "best_record native variants recs best =
     fold (\<lambda>rec best. if betterRecord rec best native variants then rec else best) recs best"

text \<open>\<open>matched[0]\<close> on no record at all is a panic; it needs an empty list of constraints.\<close>

definition pickSatisfying ::
  "(string \<Rightarrow> (string \<Rightarrow> bool) option) \<Rightarrow> pkg list \<Rightarrow> constraint list \<Rightarrow> string \<Rightarrow> string set \<Rightarrow> (conda_error + pkg) option" where
  "pickSatisfying re records constraints native variants =
     (case pick_loop re native constraints records of
        None \<Rightarrow> None
      | Some (Inl e) \<Rightarrow> Some (Inl e)
      | Some (Inr matched) \<Rightarrow>
          Some (case matched of [] \<Rightarrow> Inl IndexPanic | rec # recs \<Rightarrow> Inr (best_record native variants recs rec)))"

definition pickRecord ::
  "(string \<Rightarrow> (string \<Rightarrow> bool) option) \<Rightarrow> pkg list \<Rightarrow> string \<Rightarrow> string \<Rightarrow> string \<Rightarrow> (conda_error + pkg) option" where
  "pickRecord re records versionSpec buildSpec native =
     pickSatisfying re records [\<lparr>c_version = versionSpec, c_build = buildSpec\<rparr>] native {}"

section \<open>Dependencies and requests\<close>

definition constrainedSpec :: "matchSpec \<Rightarrow> bool" where
  "constrainedSpec spec =
     (let version = TrimSpace (ms_version spec); build = TrimSpace (ms_build spec) in
      if version \<noteq> [] \<and> version \<noteq> ''*'' then True else build \<noteq> [] \<and> build \<noteq> ''*'')"

fun splitDeps :: "string list \<Rightarrow> conda_error + (string list \<times> string list)" where
  "splitDeps [] = Inr ([], [])"
| "splitDeps (dep # deps) =
     bind_result (parseMatchSpec dep) (\<lambda>spec.
     bind_result (splitDeps deps) (\<lambda>(pinned, loose).
       Inr (if ms_name spec = [] \<or> has_prefix (ms_name spec) ''__'' then (pinned, loose)
            else if constrainedSpec spec then (dep # pinned, loose)
            else (pinned, dep # loose))))"

fun directDeps :: "string list \<Rightarrow> conda_error + string list" where
  "directDeps [] = Inr []"
| "directDeps (dep # deps) =
     bind_result (parseMatchSpec dep) (\<lambda>spec.
     bind_result (directDeps deps) (\<lambda>out.
       Inr (if ms_name spec = [] \<or> has_prefix (ms_name spec) ''__'' then out else dep # out)))"

definition requestedSpec :: "string \<Rightarrow> string \<times> string" where
  "requestedSpec raw =
     (let version = TrimSpace raw in
      if version = [] \<or> version = ''latest'' then ([], [])
      else
        (case Cut ''='' version of
           Some (left, right) \<Rightarrow>
             (if left \<noteq> [] \<and> right \<noteq> [] \<and> \<not> list_ex (\<lambda>c. c \<in> set ''<>!~'') left then (''=='' @ left, right)
              else if op_char (hd version) then (version, []) else (''=='' @ version, []))
         | None \<Rightarrow> if op_char (hd version) then (version, []) else (''=='' @ version, [])))"

section \<open>What a pick satisfies\<close>

definition accepts :: "(string \<Rightarrow> (string \<Rightarrow> bool) option) \<Rightarrow> string \<Rightarrow> constraint \<Rightarrow> pkg \<Rightarrow> bool" where
  "accepts re native item rec \<longleftrightarrow>
     (r_Subdir rec = native \<or> r_Subdir rec = subdirNoarch) \<and>
     matchVersion re (c_version item) (r_Version rec) = Some (Inr True) \<and> matchBuild re (c_build item) (r_Build rec)"

lemma map_sum_Inr: "map_sum f g z = Inr y \<longleftrightarrow> (\<exists>x. z = Inr x \<and> y = g x)"
  by (cases z) auto

lemma map_result_ok: "(\<exists>y. map_option (map_sum id g) r = Some (Inr y)) \<longleftrightarrow> (\<exists>x. r = Some (Inr x))"
  by (cases r; cases "the r") auto

lemma pick_filter_eq:
  "pick_filter re native item recs = Some (Inr nxt) \<Longrightarrow> nxt = filter (accepts re native item) recs"
proof (induction recs arbitrary: nxt)
  case (Cons rec recs)
  show ?case
  proof (cases "r_Subdir rec \<noteq> native \<and> r_Subdir rec \<noteq> subdirNoarch")
    case True
    then show ?thesis using Cons by (simp add: accepts_def)
  next
    case False
    then obtain ok out where "matchVersion re (c_version item) (r_Version rec) = Some (Inr ok)"
      "pick_filter re native item recs = Some (Inr out)"
      using Cons.prems by (auto simp: map_sum_Inr split: option.splits sum.splits)
    then show ?thesis using Cons False by (auto simp: accepts_def)
  qed
qed simp

lemma pick_filter_returns: "\<exists>r. pick_filter re native item recs = Some r"
proof (induction recs)
  case (Cons rec recs)
  then show ?case using matchVersion_returns [of re "c_version item" "r_Version rec"] by (auto split: sum.splits)
qed simp

lemma pick_loop_returns: "\<exists>r. pick_loop re native items recs = Some r"
proof (induction items arbitrary: recs)
  case (Cons item items)
  then show ?case using pick_filter_returns [of re native item recs] by (auto split: sum.splits)
qed simp

lemma pick_loop_eq:
  "pick_loop re native items recs = Some (Inr matched) \<Longrightarrow>
    matched = filter (\<lambda>rec. \<forall>item \<in> set items. accepts re native item rec) recs \<and> (items \<noteq> [] \<longrightarrow> matched \<noteq> [])"
proof (induction items arbitrary: recs)
  case (Cons item items)
  then obtain nxt where n: "pick_filter re native item recs = Some (Inr nxt)" "nxt \<noteq> []" "pick_loop re native items nxt = Some (Inr matched)"
    by (auto split: option.splits sum.splits if_splits)
  have "matched = filter (\<lambda>rec. \<forall>item \<in> set items. accepts re native item rec) nxt" "matched \<noteq> []"
    using Cons.IH [OF n(3)] n(2,3) by (cases items; auto)+
  then show ?case using pick_filter_eq [OF n(1)] by (simp add: filter_filter conj_commute)
qed simp

section \<open>The order of records\<close>

text \<open>Comparing by a key, by the first of two comparisons that decides, and the largest element of a list.\<close>

definition ord_cmp :: "'a::linorder \<Rightarrow> 'a \<Rightarrow> int" where
  "ord_cmp a b = (if a = b then 0 else if a < b then -1 else 1)"

definition then_cmp :: "('a \<Rightarrow> 'a \<Rightarrow> int) \<Rightarrow> ('a \<Rightarrow> 'a \<Rightarrow> int) \<Rightarrow> 'a \<Rightarrow> 'a \<Rightarrow> int" where
  "then_cmp c d x y = (if c x y \<noteq> 0 then c x y else d x y)"

lemma three_way_key: "three_way (\<lambda>x y. ord_cmp (f x) (f y))"
  by unfold_locales (auto simp: ord_cmp_def split: if_splits)

lemma three_way_comp:
  assumes "three_way c"
  shows "three_way (\<lambda>x y. c (f x) (f y))"
  by unfold_locales (rule three_way.range [OF assms] three_way.anti [OF assms] three_way.le_trans [OF assms]; assumption)+

lemma three_way_swap:
  assumes "three_way c"
  shows "three_way (\<lambda>x y. c y x)"
  by unfold_locales (rule three_way.range [OF assms] three_way.anti [OF assms], rule three_way.anti [OF assms], rule three_way.le_trans [OF assms])

lemma three_way_then:
  assumes c: "three_way c" and d: "three_way d"
  shows "three_way (then_cmp c d)"
proof
  fix x y z
  show "then_cmp c d x y \<in> {-1, 0, 1}"
    using three_way.range [OF c, of x y] three_way.range [OF d, of x y] by (auto simp: then_cmp_def)
  show "then_cmp c d y x = - then_cmp c d x y"
    using three_way.anti [OF c, of y x] three_way.anti [OF d, of y x] by (simp add: then_cmp_def)
  assume a: "then_cmp c d x y \<le> 0" "then_cmp c d y z \<le> 0"
  show "then_cmp c d x z \<le> 0"
  proof (cases "c x y = 0 \<and> c y z = 0")
    case True
    then have "c x z = 0" using three_way.eq_trans [OF c] by blast
    then show ?thesis using a True three_way.le_trans [OF d, of x y z] by (simp add: then_cmp_def)
  next
    case False
    have le: "c x y \<le> 0" "c y z \<le> 0" using a by (auto simp: then_cmp_def split: if_splits)
    then have "c x z < 0"
      using False three_way.less_le_trans [OF c, of x y z] three_way.le_less_trans [OF c, of x y z] by (cases "c x y = 0") auto
    then show ?thesis by (simp add: then_cmp_def)
  qed
qed

context three_way
begin

lemma fold_best:
  assumes "best = fold (\<lambda>x b. if cmp x b > 0 then x else b) xs x0"
  shows "best \<in> set (x0 # xs)" and "y \<in> set (x0 # xs) \<Longrightarrow> cmp y best \<le> 0"
proof -
  have *: "fold (\<lambda>x b. if cmp x b > 0 then x else b) xs x0 \<in> set (x0 # xs) \<and>
      (\<forall>y \<in> set (x0 # xs). cmp y (fold (\<lambda>x b. if cmp x b > 0 then x else b) xs x0) \<le> 0)" for x0
  proof (induction xs arbitrary: x0)
    case (Cons x xs)
    let ?b = "if cmp x x0 > 0 then x else x0"
    let ?f = "fold (\<lambda>x b. if cmp x b > 0 then x else b) xs ?b"
    have b: "cmp x ?b \<le> 0" "cmp x0 ?b \<le> 0" using refl [of x] refl [of x0] anti [of x x0] by auto
    have IH: "?f \<in> set (?b # xs)" "\<And>y. y \<in> set (?b # xs) \<Longrightarrow> cmp y ?f \<le> 0" using Cons.IH [of ?b] by blast+
    have "cmp ?b ?f \<le> 0" by (rule IH) simp
    then have "cmp x ?f \<le> 0" "cmp x0 ?f \<le> 0" using b by (blast intro: le_trans)+
    moreover have "\<forall>y \<in> set xs. cmp y ?f \<le> 0" using IH(2) by simp
    moreover have "?f \<in> set (x0 # x # xs)" using IH(1) by (auto split: if_splits)
    ultimately show ?case by simp
  qed (simp add: refl)
  show "best \<in> set (x0 # xs)" "y \<in> set (x0 # xs) \<Longrightarrow> cmp y best \<le> 0" using * assms by blast+
qed

end

definition version_of :: "string \<Rightarrow> condaVersion" where
  "version_of s = (case parseCondaVersion s of Inl e \<Rightarrow> dotted_version [] | Inr v \<Rightarrow> v)"

definition parses :: "string \<Rightarrow> bool" where
  "parses s = (case parseCondaVersion s of Inl e \<Rightarrow> False | Inr v \<Rightarrow> True)"

lemma versionRank_parsed: "parses a \<Longrightarrow> parses b \<Longrightarrow> versionRank a b = compare (version_of a) (version_of b)"
  by (auto simp: parses_def versionRank_def compareVersions_def version_of_def split: sum.splits)

text \<open>The order \<open>betterRecord\<close> decides, as one comparison.\<close>

definition record_cmp :: "string \<Rightarrow> string set \<Rightarrow> pkg \<Rightarrow> pkg \<Rightarrow> int" where
  "record_cmp native variants =
     then_cmp (\<lambda>a b. ord_cmp (variantMatch (r_Build a) variants) (variantMatch (r_Build b) variants))
    (then_cmp (\<lambda>a b. compare (version_of (r_Version a)) (version_of (r_Version b)))
    (then_cmp (\<lambda>a b. ord_cmp (r_BuildNumber a) (r_BuildNumber b))
    (then_cmp (\<lambda>a b. ord_cmp (nativeRank a native) (nativeRank b native))
    (then_cmp (\<lambda>a b. ord_cmp (has_suffix (r_Filename a) ''.conda'') (has_suffix (r_Filename b) ''.conda''))
              (\<lambda>a b. ord_cmp (r_Filename b) (r_Filename a))))))"

interpretation recs: three_way "record_cmp native variants"
  unfolding record_cmp_def
  by (intro three_way_then three_way_key three_way_swap [OF three_way_key] three_way_comp [OF versions.three_way_axioms])

lemma betterRecord_cmp:
  assumes "parses (r_Version a)" and "parses (r_Version b)"
  shows "betterRecord a b native variants \<longleftrightarrow> record_cmp native variants a b > 0"
  using versions.range [of "version_of (r_Version a)" "version_of (r_Version b)"]
  unfolding betterRecord_def newerRecord_def record_cmp_def then_cmp_def ord_cmp_def versionRank_parsed [OF assms] Let_def
  by auto

lemma best_record_cmp:
  assumes "\<forall>r \<in> set (rec # recs). parses (r_Version r)"
  shows "best_record native variants recs rec = fold (\<lambda>x b. if record_cmp native variants x b > 0 then x else b) recs rec"
  using assms unfolding best_record_def
proof (induction recs arbitrary: rec)
  case (Cons x recs)
  then show ?case using betterRecord_cmp [of x rec native variants] by auto
qed simp

section \<open>What a pick returns\<close>

lemma fold_choice: "fold (\<lambda>x b. if P x b then x else b) xs x0 \<in> set (x0 # xs)"
proof (induction xs arbitrary: x0)
  case (Cons x xs)
  then show ?case using Cons [of "if P x x0 then x else x0"] by (auto split: if_splits)
qed simp

lemma pickSatisfying_cases:
  assumes "pickSatisfying re recs cs native variants = Some (Inr r)"
  obtains x xs where "pick_loop re native cs recs = Some (Inr (x # xs))" and "r = best_record native variants xs x"
    and "x # xs = filter (\<lambda>s. \<forall>c \<in> set cs. accepts re native c s) recs"
  using assms pick_loop_eq [of re native cs recs]
  by (fastforce simp: pickSatisfying_def split: option.splits sum.splits list.splits)

lemma pickSatisfying_sound:
  assumes "pickSatisfying re recs cs native variants = Some (Inr r)"
  shows "r \<in> set recs" and "c \<in> set cs \<Longrightarrow> accepts re native c r"
proof -
  obtain x xs where m: "r = best_record native variants xs x" "x # xs = filter (\<lambda>s. \<forall>c \<in> set cs. accepts re native c s) recs"
    using assms by (rule pickSatisfying_cases)
  have "r \<in> set (x # xs)" unfolding m(1) best_record_def by (rule fold_choice)
  then show "r \<in> set recs" "c \<in> set cs \<Longrightarrow> accepts re native c r" unfolding m(2) by auto
qed

lemma pickSatisfying_max:
  assumes "pickSatisfying re recs cs native variants = Some (Inr r)" and "\<forall>s \<in> set recs. parses (r_Version s)"
    and "s \<in> set recs" and "\<forall>c \<in> set cs. accepts re native c s"
  shows "record_cmp native variants s r \<le> 0"
proof -
  obtain x xs where m: "r = best_record native variants xs x" "x # xs = filter (\<lambda>s. \<forall>c \<in> set cs. accepts re native c s) recs"
    using assms(1) by (rule pickSatisfying_cases)
  have "set (x # xs) \<subseteq> set recs" unfolding m(2) by auto
  then have "r = fold (\<lambda>x b. if record_cmp native variants x b > 0 then x else b) xs x"
    using m(1) best_record_cmp [of x xs native variants] assms(2) by auto
  moreover have "s \<in> set (x # xs)" using assms(3,4) unfolding m(2) by simp
  ultimately show ?thesis by (rule recs.fold_best(2))
qed

lemma pickSatisfying_best:
  assumes "pickSatisfying re recs cs native variants = Some (Inr r)" and "\<forall>s \<in> set recs. parses (r_Version s)"
    and "s \<in> set recs" and "\<forall>c \<in> set cs. accepts re native c s"
  shows "\<not> betterRecord s r native variants"
  using pickSatisfying_max [OF assms] betterRecord_cmp [of s r native variants] assms(2,3) pickSatisfying_sound(1) [OF assms(1)] by simp

text \<open>The records of an index come out of a Go map, in any order: the pick does not depend on it.\<close>

lemma pick_filter_ok:
  "(\<exists>nxt. pick_filter re native item recs = Some (Inr nxt)) \<longleftrightarrow>
    (\<forall>rec \<in> set recs. r_Subdir rec = native \<or> r_Subdir rec = subdirNoarch \<longrightarrow>
      (\<exists>b. matchVersion re (c_version item) (r_Version rec) = Some (Inr b)))"
proof (induction recs)
  case (Cons rec recs)
  show ?case
  proof (cases "r_Subdir rec \<noteq> native \<and> r_Subdir rec \<noteq> subdirNoarch")
    case False
    then have E: "(\<exists>nxt. pick_filter re native item (rec # recs) = Some (Inr nxt)) \<longleftrightarrow>
        (\<exists>b. matchVersion re (c_version item) (r_Version rec) = Some (Inr b)) \<and> (\<exists>nxt. pick_filter re native item recs = Some (Inr nxt))"
      using matchVersion_returns [of re "c_version item" "r_Version rec"]
      by (auto simp: map_result_ok simp del: map_option_eq_Some split: sum.splits) (auto simp: map_sum_Inr)
    show ?thesis unfolding E Cons.IH using False by auto
  qed (use Cons in simp)
qed simp

lemma pick_filter_perm:
  assumes "mset recs = mset recs'" and "pick_filter re native item recs = Some (Inr nxt)"
  shows "pick_filter re native item recs' = Some (Inr (filter (accepts re native item) recs'))"
proof -
  have "set recs = set recs'" using assms(1) by (rule mset_eq_setD)
  then obtain nxt' where "pick_filter re native item recs' = Some (Inr nxt')"
    using pick_filter_ok [of re native item recs] pick_filter_ok [of re native item recs'] assms(2) by auto
  then show ?thesis using pick_filter_eq by blast
qed

lemma pick_loop_perm:
  "mset recs = mset recs' \<Longrightarrow> pick_loop re native items recs = Some (Inr m) \<Longrightarrow>
    \<exists>m'. pick_loop re native items recs' = Some (Inr m') \<and> mset m' = mset m"
proof (induction items arbitrary: recs recs')
  case (Cons item items)
  then obtain nxt where n: "pick_filter re native item recs = Some (Inr nxt)" "nxt \<noteq> []" "pick_loop re native items nxt = Some (Inr m)"
    by (auto split: option.splits sum.splits if_splits)
  let ?n = "filter (accepts re native item) recs'"
  have "mset nxt = mset ?n" using pick_filter_eq [OF n(1)] Cons.prems(1) by simp
  moreover from this have "?n \<noteq> []" using n(2) by (metis mset_zero_iff)
  ultimately show ?case using Cons.IH [of nxt ?n] n pick_filter_perm [OF Cons.prems(1) n(1)] by simp
qed simp

lemma record_cmp_eq:
  assumes "record_cmp native variants a b = 0"
  shows "r_Filename a = r_Filename b" and "r_Subdir a = native \<longleftrightarrow> r_Subdir b = native"
  using assms by (auto simp: record_cmp_def then_cmp_def ord_cmp_def nativeRank_def split: if_splits)

lemma pickSatisfying_perm:
  assumes "pickSatisfying re recs cs native variants = Some (Inr r)" and "mset recs = mset recs'" and "cs \<noteq> []"
    and parse: "\<forall>s \<in> set recs. parses (r_Version s)"
    and uniq: "\<forall>s \<in> set recs. \<forall>t \<in> set recs. r_Subdir s = r_Subdir t \<and> r_Filename s = r_Filename t \<longrightarrow> s = t"
  shows "pickSatisfying re recs' cs native variants = Some (Inr r)"
proof -
  have sets: "set recs = set recs'" using assms(2) by (rule mset_eq_setD)
  obtain x xs where "pick_loop re native cs recs = Some (Inr (x # xs))" using assms(1) by (rule pickSatisfying_cases)
  then obtain m' where "pick_loop re native cs recs' = Some (Inr m')" "mset m' = mset (x # xs)"
    using pick_loop_perm [OF assms(2)] by blast
  then obtain r' where r': "pickSatisfying re recs' cs native variants = Some (Inr r')"
    by (cases m') (auto simp: pickSatisfying_def)
  note s = pickSatisfying_sound [OF assms(1)] and s' = pickSatisfying_sound [OF r']
  have "record_cmp native variants r' r \<le> 0" using assms(1) parse by (rule pickSatisfying_max) (use s' sets in auto)
  moreover have "record_cmp native variants r r' \<le> 0"
    using r' parse [unfolded sets] by (rule pickSatisfying_max) (use s sets in auto)
  ultimately have "record_cmp native variants r r' = 0" using recs.anti [of native variants r r'] by simp
  note eq = record_cmp_eq [OF this]
  have "r_Subdir r = r_Subdir r'"
    using eq(2) s(2) [of "hd cs"] s'(2) [of "hd cs"] assms(3) by (auto simp: accepts_def)
  then have "r = r'" using uniq eq(1) s(1) s'(1) sets by blast
  then show ?thesis using r' by simp
qed

end
