(* ===== verification/CondaClosure.thy ===== *)
theory CondaClosure
  imports CondaSelect
begin

text \<open>
  Conda channels and references (\<open>x/tool/conda/ref.go\<close>) and the records of a conda closure (\<open>finalRecords\<close> of
  \<open>x/tool/conda/resolve.go\<close>): a walk from the requested package over the chosen records, dependencies
  first. It runs after the session that chose them has ended, so the choices do not change under it.

  \<open>net/url\<close> is a parameter: \<open>url_parse\<close> gives the scheme, the host and the path of a URL that parses, and how
  \<open>String\<close> renders that URL with another path.
\<close>

section \<open>Channels and references\<close>

type_synonym url_parser = "string \<Rightarrow> (string \<times> string \<times> string \<times> (string \<Rightarrow> string)) option"

record channel =
  ch_Name :: string
  ch_Base :: string
  ch_APIOwner :: string

record parsedRef =
  pr_Channel :: channel
  pr_Name :: string

definition defaultChannelName :: string where
  "defaultChannelName = ''conda-forge''"

definition anacondaOrg :: string where
  "anacondaOrg = ''https://conda.anaconda.org/''"

definition knownChannels :: "(string \<times> channel) list" where
  "knownChannels =
     [(''conda-forge'', \<lparr>ch_Name = ''conda-forge'', ch_Base = ''https://conda.anaconda.org/conda-forge'', ch_APIOwner = ''conda-forge''\<rparr>),
      (''bioconda'', \<lparr>ch_Name = ''bioconda'', ch_Base = ''https://conda.anaconda.org/bioconda'', ch_APIOwner = ''bioconda''\<rparr>),
      (''defaults'', \<lparr>ch_Name = ''defaults'', ch_Base = ''https://repo.anaconda.com/pkgs/main'', ch_APIOwner = ''main''\<rparr>),
      (''main'', \<lparr>ch_Name = ''main'', ch_Base = ''https://repo.anaconda.com/pkgs/main'', ch_APIOwner = ''main''\<rparr>),
      (''anaconda'', \<lparr>ch_Name = ''anaconda'', ch_Base = ''https://repo.anaconda.com/pkgs/main'', ch_APIOwner = ''anaconda''\<rparr>),
      (''pkgs/main'', \<lparr>ch_Name = ''pkgs/main'', ch_Base = ''https://repo.anaconda.com/pkgs/main'', ch_APIOwner = ''main''\<rparr>)]"

definition Contains :: "string \<Rightarrow> string \<Rightarrow> bool" where
  "Contains s sub \<longleftrightarrow> Cut sub s \<noteq> None"

definition resolveChannel :: "url_parser \<Rightarrow> string \<Rightarrow> conda_error + channel" where
  "resolveChannel url_parse nm =
     (let name = TrimSpace nm;
          name = (if name = [] then defaultChannelName else name)
      in if Contains name ''://'' then
           (case url_parse name of
              None \<Rightarrow> Inl ErrInvalidRef
            | Some (scheme, host, path, render) \<Rightarrow>
                if host = [] \<or> (scheme \<noteq> ''https'' \<and> scheme \<noteq> ''http'') then Inl ErrInvalidRef
                else Inr \<lparr>ch_Name = name, ch_Base = render (trim_right CHR ''/'' path), ch_APIOwner = []\<rparr>)
         else
           (let key = ToLower (trim_right CHR ''/'' (dropWhile (\<lambda>c. c = CHR ''/'') name))
            in case map_of knownChannels key of
                 Some ch \<Rightarrow> Inr ch
               | None \<Rightarrow>
                   (let owner = (if \<not> Contains key ''/'' then key else [])
                    in Inr \<lparr>ch_Name = key, ch_Base = trim_right CHR ''/'' anacondaOrg @ ''/'' @ key, ch_APIOwner = owner\<rparr>)))"

text \<open>\<open>ref[:slash]\<close> and \<open>ref[slash+1:]\<close> at \<open>slash := strings.LastIndex(ref, "/")\<close>, for a reference with a slash.\<close>

definition last_slash :: "string \<Rightarrow> string \<times> string" where
  "last_slash s =
     (let r = rev s in (rev (drop 1 (dropWhile (\<lambda>c. c \<noteq> CHR ''/'') r)), rev (takeWhile (\<lambda>c. c \<noteq> CHR ''/'') r)))"

definition parseRef :: "url_parser \<Rightarrow> string \<Rightarrow> conda_error + parsedRef" where
  "parseRef url_parse r =
     (let ref = TrimSpace r
      in if ref = [] then Inl ErrEmptyRef
         else
           (let (channelName, name) =
                  (case Cut ''::'' ref of
                     Some (before, after) \<Rightarrow> (TrimSpace before, TrimSpace after)
                   | None \<Rightarrow>
                       if Contains ref ''/'' \<and> \<not> Contains ref ''://''
                       then (case last_slash ref of (c, n) \<Rightarrow> (TrimSpace c, TrimSpace n))
                       else (defaultChannelName, ref))
            in if channelName = [] \<or> name = [] \<or> Contains name ''/'' then Inl ErrInvalidRef
               else bind_result (resolveChannel url_parse channelName)
                 (\<lambda>ch. Inr \<lparr>pr_Channel = ch, pr_Name = ToLower name\<rparr>)))"

definition artifactURL :: "channel \<Rightarrow> string \<Rightarrow> string \<Rightarrow> string" where
  "artifactURL ch subdir filename = trim_right CHR ''/'' (ch_Base ch) @ ''/'' @ subdir @ ''/'' @ filename"

definition repodataURL :: "channel \<Rightarrow> string \<Rightarrow> bool \<Rightarrow> string" where
  "repodataURL ch subdir zstd =
     (let name = (if zstd then ''repodata.json.zst'' else ''repodata.json'')
      in trim_right CHR ''/'' (ch_Base ch) @ ''/'' @ subdir @ ''/'' @ name)"

text \<open>
  The three spellings of a reference. A plain name has no slash, colon or space and no upper case
  letters.
\<close>

definition plain_ref :: "string \<Rightarrow> bool" where
  "plain_ref s \<longleftrightarrow> s \<noteq> [] \<and> (\<forall>c \<in> set s. c \<noteq> CHR ''/'' \<and> c \<noteq> CHR '':'' \<and> \<not> is_space c \<and> lower c = c)"

lemma Cut_absent: "sep \<noteq> [] \<Longrightarrow> hd sep \<notin> set s \<Longrightarrow> Cut sep s = None"
  by (induction s) (auto simp: has_prefix_def neq_Nil_conv)

lemma Cut_first: "sep \<noteq> [] \<Longrightarrow> hd sep \<notin> set a \<Longrightarrow> Cut sep (a @ sep @ b) = Some (a, b)"
proof (induction a)
  case Nil
  then show ?case by (cases sep) (auto simp: has_prefix_def)
next
  case (Cons c a)
  then have "\<not> has_prefix (c # a @ sep @ b) sep" by (cases sep) (auto simp: has_prefix_def)
  then show ?case using Cons by simp
qed

lemma trim_right_plain: "c \<notin> set s \<Longrightarrow> trim_right c s = s"
proof -
  assume "c \<notin> set s"
  then have "c \<notin> set (rev s)" by simp
  then have "dropWhile (\<lambda>d. d = c) (rev s) = rev s" by (cases "rev s") auto
  then show ?thesis by (simp add: trim_right_def)
qed

lemma ToLower_plain: "(\<And>c. c \<in> set s \<Longrightarrow> lower c = c) \<Longrightarrow> ToLower s = s"
  by (simp add: ToLower_def map_idI)

lemma resolveChannel_plain:
  assumes "plain_ref c"
  shows "resolveChannel url_parse c =
    Inr (case map_of knownChannels c of Some ch \<Rightarrow> ch
         | None \<Rightarrow> \<lparr>ch_Name = c, ch_Base = anacondaOrg @ c, ch_APIOwner = c\<rparr>)"
proof -
  have c: "c \<noteq> []" "CHR ''/'' \<notin> set c" "CHR '':'' \<notin> set c" using assms by (auto simp: plain_ref_def)
  have "TrimSpace c = c" "ToLower c = c" using assms by (auto simp: plain_ref_def intro: TrimSpace_plain ToLower_plain)
  moreover have "dropWhile (\<lambda>d. d = CHR ''/'') c = c" using c by (cases c) auto
  moreover have "\<not> Contains c ''://''" "\<not> Contains c ''/''" using c by (simp_all add: Contains_def Cut_absent)
  moreover have "trim_right CHR ''/'' anacondaOrg @ ''/'' = anacondaOrg" by code_simp
  then have "trim_right CHR ''/'' anacondaOrg @ CHR ''/'' # c = anacondaOrg @ c" by (metis append.assoc append_Cons append_Nil)
  ultimately show ?thesis using c by (simp add: resolveChannel_def Let_def trim_right_plain split: option.split)
qed

lemma last_slash_last: "CHR ''/'' \<notin> set n \<Longrightarrow> last_slash (c @ CHR ''/'' # n) = (c, n)"
proof -
  assume "CHR ''/'' \<notin> set n"
  then have n: "x \<in> set (rev n) \<Longrightarrow> x \<noteq> CHR ''/''" for x by auto
  have "takeWhile (\<lambda>c. c \<noteq> CHR ''/'') (rev n @ CHR ''/'' # rev c) = rev n"
    by (subst takeWhile_append2) (use n in auto)
  moreover have "dropWhile (\<lambda>c. c \<noteq> CHR ''/'') (rev n @ CHR ''/'' # rev c) = CHR ''/'' # rev c"
    by (subst dropWhile_append2) (use n in auto)
  ultimately show ?thesis by (simp add: last_slash_def Let_def)
qed

lemma parseRef_plain:
  assumes "plain_ref c" "plain_ref n"
  shows "parseRef url_parse (c @ ''::'' @ n) = bind_result (resolveChannel url_parse c) (\<lambda>ch. Inr \<lparr>pr_Channel = ch, pr_Name = n\<rparr>)"
    and "parseRef url_parse (c @ ''/'' @ n) = bind_result (resolveChannel url_parse c) (\<lambda>ch. Inr \<lparr>pr_Channel = ch, pr_Name = n\<rparr>)"
    and "parseRef url_parse n = bind_result (resolveChannel url_parse defaultChannelName) (\<lambda>ch. Inr \<lparr>pr_Channel = ch, pr_Name = n\<rparr>)"
proof -
  have sp: "\<not> is_space CHR '':''" "\<not> is_space CHR ''/''" by code_simp+
  have p: "TrimSpace s = s" "ToLower s = s" "s \<noteq> []" "CHR ''/'' \<notin> set s" "CHR '':'' \<notin> set s" if "plain_ref s" for s
    using that by (auto simp: plain_ref_def intro: TrimSpace_plain ToLower_plain)
  note c = p [OF assms(1)] and n = p [OF assms(2)]
  have nosp: "\<not> is_space x" if "x \<in> set (c @ m @ n)" "\<forall>y \<in> set m. \<not> is_space y" for x m
  proof -
    have "\<forall>y \<in> set c. \<not> is_space y" "\<forall>y \<in> set n. \<not> is_space y" using assms unfolding plain_ref_def by blast+
    then show ?thesis using that by (metis UnE set_append)
  qed
  have t: "TrimSpace (c @ ''::'' @ n) = c @ ''::'' @ n" "TrimSpace (c @ ''/'' @ n) = c @ ''/'' @ n"
    by (rule TrimSpace_plain, erule nosp, simp add: sp)+
  have slash: "\<not> Contains n ''/''" using n by (simp add: Contains_def Cut_absent)
  show "parseRef url_parse (c @ ''::'' @ n) = bind_result (resolveChannel url_parse c) (\<lambda>ch. Inr \<lparr>pr_Channel = ch, pr_Name = n\<rparr>)"
    using Cut_first [of "''::''" c n] t c n slash by (simp add: parseRef_def)
  have "Cut ''::'' (c @ ''/'' @ n) = None" "\<not> Contains (c @ ''/'' @ n) ''://''" "Contains (c @ ''/'' @ n) ''/''"
    using c n Cut_first [of "''/''" c n] by (simp_all add: Contains_def Cut_absent)
  then show "parseRef url_parse (c @ ''/'' @ n) = bind_result (resolveChannel url_parse c) (\<lambda>ch. Inr \<lparr>pr_Channel = ch, pr_Name = n\<rparr>)"
    using t c n slash last_slash_last [of n c] by (simp add: parseRef_def)
  have "Cut ''::'' n = None" using n by (simp add: Cut_absent)
  then show "parseRef url_parse n = bind_result (resolveChannel url_parse defaultChannelName) (\<lambda>ch. Inr \<lparr>pr_Channel = ch, pr_Name = n\<rparr>)"
    using n slash by (simp add: parseRef_def defaultChannelName_def)
qed

section \<open>The walk\<close>

definition dep_key :: "url_parser \<Rightarrow> string \<Rightarrow> string \<Rightarrow> conda_error + string option" where
  "dep_key url_parse base dep =
     bind_result (parseMatchSpec dep) (\<lambda>spec.
       if ms_name spec = [] \<or> has_prefix (ms_name spec) ''__'' then Inr None
       else bind_result
         (if ms_channel spec \<noteq> [] then bind_result (resolveChannel url_parse (ms_channel spec)) (\<lambda>depCh. Inr (ch_Base depCh))
          else Inr base)
         (\<lambda>depBase. Inr (Some (depBase @ CHR 0x00 # ms_name spec))))"

text \<open>
  The loop over the dependencies of a record, with the walk of each inside. A key is visited when it is
  in the output; \<open>visiting\<close> are the keys on the way from the root.
\<close>

partial_function (option) final_deps :: "url_parser \<Rightarrow> (string \<rightharpoonup> string \<times> pkg) \<Rightarrow> string \<Rightarrow> string list
    \<Rightarrow> string list \<Rightarrow> string list \<Rightarrow> (conda_error + string list) option" where
  "final_deps url_parse chosen base deps visiting out =
     (if deps = [] then Some (Inr out)
      else
        (case dep_key url_parse base (hd deps) of
           Inl e \<Rightarrow> Some (Inl e)
         | Inr None \<Rightarrow> final_deps url_parse chosen base (tl deps) visiting out
         | Inr (Some key) \<Rightarrow>
             if key \<in> set out \<or> key \<in> set visiting then final_deps url_parse chosen base (tl deps) visiting out
             else
               (case chosen key of
                  None \<Rightarrow> final_deps url_parse chosen base (tl deps) visiting out
                | Some (depBase, rec) \<Rightarrow>
                    Option.bind (final_deps url_parse chosen depBase (r_Depends rec) (key # visiting) out)
                      (\<lambda>x. case x of
                         Inl e \<Rightarrow> Some (Inl e)
                       | Inr out' \<Rightarrow> final_deps url_parse chosen base (tl deps) visiting (out' @ [key])))))"

declare final_deps.simps [code]

definition finalRecords :: "url_parser \<Rightarrow> (string \<rightharpoonup> string \<times> pkg) \<Rightarrow> string \<Rightarrow> (conda_error + pkg list) option" where
  "finalRecords url_parse chosen rootKey =
     (case chosen rootKey of
        None \<Rightarrow> Some (Inr [])
      | Some (base, rec) \<Rightarrow>
          map_option (\<lambda>x. bind_result x (\<lambda>out. Inr (map (\<lambda>k. snd (the (chosen k))) (out @ [rootKey]))))
            (final_deps url_parse chosen base (r_Depends rec) [rootKey] []))"

section \<open>The walk returns\<close>

lemma final_deps_returns:
  assumes "finite (dom chosen)"
  shows "\<exists>r. final_deps rc chosen base deps visiting out = Some r"
proof (induction "card (dom chosen - set visiting)" arbitrary: visiting base deps out rule: less_induct)
  case less
  show ?case
  proof (induction deps arbitrary: out)
    case (Cons d deps)
    have rest: "\<exists>r. final_deps rc chosen base deps visiting out = Some r" for out by (rule Cons.IH)
    have nest: "\<exists>r. final_deps rc chosen b ds (k # visiting) out = Some r" if "k \<notin> set visiting" "chosen k = Some p" for k p b ds
    proof (rule less.hyps)
      have "dom chosen - set (k # visiting) \<subset> dom chosen - set visiting" using that by auto
      then show "card (dom chosen - set (k # visiting)) < card (dom chosen - set visiting)" using assms by (simp add: psubset_card_mono)
    qed
    show ?case
    proof (cases "dep_key rc base d")
      case (Inr ko)
      show ?thesis
      proof (cases "\<exists>k b r. ko = Some k \<and> k \<notin> set out \<and> k \<notin> set visiting \<and> chosen k = Some (b, r)")
        case True
        then obtain k b r where k: "ko = Some k" "k \<notin> set out" "k \<notin> set visiting" "chosen k = Some (b, r)" by blast
        obtain x where x: "final_deps rc chosen b (r_Depends r) (k # visiting) out = Some x" using nest [OF k(3,4)] by blast
        then show ?thesis using k Inr rest by (auto simp: final_deps.simps [of _ _ _ "d # deps"] split: sum.split)
      next
        case False
        then have "final_deps rc chosen base (d # deps) visiting out = final_deps rc chosen base deps visiting out"
          using Inr by (auto simp: final_deps.simps [of _ _ _ "d # deps"] split: option.split)
        then show ?thesis using rest by simp
      qed
    qed (simp add: final_deps.simps [of _ _ _ "d # deps"])
  qed (simp add: final_deps.simps [of _ _ _ "[]"])
qed

section \<open>What it visits, and in which order\<close>

text \<open>A chosen record and the chosen records of its dependencies.\<close>

definition requires :: "url_parser \<Rightarrow> (string \<rightharpoonup> string \<times> pkg) \<Rightarrow> (string \<times> string) set" where
  "requires rc chosen = {(x, y). \<exists>base rec. chosen x = Some (base, rec) \<and> y \<in> dom chosen \<and>
     (\<exists>d \<in> set (r_Depends rec). dep_key rc base d = Inr (Some y))}"

text \<open>
  \<open>settled\<close>: what an entry of the output requires is in the output or being visited; \<open>postorder\<close>: it is before
  it, or the two require each other.
\<close>

definition settled :: "(string \<times> string) set \<Rightarrow> string list \<Rightarrow> string list \<Rightarrow> bool" where
  "settled E visiting out \<longleftrightarrow> (\<forall>x \<in> set out. \<forall>y. (x, y) \<in> E \<longrightarrow> y \<in> set out \<union> set visiting)"

definition postorder :: "(string \<times> string) set \<Rightarrow> string list \<Rightarrow> bool" where
  "postorder E out \<longleftrightarrow> (\<forall>i < length out. \<forall>y. (out ! i, y) \<in> E \<longrightarrow> (\<exists>j < i. out ! j = y) \<or> (y, out ! i) \<in> E\<^sup>*)"

definition walk_pre :: "url_parser \<Rightarrow> (string \<rightharpoonup> string \<times> pkg) \<Rightarrow> string \<Rightarrow> string list \<Rightarrow> string list \<Rightarrow> string list \<Rightarrow> bool" where
  "walk_pre rc chosen base deps visiting out \<longleftrightarrow>
     visiting \<noteq> [] \<and> (\<exists>rec. chosen (hd visiting) = Some (base, rec) \<and> set deps \<subseteq> set (r_Depends rec)) \<and>
     (\<forall>v \<in> set visiting. (v, hd visiting) \<in> (requires rc chosen)\<^sup>*) \<and>
     distinct out \<and> set out \<inter> set visiting = {} \<and> set out \<subseteq> dom chosen \<and>
     settled (requires rc chosen) visiting out \<and> postorder (requires rc chosen) out"

definition walk_post :: "url_parser \<Rightarrow> (string \<rightharpoonup> string \<times> pkg) \<Rightarrow> string \<Rightarrow> string list \<Rightarrow> string list \<Rightarrow> string list \<Rightarrow> string list \<Rightarrow> bool" where
  "walk_post rc chosen base deps visiting out out' \<longleftrightarrow>
     (\<exists>new. out' = out @ new \<and> (\<forall>k \<in> set new. (hd visiting, k) \<in> (requires rc chosen)\<^sup>*)) \<and>
     (\<forall>d \<in> set deps. \<forall>k. dep_key rc base d = Inr (Some k) \<longrightarrow> k \<in> dom chosen \<longrightarrow> k \<in> set out' \<union> set visiting) \<and>
     walk_pre rc chosen base [] visiting out'"

lemma postorder_snoc:
  assumes "postorder E out" "\<And>y. (k, y) \<in> E \<Longrightarrow> y \<in> set out \<or> (y, k) \<in> E\<^sup>*"
  shows "postorder E (out @ [k])"
  unfolding postorder_def
proof (intro allI impI)
  fix i y
  assume i: "i < length (out @ [k])" and e: "((out @ [k]) ! i, y) \<in> E"
  show "(\<exists>j < i. (out @ [k]) ! j = y) \<or> (y, (out @ [k]) ! i) \<in> E\<^sup>*"
  proof (cases "i < length out")
    case True
    then have "(out ! i, y) \<in> E" using e by (simp add: nth_append)
    then have "(\<exists>j < i. out ! j = y) \<or> (y, out ! i) \<in> E\<^sup>*" using assms(1) True by (simp add: postorder_def)
    then show ?thesis
    proof
      assume "\<exists>j < i. out ! j = y"
      then obtain j where "j < i" "out ! j = y" by blast
      then have "j < i \<and> (out @ [k]) ! j = y" using True by (simp add: nth_append)
      then show ?thesis by blast
    qed (use True in \<open>simp add: nth_append\<close>)
  next
    case False
    then have "i = length out" using i by simp
    then have "y \<in> set out \<or> (y, (out @ [k]) ! i) \<in> E\<^sup>*" using assms(2) [of y] e by simp
    moreover have "\<exists>j < i. (out @ [k]) ! j = y" if m: "y \<in> set out"
    proof -
      obtain j where "j < length out" "out ! j = y" using m by (auto simp: in_set_conv_nth)
      then have "j < i \<and> (out @ [k]) ! j = y" using \<open>i = length out\<close> by (simp add: nth_append)
      then show ?thesis by blast
    qed
    ultimately show ?thesis by blast
  qed
qed

lemma postorder_acyclic:
  assumes "postorder E ks" "acyclic E" "i < length ks" "(ks ! i, y) \<in> E"
  shows "\<exists>j < i. ks ! j = y"
proof -
  have "(y, ks ! i) \<notin> E\<^sup>*"
  proof
    assume "(y, ks ! i) \<in> E\<^sup>*"
    then have "(ks ! i, ks ! i) \<in> E\<^sup>+" by (rule rtrancl_into_trancl2 [OF assms(4)])
    then show False using assms(2) by (simp add: acyclic_def)
  qed
  then show ?thesis using assms(1,3,4) by (auto simp: postorder_def)
qed

lemma walk_edge:
  assumes "walk_pre rc chosen base (d # deps) visiting out" "dep_key rc base d = Inr (Some k)" "chosen k = Some p"
  shows "(hd visiting, k) \<in> requires rc chosen"
  using assms by (auto simp: walk_pre_def requires_def)

lemma walk_pre_tl: "walk_pre rc chosen base (d # deps) visiting out \<Longrightarrow> walk_pre rc chosen base deps visiting out"
  by (auto simp: walk_pre_def)

text \<open>Going down to a key that is new.\<close>

lemma walk_down:
  assumes "walk_pre rc chosen base (d # deps) visiting out" "dep_key rc base d = Inr (Some k)" "chosen k = Some (b, r)" "k \<notin> set out"
  shows "walk_pre rc chosen b (r_Depends r) (k # visiting) out"
proof -
  have "(v, k) \<in> (requires rc chosen)\<^sup>*" if "v \<in> set visiting" for v
    using that assms(1) walk_edge [OF assms(1-3)] unfolding walk_pre_def by (meson rtrancl.rtrancl_into_rtrancl)
  then show ?thesis using assms by (auto simp: walk_pre_def settled_def)
qed

text \<open>Coming back from it.\<close>

lemma walk_up:
  assumes "walk_pre rc chosen base (d # deps) visiting out" "chosen k = Some (b, r)" "k \<notin> set visiting"
    and "walk_pre rc chosen b (r_Depends r) (k # visiting) out" "walk_post rc chosen b (r_Depends r) (k # visiting) out out'"
  shows "walk_pre rc chosen base deps visiting (out' @ [k])"
proof -
  let ?E = "requires rc chosen"
  have post: "walk_pre rc chosen b [] (k # visiting) out'" using assms(5) by (simp add: walk_post_def)
  have y: "y \<in> set out' \<union> set (k # visiting)" if "(k, y) \<in> ?E" for y
    using that assms(2,5) by (auto simp: requires_def walk_post_def)
  have "postorder ?E (out' @ [k])"
  proof (rule postorder_snoc)
    show "postorder ?E out'" using post by (simp add: walk_pre_def)
    show "y \<in> set out' \<or> (y, k) \<in> ?E\<^sup>*" if "(k, y) \<in> ?E" for y
      using y [OF that] post by (auto simp: walk_pre_def)
  qed
  moreover have "settled ?E visiting (out' @ [k])" using post y by (auto simp: walk_pre_def settled_def)
  ultimately show ?thesis using assms(1,2,3) post by (auto simp: walk_pre_def)
qed

lemma walk_post_skip:
  assumes "walk_post rc chosen base deps visiting out out'" "\<And>k. dep_key rc base d = Inr (Some k) \<Longrightarrow> k \<in> dom chosen \<Longrightarrow> k \<in> set out \<union> set visiting"
  shows "walk_post rc chosen base (d # deps) visiting out out'"
proof -
  have "set out \<subseteq> set out'" using assms(1) by (auto simp: walk_post_def)
  then have "k \<in> set out' \<union> set visiting" if "dep_key rc base d = Inr (Some k)" "k \<in> dom chosen" for k using assms(2) [OF that] by blast
  then show ?thesis using assms(1) unfolding walk_post_def by simp
qed

lemma walk_post_down:
  assumes "walk_pre rc chosen base (d # deps) visiting out" "dep_key rc base d = Inr (Some k)" "chosen k = Some (b, r)"
    and "walk_post rc chosen b (r_Depends r) (k # visiting) out out1" "walk_post rc chosen base deps visiting (out1 @ [k]) out2"
  shows "walk_post rc chosen base (d # deps) visiting out out2"
proof -
  let ?E = "requires rc chosen"
  obtain n1 n2 where n: "out1 = out @ n1" "\<forall>x \<in> set n1. (k, x) \<in> ?E\<^sup>*" "out2 = out1 @ [k] @ n2" "\<forall>x \<in> set n2. (hd visiting, x) \<in> ?E\<^sup>*"
    using assms(4,5) by (auto simp: walk_post_def)
  have e: "(hd visiting, k) \<in> ?E" by (rule walk_edge [OF assms(1-3)])
  have "\<forall>x \<in> set (n1 @ [k] @ n2). (hd visiting, x) \<in> ?E\<^sup>*" using n e by (auto intro: converse_rtrancl_into_rtrancl)
  moreover have "out2 = out @ n1 @ [k] @ n2" using n by simp
  moreover have "k \<in> set out2" using n by simp
  ultimately show ?thesis using assms(2,5) unfolding walk_post_def by auto
qed

lemma final_deps_post:
  assumes "final_deps rc chosen base deps visiting out = Some (Inr out')" "walk_pre rc chosen base deps visiting out"
  shows "walk_post rc chosen base deps visiting out out'"
proof -
  have "\<forall>out'. walk_pre rc chosen base deps visiting out \<and> x = Inr out' \<longrightarrow> walk_post rc chosen base deps visiting out out'"
    if "final_deps rc chosen base deps visiting out = Some x" for x
  proof (rule final_deps.raw_induct [where P = "\<lambda>rc chosen base deps visiting out x. \<forall>out'. walk_pre rc chosen base deps visiting out \<and> x = Inr out' \<longrightarrow>
      walk_post rc chosen base deps visiting out out'", OF _ that])
    fix walk rc chosen base deps visiting out x
    assume IH: "\<And>rc chosen base deps visiting out x. walk rc chosen base deps visiting out = Some x \<Longrightarrow>
        \<forall>out'. walk_pre rc chosen base deps visiting out \<and> x = Inr out' \<longrightarrow> walk_post rc chosen base deps visiting out out'"
      and eq: "(if deps = [] then Some (Inr out)
        else
        (case dep_key rc base (hd deps) of
           Inl e \<Rightarrow> Some (Inl e)
         | Inr None \<Rightarrow> walk rc chosen base (tl deps) visiting out
         | Inr (Some key) \<Rightarrow>
             if key \<in> set out \<or> key \<in> set visiting then walk rc chosen base (tl deps) visiting out
             else
               (case chosen key of
                  None \<Rightarrow> walk rc chosen base (tl deps) visiting out
                | Some (depBase, rec) \<Rightarrow>
                    Option.bind (walk rc chosen depBase (r_Depends rec) (key # visiting) out)
                      (\<lambda>x. case x of
                         Inl e \<Rightarrow> Some (Inl e)
                       | Inr out' \<Rightarrow> walk rc chosen base (tl deps) visiting (out' @ [key]))))) = Some x"
    show "\<forall>out'. walk_pre rc chosen base deps visiting out \<and> x = Inr out' \<longrightarrow> walk_post rc chosen base deps visiting out out'"
    proof (intro allI impI)
      fix out'
      assume a: "walk_pre rc chosen base deps visiting out \<and> x = Inr out'"
      show "walk_post rc chosen base deps visiting out out'"
      proof (cases deps)
        case Nil
        then show ?thesis using a eq by (auto simp: walk_post_def)
      next
        case (Cons d ds)
        note pre = a [THEN conjunct1, unfolded Cons]
        have rest: "walk_post rc chosen base ds visiting out out'" if "walk rc chosen base ds visiting out = Some x"
          using IH [OF that] walk_pre_tl [OF pre] a by blast
        consider (down) k b r where "dep_key rc base d = Inr (Some k)" "k \<notin> set out" "k \<notin> set visiting" "chosen k = Some (b, r)"
          | (skip) "walk rc chosen base ds visiting out = Some x"
              "\<And>k. dep_key rc base d = Inr (Some k) \<Longrightarrow> k \<in> dom chosen \<Longrightarrow> k \<in> set out \<union> set visiting"
          using eq a Cons by (auto split: sum.splits option.splits if_splits)
        then show ?thesis
        proof cases
          case down
          obtain out1 where w: "walk rc chosen b (r_Depends r) (k # visiting) out = Some (Inr out1)" "walk rc chosen base ds visiting (out1 @ [k]) = Some x"
            using eq a Cons down by (auto split: bind_splits sum.splits)
          have p1: "walk_pre rc chosen b (r_Depends r) (k # visiting) out" by (rule walk_down [OF pre down(1,4,2)])
          then have q1: "walk_post rc chosen b (r_Depends r) (k # visiting) out out1" using IH [OF w(1)] by blast
          have "walk_pre rc chosen base ds visiting (out1 @ [k])" by (rule walk_up [OF pre down(4,3) p1 q1])
          then have "walk_post rc chosen base ds visiting (out1 @ [k]) out'" using IH [OF w(2)] a by blast
          then show ?thesis using walk_post_down [OF pre down(1,4) q1] Cons by blast
        next
          case skip
          then show ?thesis using walk_post_skip [OF rest] Cons by blast
        qed
      qed
    qed
  qed
  then show ?thesis using assms by blast
qed

lemma finalRecords_order:
  assumes "finalRecords rc chosen root = Some (Inr recs)"
  shows "\<exists>ks. recs = map (\<lambda>k. snd (the (chosen k))) ks \<and> distinct ks \<and> set ks = {k \<in> dom chosen. (root, k) \<in> (requires rc chosen)\<^sup>*} \<and>
    postorder (requires rc chosen) ks"
proof (cases "chosen root")
  case None
  then have "{k \<in> dom chosen. (root, k) \<in> (requires rc chosen)\<^sup>*} = {}"
    by (auto simp: requires_def elim: converse_rtranclE)
  then show ?thesis using assms None by (auto simp: finalRecords_def postorder_def)
next
  case (Some p)
  let ?E = "requires rc chosen"
  obtain base r where p: "chosen root = Some (base, r)" using Some by (cases p) auto
  obtain out where o: "final_deps rc chosen base (r_Depends r) [root] [] = Some (Inr out)" "recs = map (\<lambda>k. snd (the (chosen k))) (out @ [root])"
    using assms p by (auto simp: finalRecords_def)
  have "walk_pre rc chosen base (r_Depends r) [root] []" using p by (simp add: walk_pre_def settled_def postorder_def)
  note post = final_deps_post [OF o(1) this]
  have out: "walk_pre rc chosen base [] [root] out" "\<forall>k \<in> set out. (root, k) \<in> ?E\<^sup>*" using post by (auto simp: walk_post_def)
  have y: "y \<in> set out \<union> {root}" if "(root, y) \<in> ?E" for y using that p post by (auto simp: requires_def walk_post_def)
  have "postorder ?E (out @ [root])" using out(1) y by (intro postorder_snoc) (auto simp: walk_pre_def)
  moreover have "distinct (out @ [root])" using out(1) by (auto simp: walk_pre_def)
  moreover have "set (out @ [root]) = {k \<in> dom chosen. (root, k) \<in> ?E\<^sup>*}"
  proof (intro equalityI subsetI)
    fix k
    assume "k \<in> set (out @ [root])"
    then show "k \<in> {k \<in> dom chosen. (root, k) \<in> ?E\<^sup>*}" using out p by (auto simp: walk_pre_def)
  next
    fix k
    assume "k \<in> {k \<in> dom chosen. (root, k) \<in> ?E\<^sup>*}"
    then have "(root, k) \<in> ?E\<^sup>*" by simp
    then show "k \<in> set (out @ [root])"
    proof (induction rule: rtrancl_induct)
      case (step x z)
      then show ?case using out(1) y by (auto simp: walk_pre_def settled_def)
    qed simp
  qed
  ultimately show ?thesis using o(2) by blast
qed

lemma finalRecords_returns: "finite (dom chosen) \<Longrightarrow> \<exists>r. finalRecords rc chosen root = Some r"
  using final_deps_returns by (auto simp: finalRecords_def split: option.split)

end
