(* ===== verification/CondaExtract.thy ===== *)
theory CondaExtract
  imports PathName
begin

text \<open>
  The names and the prefix rewriting of \<open>x/tool/conda/extract.go\<close>: which archive members are
  refused, and what replaces the build-time prefix in text and in binary files. Bytes are \<^typ>\<open>char\<close>s.
  Reading the archives and writing the files is not here.
\<close>

datatype extract_error = ErrPathEscapes string | ErrPrefixTooLong | ErrPrefixLength

section \<open>Member names\<close>

definition safeRel :: "string \<Rightarrow> extract_error + string" where
  "safeRel raw =
     (let name = std_Clean (trim_prefix raw ''./'') in
      if name = ''.'' \<or> name = [] then Inr []
      else if std_IsAbs name \<or> name = ''..'' \<or> has_prefix name ''../'' then Inl (ErrPathEscapes name)
      else Inr name)"

section \<open>Go's \<open>bytes\<close>\<close>

function count_from :: "string \<Rightarrow> string \<Rightarrow> nat" where
  "count_from old s =
     (if old = [] \<or> s = [] then 0
      else if has_prefix s old then Suc (count_from old (drop (length old) s))
      else count_from old (tl s))"
  by pat_completeness auto

termination
  by (relation "measure (\<lambda>(old, s). length s)") auto

declare count_from.simps [simp del]

definition bytes_Count :: "string \<Rightarrow> string \<Rightarrow> nat" where
  "bytes_Count s old = (if old = [] then Suc (length s) else count_from old s)"

fun bytes_Index :: "string \<Rightarrow> string \<Rightarrow> nat option" where
  "bytes_Index [] old = (if old = [] then Some 0 else None)"
| "bytes_Index (c # s) old = (if has_prefix (c # s) old then Some 0 else map_option Suc (bytes_Index s old))"

definition bytes_Contains :: "string \<Rightarrow> string \<Rightarrow> bool" where
  "bytes_Contains s old \<longleftrightarrow> bytes_Index s old \<noteq> None"

abbreviation nul :: char where
  "nul \<equiv> CHR 0x00"

section \<open>Prefix rewriting\<close>

lemma Index_le: "bytes_Index s old = Some i \<Longrightarrow> i \<le> length s"
  by (induction s old arbitrary: i rule: bytes_Index.induct) (auto split: if_splits)

function binary_loop :: "string \<Rightarrow> string \<Rightarrow> string \<Rightarrow> string" where
  "binary_loop old repl data =
     (if data = [] then []
      else
        (case bytes_Index data old of
           None \<Rightarrow> data
         | Some at \<Rightarrow>
             (let tail = drop at data in
              case bytes_Index tail [nul] of
                None \<Rightarrow> take at data @ tail
              | Some end_at \<Rightarrow>
                  (let span = take (end_at + 1) tail;
                       pad = (length old - length repl) * bytes_Count span old
                   in take at data @ ReplaceAll span old repl @ replicate pad nul @ binary_loop old repl (drop (end_at + 1) tail)))))"
  by pat_completeness auto

termination
  by (relation "measure (\<lambda>(old, repl, data). length data)") auto

declare binary_loop.simps [simp del]

definition binaryReplace :: "string \<Rightarrow> string \<Rightarrow> string \<Rightarrow> extract_error + string" where
  "binaryReplace data old repl =
     (let out = binary_loop old repl data in if length out \<noteq> length data then Inl ErrPrefixLength else Inr out)"

definition replacePlaceholder :: "string \<Rightarrow> string \<Rightarrow> string \<Rightarrow> string \<Rightarrow> extract_error + string" where
  "replacePlaceholder data placeholder prefix mode =
     (if \<not> bytes_Contains data placeholder then Inr data
      else if mode \<noteq> ''binary'' then Inr (ReplaceAll data placeholder prefix)
      else if length prefix > length placeholder then Inl ErrPrefixTooLong
      else binaryReplace data placeholder prefix)"

record prefixFile =
  pf_Path :: string
  pf_Type :: string
  pf_Mode :: string
  pf_Placeholder :: string

definition defaultPlaceholder :: string where
  "defaultPlaceholder = ''/opt/anaconda1anaconda2anaconda3''"

definition has_prefix_line :: "string \<Rightarrow> prefixFile list" where
  "has_prefix_line line =
     (case Fields (TrimSpace line) of
        [a] \<Rightarrow> [\<lparr>pf_Path = a, pf_Type = [], pf_Mode = ''text'', pf_Placeholder = defaultPlaceholder\<rparr>]
      | [a, b, c] \<Rightarrow> [\<lparr>pf_Path = c, pf_Type = [], pf_Mode = b, pf_Placeholder = a\<rparr>]
      | _ \<Rightarrow> [])"

text \<open>\<open>strings.Lines\<close> yields each line with its newline; the fields of a line do not see it.\<close>

definition prefixFromHasPrefix :: "string \<Rightarrow> prefixFile list" where
  "prefixFromHasPrefix payload = concat (map has_prefix_line (split_on (CHR 0x0A) payload))"

section \<open>Names stay inside\<close>

lemma safeRel_inside:
  assumes "safeRel raw = Inr name" and "name \<noteq> []"
  shows "\<not> std_IsAbs name" and "std_Clean name = name" and "''..'' \<notin> set (split_on slash name)"
proof -
  let ?s = "trim_prefix raw ''./''"
  have name: "name = std_Clean ?s" "name \<noteq> ''.''" "\<not> std_IsAbs name" "name \<noteq> ''..''" "\<not> has_prefix name ''../''"
    using assms by (auto simp: safeRel_def Let_def split: if_splits)
  show "\<not> std_IsAbs name" by (rule name(3))
  show "std_Clean name = name" unfolding name(1) by (rule Clean_idem)
  obtain xs where xs: "clean_list False xs" "name = render False xs"
    using Clean_is_render [of ?s] name(1,3) Clean_abs [of ?s] by auto
  have "xs \<noteq> []" using name(2) xs(2) by (auto simp: render_def)
  then have split: "split_on slash name = xs" using split_join [of xs slash] clean_list_slash [OF xs(1)] xs(2) by (simp add: render_def)
  obtain k ys where k: "xs = replicate k ''..'' @ ys" "''..'' \<notin> set ys" using xs(1) by (auto simp: clean_list_def)
  have "k = 0"
  proof (rule ccontr)
    assume "k \<noteq> 0"
    then obtain zs where z: "xs = ''..'' # zs" using k(1) by (cases k) auto
    then show False using name(4,5) xs(2) by (cases zs) (auto simp: render_def has_prefix_def)
  qed
  then show "''..'' \<notin> set (split_on slash name)" using k split by simp
qed

section \<open>The size is kept\<close>

lemma replace_from_length:
  "length (replace_from old new s) + count_from old s * length old = length s + count_from old s * length new"
proof (induction old new s rule: replace_from.induct)
  case (1 old new s)
  show ?case
  proof (cases "old = [] \<or> s = []")
    case True
    then show ?thesis by (simp add: replace_from.simps [of old new s] count_from.simps [of old s])
  next
    case False
    then have "has_prefix s old \<Longrightarrow> length old \<le> length s" by (metis has_prefix_def nat_le_linear take_all order_refl)
    then show ?thesis using 1 False
      by (cases "has_prefix s old") (auto simp: replace_from.simps [of old new s] count_from.simps [of old s])
  qed
qed

lemma ReplaceAll_padded:
  assumes "old \<noteq> []" and "length new \<le> length old"
  shows "length (ReplaceAll s old new) + (length old - length new) * bytes_Count s old = length s"
proof -
  have "bytes_Count s old * length new \<le> bytes_Count s old * length old" using assms(2) by simp
  moreover have "(length old - length new) * bytes_Count s old = bytes_Count s old * length old - bytes_Count s old * length new"
    by (metis diff_mult_distrib mult.commute)
  ultimately show ?thesis using replace_from_length [of old new s] assms(1) by (simp add: ReplaceAll_def bytes_Count_def)
qed

lemma binary_loop_length:
  assumes "old \<noteq> []" and "length repl \<le> length old"
  shows "length (binary_loop old repl data) = length data"
proof (induction "length data" arbitrary: data rule: less_induct)
  case less
  show ?case
  proof (cases "data = [] \<or> bytes_Index data old = None")
    case True
    then show ?thesis by (auto simp: binary_loop.simps [of old repl data])
  next
    case False
    then obtain i where i: "data \<noteq> []" "bytes_Index data old = Some i" by auto
    show ?thesis
    proof (cases "bytes_Index (drop i data) [nul]")
      case None
      then show ?thesis using i by (simp add: binary_loop.simps [of old repl data] Let_def)
    next
      case (Some e)
      let ?span = "take (e + 1) (drop i data)" and ?rest = "drop (e + 1) (drop i data)"
      have "length (binary_loop old repl ?rest) = length ?rest" using i(1) by (intro less) simp
      moreover have "length (ReplaceAll ?span old repl) + (length old - length repl) * bytes_Count ?span old = length ?span"
        using assms by (rule ReplaceAll_padded)
      moreover have "length data = length (take i data) + length ?span + length ?rest" by simp
      moreover have out: "binary_loop old repl data =
          take i data @ ReplaceAll ?span old repl @ replicate ((length old - length repl) * bytes_Count ?span old) nul @ binary_loop old repl ?rest"
        using i Some by (simp add: binary_loop.simps [of old repl data] Let_def)
      ultimately show ?thesis unfolding out length_append length_replicate by linarith
    qed
  qed
qed

text \<open>The check on the size at the end of \<open>binaryReplace\<close> never fails.\<close>

lemma binaryReplace_ok:
  assumes "old \<noteq> []" and "length repl \<le> length old"
  shows "binaryReplace data old repl = Inr (binary_loop old repl data)"
  using binary_loop_length [OF assms] by (simp add: binaryReplace_def)

section \<open>Strings are rewritten one by one\<close>

text \<open>What the rewriting does to a file: every NUL-terminated string of it has the prefix replaced and is padded to its length.\<close>

function rewrite_strings :: "string \<Rightarrow> string \<Rightarrow> string \<Rightarrow> string" where
  "rewrite_strings old repl data =
     (case bytes_Index data [nul] of
        None \<Rightarrow> data
      | Some e \<Rightarrow>
          (let span = take (e + 1) data in
           ReplaceAll span old repl @ replicate ((length old - length repl) * bytes_Count span old) nul @
           rewrite_strings old repl (drop (e + 1) data)))"
  by pat_completeness auto

termination
proof (relation "measure (\<lambda>(old, repl, data). length data)")
  fix old repl data e x
  assume "bytes_Index data [nul] = Some e"
  then show "((old, repl, drop (e + 1) data), (old, repl, data)) \<in> measure (\<lambda>(old, repl, data). length data)"
    by (cases data) auto
qed simp

declare rewrite_strings.simps [simp del]

definition occurs_at :: "string \<Rightarrow> string \<Rightarrow> nat \<Rightarrow> bool" where
  "occurs_at old s k \<longleftrightarrow> has_prefix (drop k s) old"

lemma Index_Some: "bytes_Index s old = Some i \<Longrightarrow> occurs_at old s i \<and> (\<forall>k < i. \<not> occurs_at old s k)"
proof (induction s arbitrary: i)
  case (Cons c s)
  then show ?case by (auto simp: occurs_at_def less_Suc_eq_0_disj split: if_splits)
qed (simp add: occurs_at_def has_prefix_def split: if_splits)

lemma Index_None: "bytes_Index s old = None \<Longrightarrow> \<not> occurs_at old s k"
proof (induction s arbitrary: k)
  case (Cons c s)
  then show ?case by (cases k) (auto simp: occurs_at_def split: if_splits)
qed (auto simp: occurs_at_def has_prefix_def split: if_splits)

lemma Index_SomeI: "occurs_at old s i \<Longrightarrow> \<forall>k < i. \<not> occurs_at old s k \<Longrightarrow> bytes_Index s old = Some i \<or> old = []"
  by (metis Index_None Index_Some not_None_eq linorder_neqE_nat)

lemma occurs_take: "occurs_at old (take n s) k \<Longrightarrow> occurs_at old s k"
proof -
  assume "occurs_at old (take n s) k"
  then have "take (length old) (take (n - k) (drop k s)) = old" by (simp add: occurs_at_def has_prefix_def drop_take)
  then have "take (length old) (drop k s) = old" by (metis length_take min.cobounded2 min.left_commute min_def take_take)
  then show ?thesis by (simp add: occurs_at_def has_prefix_def)
qed

lemma replace_skip:
  "\<forall>k < length p. \<not> occurs_at old (p @ s) k \<Longrightarrow>
    replace_from old new (p @ s) = p @ replace_from old new s \<and> count_from old (p @ s) = count_from old s"
proof (induction p)
  case (Cons c p)
  then have "\<not> has_prefix (c # p @ s) old" by (auto simp: occurs_at_def)
  moreover have "\<forall>k < length p. \<not> occurs_at old (p @ s) k" using Cons.prems by (auto simp: occurs_at_def)
  moreover from calculation(1) have "old \<noteq> []" by (auto simp: has_prefix_def)
  ultimately show ?case
    using Cons.IH by (simp add: replace_from.simps [of old new "c # p @ s"] count_from.simps [of old "c # p @ s"])
qed simp

lemma ReplaceAll_skip:
  assumes "old \<noteq> []" and "\<forall>k < length p. \<not> occurs_at old (p @ s) k"
  shows "ReplaceAll (p @ s) old new = p @ ReplaceAll s old new" and "bytes_Count (p @ s) old = bytes_Count s old"
  using replace_skip [OF assms(2), of new] assms(1) by (simp_all add: ReplaceAll_def bytes_Count_def)

lemma ReplaceAll_none:
  assumes "old \<noteq> []" and "\<forall>k < length p. \<not> occurs_at old p k"
  shows "ReplaceAll p old new = p" and "bytes_Count p old = 0"
  using ReplaceAll_skip [of old p "[]"] assms
  by (simp_all add: ReplaceAll_def bytes_Count_def replace_from.simps [of old new "[]"] count_from.simps [of old "[]"])

lemma rewrite_unfold:
  assumes "bytes_Index data [nul] = Some e"
  shows "rewrite_strings old repl data =
    ReplaceAll (take (e + 1) data) old repl @ replicate ((length old - length repl) * bytes_Count (take (e + 1) data) old) nul @
    rewrite_strings old repl (drop (e + 1) data)"
  using assms by (simp add: rewrite_strings.simps [of old repl data] Let_def)

lemma binary_unfold:
  assumes "bytes_Index data old = Some i" and "bytes_Index (drop i data) [nul] = Some e" and "data \<noteq> []"
  shows "binary_loop old repl data =
    take i data @ ReplaceAll (take (e + 1) (drop i data)) old repl @
    replicate ((length old - length repl) * bytes_Count (take (e + 1) (drop i data)) old) nul @
    binary_loop old repl (drop (e + 1) (drop i data))"
  using assms by (simp add: binary_loop.simps [of old repl data] Let_def)

lemma binary_open:
  assumes "bytes_Index (drop i data) [nul] = None" and "bytes_Index data old = Some i"
  shows "binary_loop old repl data = data"
  using assms by (auto simp: binary_loop.simps [of old repl data] Let_def)

lemma binary_none: "bytes_Index data old = None \<Longrightarrow> binary_loop old repl data = data"
  by (simp add: binary_loop.simps [of old repl data])

lemma occurs_drop: "occurs_at old (drop n s) k \<longleftrightarrow> occurs_at old s (n + k)"
  by (simp add: occurs_at_def add.commute)

text \<open>The strings before the first placeholder stay as they are.\<close>

lemma binary_skip:
  assumes "old \<noteq> []" and "\<forall>k < n. \<not> occurs_at old data k" and "n \<le> length data"
  shows "binary_loop old repl data = take n data @ binary_loop old repl (drop n data)"
proof (cases "bytes_Index data old")
  case None
  then have "\<not> occurs_at old (drop n data) k" for k using Index_None by (simp add: occurs_drop)
  then have "bytes_Index (drop n data) old = None" using Index_Some by (metis not_None_eq)
  then show ?thesis using None by (simp add: binary_none)
next
  case (Some i)
  then have i: "occurs_at old data i" "\<forall>k < i. \<not> occurs_at old data k" using Index_Some by auto
  then have ni: "n \<le> i" using assms(2) by (meson not_le)
  have "bytes_Index (drop n data) old = Some (i - n)"
    using Index_SomeI [of old "drop n data" "i - n"] i ni assms(1) by (simp add: occurs_drop)
  moreover have d: "drop (i - n) (drop n data) = drop i data" using ni by simp
  moreover have t: "take n data @ take (i - n) (drop n data) = take i data" using ni by (metis le_add_diff_inverse take_add)
  moreover have "data \<noteq> []" "drop n data \<noteq> []" using i(1) ni assms(1) by (auto simp: occurs_at_def has_prefix_def)
  ultimately show ?thesis
    using Some binary_unfold [of data old i _ repl] binary_unfold [of "drop n data" old "i - n" _ repl] binary_open
    by (cases "bytes_Index (drop i data) [nul]") (simp_all add: binary_open [of i] binary_open [of "i - n"] flip: append_assoc)
qed

theorem binary_loop_strings:
  assumes "old \<noteq> []"
  shows "binary_loop old repl data = rewrite_strings old repl data"
proof (induction "length data" arbitrary: data rule: less_induct)
  case less
  show ?case
  proof (cases "bytes_Index data [nul]")
    case None
    then have "\<not> occurs_at [nul] (drop i data) k" for i k using Index_None by (simp add: occurs_drop)
    then have "bytes_Index (drop i data) [nul] = None" for i using Index_Some by (metis not_None_eq)
    then show ?thesis using None by (cases "bytes_Index data old") (auto simp: rewrite_strings.simps [of old repl data] binary_none binary_open)
  next
    case (Some e)
    then have e: "e < length data" "data \<noteq> []" using Index_Some [OF Some] by (auto simp: occurs_at_def has_prefix_def intro: ccontr)
    then have IH: "binary_loop old repl (drop (e + 1) data) = rewrite_strings old repl (drop (e + 1) data)" by (intro less) simp
    show ?thesis
    proof (cases "\<forall>k < e + 1. \<not> occurs_at old data k")
      case True
      have "\<forall>k < length (take (e + 1) data). \<not> occurs_at old (take (e + 1) data) k"
      proof (intro allI impI notI)
        fix k assume "k < length (take (e + 1) data)" "occurs_at old (take (e + 1) data) k"
        then show False using True occurs_take [of old "e + 1" data k] by simp
      qed
      note n = ReplaceAll_none [OF assms this]
      show ?thesis
        unfolding rewrite_unfold [OF Some] n using binary_skip [OF assms True] e(1) IH by simp
    next
      case False
      then obtain k where k: "k < e + 1" "occurs_at old data k" by blast
      then obtain i where i0: "bytes_Index data old = Some i" using Index_None by (cases "bytes_Index data old") blast+
      then have "\<not> k < i" using Index_Some k(2) by blast
      then have i: "bytes_Index data old = Some i" "i \<le> e" using i0 k(1) by simp_all
      have none: "\<forall>k < i. \<not> occurs_at old data k" using Index_Some [OF i(1)] by simp
      have "occurs_at [nul] (drop i data) (e - i)" "\<forall>k < e - i. \<not> occurs_at [nul] (drop i data) k"
        using Index_Some [OF Some] i(2) by (auto simp: occurs_drop)
      then have z: "bytes_Index (drop i data) [nul] = Some (e - i)" using Index_SomeI by blast
      have s: "take (e + 1) data = take i data @ take (e - i + 1) (drop i data)" "drop (e + 1) data = drop (e - i + 1) (drop i data)"
        using i(2) by (simp_all add: take_add [symmetric])
      have "\<forall>k < length (take i data). \<not> occurs_at old (take i data @ take (e - i + 1) (drop i data)) k"
        unfolding s(1) [symmetric]
      proof (intro allI impI notI)
        fix k assume "k < length (take i data)" "occurs_at old (take (e + 1) data) k"
        then show False using none occurs_take [of old "e + 1" data k] by simp
      qed
      note k = ReplaceAll_skip [OF assms this]
      show ?thesis
        unfolding rewrite_unfold [OF Some] s(1) k binary_unfold [OF i(1) z e(2)] using IH s(2) by simp
    qed
  qed
qed

end
