(* ===== verification/Spec2Isabelle.thy ===== *)
theory Spec2Isabelle
  imports NdTracker WorldReach NinjaGraph TaskGroupReach LineWriterLive CondaClosure CondaExtract
begin

text \<open>
  \<^bold>\<open>Verification of the core libraries of lewkit\<close>

  lewkit is a Go toolkit. This development models the libraries that carry its own logic, proves
  what makes them correct, and records where the code does not do what it means to do. Source paths
  are relative to \<open>src/\<close>.

  \<^bold>\<open>Parts and how they interact\<close>

  \<^item> \<open>x/ndarray\<close> (shapes, views, trackers): a tensor is a buffer seen through a stack of strided, masked
    views; movement operations change the views, never the buffer.
  \<^item> \<open>x/ui/world\<close>: an entity-component world with generational entities, columns of components,
    resources, message logs, deferred edits, change marks, queries, and a scheduler of systems that runs
    them in frames.
  \<^item> \<open>x/taskgroup\<close>: sessions of tasks with dependencies on worker pools, with failure, isolation and
    cancellation; writers that turn the output of subprocesses into lines and live rows of a display.
  \<^item> \<open>x/workflow\<close>: build graphs. The closure of the targets is submitted to a task group, one task per
    step. A front end reads ninja files into graphs.
  \<^item> \<open>x/path\<close>: slash-separated names.
  \<^item> \<open>x/tool/conda\<close>: conda versions, match specs, channels, the selection of records, the order they are installed
    in, and the rewriting of prefixes in extracted files.

  \<^bold>\<open>Theories\<close>

  \<^item> \<open>LewPrelude\<close>: results of fallible functions (\<open>Inl\<close> error, \<open>Inr\<close> value), Go's integer division, list
    lemmas. \<open>GoStrings\<close>: the functions of Go's \<open>strings\<close> the components call, on bytes.
  \<^item> \<open>NdShape\<close> (\<open>shape.go\<close>), \<open>NdView\<close>, \<open>NdMove\<close>, \<open>NdReshape\<close> (\<open>view.go\<close>), \<open>NdTracker\<close> (\<open>tracker.go\<close>). The
    state is the record \<open>tracker\<close>, a stack of \<open>view\<close>s; \<open>t_addr\<close> is the partial function from coordinates to
    buffer cells it denotes. Each operation is proved to refine the operation on that function
    (permute, expand, flip, pad, shrink, reshape), to keep well-formedness, and \<open>Index\<close> to compute it in
    bounds.
  \<^item> \<open>WorldCore\<close>, \<open>WorldStore\<close> (\<open>world.go\<close>, \<open>column.go\<close>, \<open>change.go\<close>, \<open>resource.go\<close>, \<open>spawn.go\<close>), \<open>WorldSchedule\<close>
    (\<open>schedule.go\<close>), \<open>WorldMessages\<close> (\<open>message.go\<close>), \<open>WorldSim\<close> (\<open>sim.go\<close>, \<open>time.go\<close>), \<open>WorldQuery\<close> (\<open>query.go\<close>),
    \<open>WorldReach\<close>. The state is the record \<open>world\<close>; a Go type is a key, a value is its bits, a closure is a number run
    by the parameter \<open>code\<close>. \<open>WorldReach\<close> has the states a program can reach, with the store
    invariant for all of them; the plan of a set is a topological order, first registered first.
  \<^item> \<open>TaskGroup\<close> (\<open>taskgroup.go\<close>, \<open>exec.go\<close>, \<open>ready.go\<close>, \<open>tree.go\<close>, \<open>arg.go\<close>): the record \<open>session\<close> holds the tasks as
    a table; \<open>machine\<close> adds the workers. A step of the machine is one critical section of a submitter, a
    worker or the cancellation, so \<open>tg_path\<close> has every interleaving of them. \<open>TaskGroupSafe\<close>,
    \<open>TaskGroupFuel\<close>, \<open>TaskGroupInv\<close> and \<open>TaskGroupReach\<close> prove, in this order, what a finishing cascade may change,
    that it returns, the invariant, and the properties of reachable states.
  \<^item> \<open>LineFilter\<close> (\<open>linefilter.go\<close>): a terminal of one line, from bytes to lines of runes, with what it keeps back.
    \<open>LineWriter\<close> (\<open>linewriter.go\<close>, \<open>lines.go\<close>): writers, the hub of their rows, and a machine whose steps are the
    critical sections of overlapping calls (\<open>lw_reach\<close>). \<open>LineWriterLive\<close>: what the display shows, for calls that
    do not overlap (\<open>lw_seq\<close>) and for calls that do.
  \<^item> \<open>Workflow\<close>, \<open>WorkflowRun\<close> (\<open>workflow.go\<close>, \<open>step.go\<close>): aliases, closure, schedule; staleness and the run of a
    step, with file times and tasks as parameters.
  \<^item> \<open>NinjaParse\<close> (\<open>ninja/expand.go\<close>, \<open>ninja/parse.go\<close>): variables, tokens, the lines of a file and the files it
    includes, with the file system as the parameter \<open>read\<close>. \<open>NinjaGraph\<close> (\<open>ninja/ninja.go\<close>): the graph of a file, proved
    together with \<open>closure\<close>.
  \<^item> \<open>PathName\<close> (\<open>path.go\<close>), with Go's \<open>path\<close> package on components.
  \<^item> \<open>CondaVersion\<close> (\<open>version.go\<close>), \<open>CondaMatch\<close> (\<open>match.go\<close>), \<open>CondaSelect\<close> (\<open>resolve.go\<close>: choosing a
    record), \<open>CondaClosure\<close> (\<open>ref.go\<close>: channels and references, with \<open>net/url\<close> as a parameter; \<open>finalRecords\<close> of
    \<open>resolve.go\<close>), \<open>CondaExtract\<close> (\<open>extract.go\<close>).

  \<^bold>\<open>Interfaces\<close>

  Locales state what a client relies on: the laws of the entity store, of the movement operations
  on address functions, of the recursive runner of the task group (\<open>runner\<close>, \<open>total_runner\<close>), of a stream that may
  be cut anywhere (\<open>chunked\<close>, for the line filter and for log lines), and of a three-way comparison (\<open>three_way\<close>), which is interpreted on atoms, components, versions, numbers and
  records; its lemmas give the order of lists and the best element of one.

  \<^bold>\<open>Fuel and bounds\<close>

  A loop that is not structurally recursive takes fuel or is a \<open>partial_function\<close>; \<open>None\<close> is not
  returning. Enough fuel is part of the definitions that use it: the number of steps for the walk of
  \<open>closure\<close>, the number of tokens for version expressions, the number of tasks for the cascades of a
  task group; that it is enough is proved (\<open>wf_closure_total\<close>, \<open>conda_spec\<close>, \<open>tg_returns\<close>, \<open>nd_reshape_total\<close>,
  \<open>world_flush_own\<close>). Sizes and offsets are \<open>int\<close>; generations of entities and numbers in conda versions keep
  their machine width, with the wrap-around written out.

  \<^bold>\<open>What the properties show\<close>

  Tensors: \<open>nd_index\<close> and the operations after it. World: the store invariant, spawning, deferred and immediate edits, flushes,
  frames, plans, change detection, delivery of messages, queries, walks. Task groups: the count that
  \<open>Wait\<close> waits for, dependencies in every interleaving, no task is forgotten, operations return. Line writers:
  rows and lines are bounded and printable in every interleaving, streams are printed whatever their pieces,
  the rows are the lines of the open writers. Workflows:
  what is built and in which order, also as run by a task group, and when a step is rebuilt. Ninja
  files: build lines are read back, a step follows those that make its inputs, only cycles and unknown targets
  fail, graphs are made. Paths: \<open>Rel\<close> and
  \<open>Join\<close>. Conda: the order of versions, specs end to end, picks, the records of a closure and their order,
  binary prefixes, member names. Some state
  what the code does where it does not do what it should: \<open>world_each_edits\<close>, \<open>tg_hang\<close>, \<open>tg_early\<close>, \<open>lw_stale\<close>, \<open>lf_tab\<close>,
  \<open>lf_drops\<close>, \<open>wf_alias_not_rebuilt\<close>,
  \<open>conda_version_order\<close> (numbers that wrap), \<open>conda_pick_order_matters\<close>.

  \<^bold>\<open>Not modelled\<close>

  The rest of \<open>x/ndarray\<close> (expressions, kernels, optimiser: floating point and code generation), the user
  interfaces, drivers and foreign functions, the copy of the Go toolchain, parsers and generated tables,
  building, packaging and services: I/O around libraries. Of the modelled packages: \<open>Map\<close> and
  the drawing of the progress display of the task group, the file operations of \<open>x/path\<close>, the make front end, the concurrent walk and the
  index of conda. Go's memory model is not: critical sections under a mutex are atomic steps. The number
  of live writers is taken to be below \<open>2 ^ 64\<close> where their names must differ.
\<close>

section \<open>Tensors: views and trackers\<close>

text \<open>Concrete trackers for the witnesses: a 2x3 tensor, and what the operations make of it.\<close>

abbreviation tracker_23 :: tracker where
  "tracker_23 \<equiv> \<lparr>views = [\<lparr>v_shape = [2, 3], v_strides = [3, 1], v_offset = 0, v_mask = None\<rparr>]\<rparr>"

lemma Of_23: "Of [2, 3] = Inr tracker_23"
  by (simp add: Of_def create_def shape_check_err live_def create_mask_def)

lemma tracker_23_wf: "wf_tracker 6 tracker_23" "tracker_Shape tracker_23 = [2, 3]"
  using Of_correct(1,2) [OF Of_23] by simp_all

lemma tracker_23_addr: "in_bounds [2, 3] cs \<Longrightarrow> t_addr tracker_23 cs = Some (ravel [2, 3] cs)"
  using Of_correct(4) [OF Of_23] by simp

lemma bounds_examples: "in_bounds [2, 3] [1, 2]" "in_bounds [3, 2] [2, 1]" "\<not> in_bounds [2, 3] [2, 0]"
  by (simp_all add: in_bounds_def All_less_Suc Ex_less_Suc)





text \<open>
  \<open>Tracker.Permute\<close> keeps the tracker well formed over the same buffer; its axes may count
  from the end, and cell \<open>cs\<close> of the old tensor is the cell with the coordinates permuted.
\<close>

theorem nd_permute:
  assumes "wf_tracker n t" and "Permute t axes = Inr t'"
  shows "wf_tracker n t' \<and>
    tracker_Shape t' = gather (map (norm_axis (length (tracker_Shape t))) axes) (tracker_Shape t) \<and>
    (\<forall>cs. in_bounds (tracker_Shape t) cs \<longrightarrow>
       t_addr t' (gather (map (norm_axis (length (tracker_Shape t))) axes) cs) = t_addr t cs)"
  using Permute_refines [OF assms] by blast

abbreviation tracker_32 :: tracker where
  "tracker_32 \<equiv> \<lparr>views = [\<lparr>v_shape = [3, 2], v_strides = [1, 3], v_offset = 0, v_mask = None\<rparr>]\<rparr>"

lemma Permute_23: "Permute tracker_23 [-1, 0] = Inr tracker_32"
  by (simp add: Permute_def normalizeAxes_def last_view_def isPermutation_def permute_def create_def
      shape_check_err live_def create_mask_def canonicalStrides_def tracker_check_def replace_def)

theorem nd_permute_witness: "wf_tracker 6 tracker_32 \<and> t_addr tracker_32 [2, 1] = Some 5"
proof -
  note p = nd_permute [OF tracker_23_wf(1) Permute_23]
  then have "\<forall>cs. in_bounds [2, 3] cs \<longrightarrow> t_addr tracker_32 (gather [1, 0] cs) = t_addr tracker_23 cs"
    by (simp add: tracker_23_wf norm_axis_def)
  then show ?thesis using p bounds_examples(1) tracker_23_addr [OF bounds_examples(1)]
    by (auto simp: gather_def dest: spec [where x = "[1, 2]"])
qed

text \<open>
  \<open>Tracker.Expand\<close> broadcasts: the new shape is the one asked for, a cell of it shows the
  cell whose coordinates on the broadcast axes are zero, and no view but the top one changes.
\<close>

theorem nd_expand:
  assumes "wf_tracker n t" and "Expand t sh = Inr t'"
  shows "wf_tracker n t' \<and> tracker_Shape t' = sh \<and>
    (\<forall>cs. in_bounds sh cs \<longrightarrow> t_addr t' cs = t_addr t (unexpand (tracker_Shape t) sh cs))"
  using expanding.mapView_refines [OF assms(1), of sh t'] assms(2) by (simp add: Expand_def)

abbreviation tracker_13 :: tracker where
  "tracker_13 \<equiv> \<lparr>views = [\<lparr>v_shape = [1, 3], v_strides = [0, 1], v_offset = 0, v_mask = None\<rparr>]\<rparr>"

abbreviation tracker_exp :: tracker where
  "tracker_exp \<equiv> \<lparr>views = [\<lparr>v_shape = [2, 3], v_strides = [0, 1], v_offset = 0, v_mask = None\<rparr>]\<rparr>"

lemmas eval_create = create_def shape_check_err live_def create_mask_def canonicalStrides_def

lemmas eval_tracker = last_view_def tracker_check_def replace_def mapView_def

lemma Of_13: "Of [1, 3] = Inr tracker_13"
  by (simp add: Of_def eval_create)

lemma Expand_13: "Expand tracker_13 [2, 3] = Inr tracker_exp"
  by (simp add: Expand_def expand_def eval_tracker eval_create)

theorem nd_expand_witness: "wf_tracker 3 tracker_exp \<and> t_addr tracker_exp [1, 2] = Some 2"
proof -
  have t: "wf_tracker 3 tracker_13" "tracker_Shape tracker_13 = [1, 3]"
    "in_bounds [1, 3] [0, 2] \<Longrightarrow> t_addr tracker_13 [0, 2] = Some 2"
    using Of_correct [OF Of_13] by simp_all
  show ?thesis using nd_expand [OF t(1) Expand_13] t(2,3) bounds_examples
    by (auto simp: unexpand_def in_bounds_def All_less_Suc dest!: spec [where x = "[1, 2]"])
qed

text \<open>
  \<open>Tracker.Flip\<close> reverses the axes it is given, each once however often it is named.
\<close>

theorem nd_flip:
  assumes "wf_tracker n t" and "Flip t axes = Inr t'"
  shows "wf_tracker n t' \<and> tracker_Shape t' = tracker_Shape t \<and>
    (\<forall>cs. in_bounds (tracker_Shape t) cs \<longrightarrow>
       t_addr t' cs = t_addr t (mirror (tracker_Shape t) (norm_axis (length (tracker_Shape t)) ` set axes) cs))"
  using Flip_refines [OF assms] by blast

abbreviation tracker_flip :: tracker where
  "tracker_flip \<equiv> \<lparr>views = [\<lparr>v_shape = [2, 3], v_strides = [3, -1], v_offset = 2, v_mask = None\<rparr>]\<rparr>"

lemma Flip_23: "Flip tracker_23 [-1] = Inr tracker_flip"
  by (simp add: Flip_def flip_def normalizeAxes_def eval_tracker eval_create)

theorem nd_flip_witness: "wf_tracker 6 tracker_flip \<and> t_addr tracker_flip [1, 2] = Some 3"
  using nd_flip [OF tracker_23_wf(1) Flip_23] tracker_23_addr [of "[1, 0]"]
  by (auto simp: tracker_23_wf mirror_def norm_axis_def in_bounds_def All_less_Suc dest!: spec [where x = "[1, 2]"])





text \<open>
  \<open>Tracker.Shrink\<close> keeps the window it is given: cell \<open>cs\<close> of the result is cell
  \<open>cs + lo\<close> of the tensor.
\<close>

theorem nd_shrink:
  assumes "wf_tracker n t" and "Shrink t arg = Inr t'"
  shows "wf_tracker n t' \<and> tracker_Shape t' = window_shape arg \<and>
    (\<forall>cs. in_bounds (window_shape arg) cs \<longrightarrow> t_addr t' cs = t_addr t (shift arg cs))"
proof -
  have p: "mapView t (\<lambda>v. shrink v arg) = Inr t'" using assms(2) by (simp add: Shrink_def)
  show ?thesis using shrinking.mapView_refines [OF assms(1) p] by simp
qed

abbreviation tracker_win :: tracker where
  "tracker_win \<equiv> \<lparr>views = [\<lparr>v_shape = [1, 3], v_strides = [0, 1], v_offset = 3, v_mask = None\<rparr>]\<rparr>"

lemma Shrink_23: "Shrink tracker_23 [(1, 2), (0, 3)] = Inr tracker_win"
  by (simp add: Shrink_def shrink_def resize_def eval_tracker eval_create)

theorem nd_shrink_witness: "wf_tracker 6 tracker_win \<and> t_addr tracker_win [0, 2] = Some 5"
  using nd_shrink [OF tracker_23_wf(1) Shrink_23] tracker_23_addr [of "[1, 2]"]
  by (auto simp: tracker_23_wf shift_def window_shape_def in_bounds_def All_less_Suc dest: spec [where x = "[0, 2]"])



lemma tracker_23_Size: "tracker_Size tracker_23 = 6"
  using wf_tracker_Size(1) [OF tracker_23_wf(1)] by (simp add: tracker_23_wf)





text \<open>
  \<open>Tracker.At\<close> reads the cell with a row-major number: inside \<open>[0, Size)\<close> it is \<open>Index\<close> at
  coordinates that lie in the shape and have that number; any other number is an index error.
\<close>

theorem nd_at:
  assumes "wf_tracker n t"
  shows "if 0 \<le> i \<and> i < tracker_Size t
         then \<exists>cs. in_bounds (tracker_Shape t) cs \<and> ravel (tracker_Shape t) cs = i \<and> At t i = Index t cs
         else At t i = Inl ErrIndex"
proof -
  have "\<exists>cs. in_bounds (tracker_Shape t) cs \<and> ravel (tracker_Shape t) cs = i \<and> At t i = Index t cs"
    if i: "0 \<le> i" "i < tracker_Size t"
  proof (intro exI conjI)
    note a = At_correct [OF assms i]
    then show "At t i = Index t (unravel (tracker_Shape t) i)" "in_bounds (tracker_Shape t) (unravel (tracker_Shape t) i)" .
    show "ravel (tracker_Shape t) (unravel (tracker_Shape t) i) = i"
      using ravel_unravel [OF in_bounds_pos [OF a(2)]] i wf_tracker_Size(1) [OF assms] by simp
  qed
  then show ?thesis using At_out_of_range [OF assms, of i] by auto
qed

theorem nd_at_witness: "At tracker_23 6 = Inl ErrIndex \<and> (\<exists>cs. ravel [2, 3] cs = 4 \<and> At tracker_23 4 = Index tracker_23 cs)"
  using nd_at [OF tracker_23_wf(1), of 6] nd_at [OF tracker_23_wf(1), of 4] by (auto simp: tracker_23_Size tracker_23_wf)

text \<open>
  \<open>Of\<close> succeeds on exactly the shapes with no negative extent, and the tracker it returns
  is contiguous: it reads the cells of a buffer of \<open>Size\<close> cells in row-major order.
\<close>

theorem nd_of:
  "((\<exists>t. Of sh = Inr t) \<longleftrightarrow> live sh) \<and>
   (\<forall>t. Of sh = Inr t \<longrightarrow> wf_tracker (Size sh) t \<and> tracker_Shape t = sh \<and> Contiguous t \<and>
     (\<forall>cs. in_bounds sh cs \<longrightarrow> t_addr t cs = Some (ravel sh cs)))"
  using Of_ok [of sh] Of_correct [of sh] by blast

theorem nd_of_witness: "Contiguous tracker_23 \<and> Size [2, 3] = 6"
  using nd_of [of "[2, 3]"] Of_23 by (auto simp: Size_def)

text \<open>
  \<open>Shape.Infer\<close> returns a shape of the size asked for, with the extents it was given in
  their places; and it finds the one extent \<open>-1\<close> stands for whenever the others have a
  non-zero product.
\<close>

theorem nd_infer:
  assumes "0 \<le> sz"
  shows "(\<forall>out. Infer s sz = Inr out \<longrightarrow> live out \<and> Size out = sz \<and> length out = length s \<and>
            (\<forall>i < length s. s ! i \<noteq> -1 \<longrightarrow> out ! i = s ! i)) \<and>
         (\<forall>as d bs. s = as @ -1 # bs \<and> live as \<and> live bs \<and> 0 \<le> d \<and> Size (as @ d # bs) = sz \<and> 0 < Size (as @ bs) \<longrightarrow>
            Infer s sz = Inr (as @ d # bs))"
  using Infer_sound [OF _ assms, of s] Infer_complete by blast

theorem nd_infer_witness: "Infer [3, -1] 6 = Inr ([3] @ 2 # []) \<and> Size [3, 2] = 6"
proof -
  have sz: "(0 :: int) \<le> 6" by simp
  show ?thesis
    using conjunct2 [OF nd_infer [OF sz, of "[3] @ -1 # []"], rule_format, of "[3]" "[]" 2]
    by (simp add: live_def Size_def)
qed

text \<open>
  \<open>WindowLength\<close> counts the window positions: position \<open>k\<close> fits exactly when the window that
  starts at \<open>k * stride\<close> ends inside the padded extent.
\<close>

theorem nd_window_length:
  assumes "1 \<le> stride" and "0 \<le> k"
  shows "k < WindowLength n before after ksize stride \<longleftrightarrow> k * stride + ksize \<le> n + before + after"
  using assms by (rule WindowLength_spec)

theorem nd_window_length_witness: "2 < WindowLength 7 0 0 3 2 \<and> \<not> 3 < WindowLength 7 0 0 3 2"
  using nd_window_length [of 2 2 7 0 0 3] nd_window_length [of 2 3 7 0 0 3] by simp

text \<open>
  \<open>CoverPad\<close> never shrinks the padding, changes only the pad after the extent, and the
  extent it pads has at least the number of windows asked for.
\<close>

theorem nd_cover_pad:
  assumes "1 \<le> stride" and "0 \<le> out" and "CoverPad n ksize stride out before after = (before', after')"
  shows "before' = before \<and> after \<le> after' \<and> out \<le> WindowLength n before' after' ksize stride"
  using assms by (rule CoverPad_covers)

theorem nd_cover_pad_witness: "4 \<le> WindowLength 7 0 (snd (CoverPad 7 3 2 4 0 0)) 3 2"
  using nd_cover_pad [of 2 4 7 3 0 0 "fst (CoverPad 7 3 2 4 0 0)" "snd (CoverPad 7 3 2 4 0 0)"] by auto

text \<open>
  \<open>Tracker.Splat\<close> turns a tracker with one cell into a scalar that reads the same cell of
  the buffer, and it never returns a scalar for padding.
\<close>

theorem nd_splat:
  assumes "wf_tracker n t" and "Splat t = Inr t'"
  shows "tracker_Size t = 1 \<and> wf_tracker n t' \<and> tracker_Shape t' = [] \<and>
    t_addr t' [] = t_addr t (unravel (tracker_Shape t) 0) \<and> t_addr t' [] \<noteq> None"
  using assms by (rule Splat_correct)

abbreviation tracker_1 :: tracker where
  "tracker_1 \<equiv> \<lparr>views = [\<lparr>v_shape = [1], v_strides = [0], v_offset = 0, v_mask = None\<rparr>]\<rparr>"

lemma Of_1: "Of [1] = Inr tracker_1"
  by (simp add: Of_def eval_create)

lemma Splat_1: "Splat tracker_1 = Inr \<lparr>views = [\<lparr>v_shape = [], v_strides = [], v_offset = 0, v_mask = None\<rparr>]\<rparr>"
  by (simp add: Splat_def tracker_Size_def At_def Index_def eval_tracker eval_create view_size_def unravel_def go_div_def go_mod_def index_def)

theorem nd_splat_witness:
  "t_addr \<lparr>views = [\<lparr>v_shape = [], v_strides = [], v_offset = 0, v_mask = None\<rparr>]\<rparr> [] \<noteq> None"
  using nd_splat [OF Of_correct(1) [OF Of_1] Splat_1] by blast

section \<open>The entity world\<close>

text \<open>Concrete worlds for the witnesses: one entity with the value 7 in column 0, then a second one.\<close>

abbreviation entity_0 :: entity where
  "entity_0 \<equiv> \<lparr>e_index = 0, e_gen = 1\<rparr>"

abbreviation world_1 :: "nat world" where
  "world_1 \<equiv> snd (Spawn1 0 7 newWorld)"

abbreviation world_2 :: "nat world" where
  "world_2 \<equiv> snd (Spawn1 0 8 world_1)"

lemma Spawn1_newWorld:
  "fst (Spawn1 0 7 newWorld) = entity_0" "Alive world_1 entity_0" "Get world_1 0 entity_0 = Some 7" "cols world_1 0 \<noteq> None"
  "\<not> inSystem world_1" "\<not> flushing world_1" "queue world_1 = []"
  by (simp_all add: Spawn1_def Spawn_def newWorld_def Insert_def Column_def grow_def mark_row_def Alive_def Get_def lookup_def)

lemma reach_Spawn1:
  assumes "world_reach code w"
  shows "world_reach code (snd (Spawn1 k v w))"
  using world_reach.ins [OF world_reach.col [OF world_reach.spawn [OF assms]]]
  by (cases "Spawn w") (simp add: Spawn1_def)

abbreviation no_code :: "nat \<Rightarrow> nat world \<Rightarrow> nat world" where
  "no_code \<equiv> (\<lambda>_ w. w)"

lemma reach_examples: "world_reach no_code newWorld" "world_reach no_code world_1" "world_reach no_code world_2"
  using reach_Spawn1 [of no_code] world_reach.start [of no_code] by blast+

lemma ok_examples: "world_ok world_1" "world_ok world_2"
  by (rule world_reach_ok [OF reach_examples(2)], simp, rule world_reach_ok [OF reach_examples(3)], simp)

abbreviation in_system :: "nat world \<Rightarrow> nat world" where
  "in_system w \<equiv> w\<lparr>inSystem := True\<rparr>"

lemma in_system_1:
  "world_ok (in_system world_1)" "inSystem (in_system world_1)" "queue (in_system world_1) = []"
  "\<not> flushing (in_system world_1)" "Alive (in_system world_1) entity_0" "Get (in_system world_1) 0 entity_0 \<noteq> None"
proof -
  have g: "Alive (in_system world_1) entity_0 = Alive world_1 entity_0" "Get (in_system world_1) 0 entity_0 = Get world_1 0 entity_0"
    by (simp_all add: Alive_def Get_def lookup_def split: option.split)
  show "world_ok (in_system world_1)" "inSystem (in_system world_1)" "queue (in_system world_1) = []"
    "\<not> flushing (in_system world_1)" "Alive (in_system world_1) entity_0" "Get (in_system world_1) 0 entity_0 \<noteq> None"
    using Spawn1_newWorld ok_examples by (simp_all add: g queue_update_ok)
qed

text \<open>
  C6: whatever a program does with the exported operations of a world, in any order, and
  whatever its deferred closures do as long as they keep the invariant themselves, the store is
  consistent: two live handles never share a slot, only a live handle reads a value, and no two
  handles or columns share a row.
\<close>

theorem world_reachable_consistent:
  assumes "world_reach code w" and "\<And>n w. world_ok w \<Longrightarrow> world_ok (code n w)"
  shows "world_ok w \<and>
    (\<forall>e e'. Alive w e \<and> Alive w e' \<and> e_index e = e_index e' \<longrightarrow> e = e') \<and>
    (\<forall>k e. Get w k e \<noteq> None \<longrightarrow> Alive w e) \<and>
    (\<forall>k k' e e' r. lookup w k e = Some r \<and> lookup w k' e' = Some r \<longrightarrow> k' = k \<and> e' = e)"
  using world_reach_ok [OF assms(1)] world_reach_handles [OF assms(1)] assms(2) by metis

theorem world_reachable_consistent_witness: "world_ok world_2 \<and> {e. Get world_2 0 e \<noteq> None} \<subseteq> {e. Alive world_2 e}"
proof -
  note c = world_reachable_consistent [OF reach_examples(3)]
  then have "world_ok world_2" "\<forall>k e. Get world_2 k e \<noteq> None \<longrightarrow> Alive world_2 e" by simp_all
  then show ?thesis by blast
qed

text \<open>
  C7: a spawned entity is new, has exactly the components put on it, and no other entity's
  components or life change (\<open>Spawn2\<close>, through the store interface).
\<close>

theorem world_spawn_bundle:
  assumes "world_ok w" and "Spawn2 ka a kb b w = (e, w')"
  shows "world_ok w' \<and> \<not> Alive w e \<and> (\<forall>e'. Alive w' e' \<longleftrightarrow> e' = e \<or> Alive w e') \<and>
    (\<forall>k e'. Get w' k e' = (if e' = e then (if k = kb then Some b else if k = ka then Some a else None) else Get w k e'))"
proof -
  obtain w1 where w1: "Spawn w = (e, w1)" "w' = Insert_on kb e b (Insert_on ka e a w1)"
    using assms(2) by (cases "Spawn w") (simp add: Spawn2_def Spawn1_def Insert_on_def)
  show ?thesis
    using world_store.spawn_bundle [OF assms(1) w1(1), of kb b ka a] world_store.spawn_law [OF assms(1) w1(1)] w1(2) by blast
qed

theorem world_spawn_bundle_witness:
  "Get (snd (Spawn2 0 7 1 9 world_1)) 1 (fst (Spawn2 0 7 1 9 world_1)) = Some 9"
  using world_spawn_bundle [OF ok_examples(1), of 0 7 1 9] by (metis prod.collapse)

text \<open>
  A despawn inside a system takes effect at the flush after it: until then the entity is
  alive with its components, afterwards it and its components are gone, and nothing else changed.
\<close>

theorem world_despawn_deferred:
  assumes "world_ok w" and "inSystem w" and "queue w = []" and "\<not> flushing w" and "Alive w e"
  shows "Alive (Despawn code e w) = Alive w \<and> Get (Despawn code e w) = Get w \<and>
    (\<exists>w'. flush code (Despawn code e w) = Some w' \<and> world_ok w' \<and>
       (\<forall>e'. Alive w' e' \<longleftrightarrow> Alive w e' \<and> e' \<noteq> e) \<and> (\<forall>k e'. Get w' k e' = (if e' = e then None else Get w k e')))"
  using assms by (rule despawn_at_flush)

theorem world_despawn_deferred_witness:
  "\<exists>w'. flush no_code (Despawn no_code entity_0 (in_system world_1)) = Some w' \<and> \<not> Alive w' entity_0"
  using world_despawn_deferred [OF in_system_1(1-5), of no_code] by blast

text \<open>
  C8: inside a system, an \<open>Insert\<close> after a \<open>Remove\<close> of the same component wins: after the flush
  the entity has the inserted value; without the insert the component is gone.
\<close>

theorem world_insert_after_remove:
  assumes "world_ok w" and "inSystem w" and "queue w = []" and "\<not> flushing w" and "Get w k e \<noteq> None"
  shows "(\<exists>w'. flush code (Insert k e v (Remove code k e w)) = Some w' \<and> Get w' = (Get w)(k := (Get w k)(e \<mapsto> v))) \<and>
    (\<exists>w'. flush code (Remove code k e w) = Some w' \<and> Get w' = (Get w)(k := (Get w k)(e := None)))"
  using insert_cancels_remove [OF assms, of code v] remove_applies_at_flush [OF assms, of code] by blast

theorem world_insert_after_remove_witness:
  "\<exists>w'. flush no_code (Insert 0 entity_0 3 (Remove no_code 0 entity_0 (in_system world_1))) = Some w' \<and> Get w' 0 entity_0 = Some 3"
proof -
  obtain w' where "flush no_code (Insert 0 entity_0 3 (Remove no_code 0 entity_0 (in_system world_1))) = Some w'"
    and g: "Get w' = (Get (in_system world_1))(0 := (Get (in_system world_1) 0)(entity_0 \<mapsto> 3))"
    using conjunct1 [OF world_insert_after_remove [OF in_system_1(1-4,6), of no_code 3]] by blast
  moreover have "Get w' 0 entity_0 = Some 3" unfolding g by simp
  ultimately show ?thesis by blast
qed

text \<open>
  A flush of the package's own edits (despawns and removes) returns, runs each of them once
  in queue order, and then settles the pending writes.
\<close>

theorem world_flush_own:
  assumes "list_all own_edit (queue w)" and "world_ok w" and "\<not> flushing w"
  shows "flush code w =
    Some (settle ((fold (exec code) (queue w) (w\<lparr>flushing := True, queue := []\<rparr>))\<lparr>flushing := False\<rparr>))"
  using assms by (rule flush_own)

theorem world_flush_own_witness: "flush no_code world_1 = Some (settle (world_1\<lparr>queue := [], flushing := False\<rparr>))"
proof -
  have "flush no_code world_1 = Some (settle ((fold (exec no_code) (queue world_1) (world_1\<lparr>flushing := True, queue := []\<rparr>))\<lparr>flushing := False\<rparr>))"
    by (rule world_flush_own) (simp_all add: Spawn1_newWorld ok_examples)
  then show ?thesis by (simp add: Spawn1_newWorld)
qed




text \<open>
  C10: the plan of a set. \<open>order\<close> returns every system once; each comes after all it must follow,
  and among the systems whose predecessors have run it is the one registered first.
\<close>

theorem world_order_sound:
  assumes "order nodes = Inr out"
  shows "distinct out \<and> set out = {..<length nodes} \<and>
    (\<forall>(a, b) \<in> edges nodes. pos out a < pos out b) \<and>
    (\<forall>p < length out. \<forall>j < length nodes. j \<notin> set (take p out) \<longrightarrow> waiting (edges nodes) (take p out) j = {} \<longrightarrow>
       p_seq (nodes ! (out ! p)) \<le> p_seq (nodes ! j))"
proof -
  note o = order_sound [OF assms]
  have "pos out a < pos out b" if "(a, b) \<in> edges nodes" for a b
    using sorted_edges [of "edges nodes" "length nodes" "\<lambda>i. p_seq (nodes ! i)" out a b] o that edges_bounds [OF that] by simp
  then show ?thesis using o by (auto simp: sorted_so_far_def)
qed

abbreviation chain_2 :: "placed list" where
  "chain_2 \<equiv> [\<lparr>p_run = 0, p_name = ''a'', p_after = [''b''], p_before = [], p_seq = 0, p_lastRun = 0\<rparr>,
     \<lparr>p_run = 1, p_name = ''b'', p_after = [], p_before = [], p_seq = 1, p_lastRun = 0\<rparr>]"

lemma order_chain_2: "order chain_2 = Inr [1, 0]"
  by (simp add: order_def index_of_def add_edge_def best_of_def release_def Let_def upt_rec)

theorem world_order_sound_witness: "set [1, 0] = {..<length chain_2} \<and> distinct [1, 0 :: nat]"
  using world_order_sound [OF order_chain_2] by simp

text \<open>
  C11: \<open>order\<close> succeeds exactly when every name that is ordered against is registered in the set
  and the constraints have no cycle, and the panic it raises otherwise names a reason that holds.
\<close>

theorem world_order_total:
  "((\<exists>out. order nodes = Inr out) \<longleftrightarrow> names_known nodes \<and> acyclic (edges nodes)) \<and>
   (\<forall>p. order nodes = Inl p \<longrightarrow> (case p of UnknownSystem \<Rightarrow> \<not> names_known nodes
      | SelfDependency \<Rightarrow> (\<exists>a. (a, a) \<in> edges nodes) | SystemCycle \<Rightarrow> \<not> acyclic (edges nodes)))"
  using order_succeeds_iff [of nodes] order_error [of nodes] by (auto split: sched_panic.splits)

abbreviation self_1 :: "placed list" where
  "self_1 \<equiv> [\<lparr>p_run = 0, p_name = ''a'', p_after = [''a''], p_before = [], p_seq = 0, p_lastRun = 0\<rparr>]"

theorem world_order_total_witness: "\<exists>a. (a, a) \<in> edges self_1"
proof -
  have "order self_1 = Inl SelfDependency" by (simp add: order_def index_of_def add_edge_def Let_def)
  with world_order_total [of self_1] show ?thesis by auto
qed

text \<open>
  \<open>Chain\<close> on an empty set registers the systems it is given, and their plan runs them in
  the order of the call.
\<close>

theorem world_chain_plan:
  assumes "st < setCount" and "length (s_systems s) = setCount" and "s_systems s ! st = []"
    and "\<And>f. f \<in> set fs \<Longrightarrow> nm f \<noteq> []" and "distinct (map nm fs)"
  shows "\<exists>s'. Chain nm st (map Some fs) s = Inr s' \<and>
    map p_run (s_systems s' ! st) = fs \<and> order (s_systems s' ! st) = Inr [0..<length fs]"
  by (rule Chain_plan) (rule assms; assumption?)+

theorem world_chain_plan_witness:
  "\<exists>s'. Chain (\<lambda>f. replicate (Suc f) CHR ''s'') 2 [Some 4, Some 3] (New () :: (nat, unit) sim) = Inr s' \<and>
    map p_run (s_systems s' ! 2) = [4, 3] \<and> order (s_systems s' ! 2) = Inr [0, 1]"
  using world_chain_plan [of 2 "New () :: (nat, unit) sim" "[4, 3]" "\<lambda>f. replicate (Suc f) CHR ''s''"]
  by (simp add: setCount_def New_def upt_rec)

text \<open>
  A frame panics exactly when the systems of some set cannot be ordered, before the world
  changed; and a frame whose context is already cancelled leaves the world and the systems alone.
\<close>

theorem world_frame_guard:
  assumes "\<not> s_fresh s"
  shows "((\<exists>p. Frame err code sf timeKey advance s = Some (Inl p)) \<longleftrightarrow>
      (\<exists>nodes \<in> set (s_systems s). \<not> (names_known nodes \<and> acyclic (edges nodes)))) \<and>
    (\<forall>s'. err 0 \<and> Frame err code sf timeKey advance s = Some (Inr s') \<longrightarrow>
      s_world s' = s_world s \<and> s_systems s' = s_systems s \<and> s_started s' = s_started s)"
  using Frame_panics_iff [OF assms, of err code sf timeKey advance]
    Frame_cancelled [of err code sf timeKey advance s] by blast

theorem world_frame_guard_witness:
  "\<not> (\<exists>p. Frame (\<lambda>_. False) no_code no_code 0 (\<lambda>_ _. 0) (New ()) = Some (Inl p)) \<and>
   names_known [] \<and> acyclic (edges [])"
  using world_frame_guard [of "New () :: (nat, unit) sim" "\<lambda>_. False" no_code no_code 0 "\<lambda>_ _. 0"]
  by (auto simp: New_def setCount_def names_known_def edges_def acyclic_def)

text \<open>
  C12: change detection. After a system ran, an \<open>Insert\<close> of a new value by anyone, at a later
  clock, is reported by \<open>Changed\<close> in that system's next run; a value last written before or
  during its run is not reported again.
\<close>

theorem world_change_seen_once:
  assumes "run_one code sf st i s = Some s'" and "st < length (s_systems s)" and "i < length (s_systems s ! st)"
    and "\<And>n w. clock (code n w) = clock w" and "\<And>n w. clock (sf n w) = clock w"
  shows "(\<forall>w k e v. world_ok w \<and> cols w k \<noteq> None \<and> Alive w e \<and> clock (s_world s') \<le> clock w \<and> Get w k e \<noteq> Some v \<longrightarrow>
      fst (Changed k e ((Insert k e v w)\<lparr>inSystem := True, sysLast := p_lastRun (s_systems s' ! st ! i)\<rparr>))) \<and>
    (\<forall>w k e. watches w = [] \<and> (\<forall>r. lookup w k e = Some r \<longrightarrow> r_tick (rows w ! r) \<le> clock (s_world s)) \<longrightarrow>
      \<not> fst (Changed k e (w\<lparr>inSystem := True, sysLast := p_lastRun (s_systems s' ! st ! i)\<rparr>)))"
  by (intro conjI allI impI; elim conjE; rule change_seen_once(1) [OF assms refl] change_seen_once(2) [OF assms refl]; blast)

abbreviation sim_1 :: "(nat, unit) sim" where
  "sim_1 \<equiv> \<lparr>s_world = newWorld\<lparr>clock := 1\<rparr>, s_systems = [[\<lparr>p_run = 0, p_name = ''a'', p_after = [], p_before = [], p_seq = 0, p_lastRun = 0\<rparr>]],
     s_saved = [[0]], s_fresh = True, s_seq = 1, s_started = True, s_delta = (), s_stepped = False\<rparr>"

abbreviation sim_2 :: "(nat, unit) sim" where
  "sim_2 \<equiv> sim_1\<lparr>s_world := newWorld\<lparr>clock := 2\<rparr>, s_systems := [[\<lparr>p_run = 0, p_name = ''a'', p_after = [], p_before = [], p_seq = 0, p_lastRun = 1\<rparr>]]\<rparr>"

lemma clock_update: "Alive (w\<lparr>clock := n\<rparr>) e = Alive w e" "Get (w\<lparr>clock := n\<rparr>) k e = Get w k e"
  by (simp_all add: Alive_def Get_def lookup_def split: option.split)

lemma run_sim_1: "run_one no_code no_code 0 0 sim_1 = Some sim_2"
  by (simp add: run_one_def settle_def evalWatches_def flush_def flush_loop.simps newWorld_def outsideReader_def)

theorem world_change_seen_once_witness:
  "fst (Changed 0 entity_0 ((Insert 0 entity_0 9 (world_1\<lparr>clock := 2\<rparr>))\<lparr>inSystem := True, sysLast := 1\<rparr>))"
proof -
  have w: "world_ok (world_1\<lparr>clock := 2\<rparr>)" "cols (world_1\<lparr>clock := 2\<rparr>) 0 \<noteq> None" "Alive (world_1\<lparr>clock := 2\<rparr>) entity_0"
    "Get (world_1\<lparr>clock := 2\<rparr>) 0 entity_0 = Some 7"
    using Spawn1_newWorld ok_examples by (simp_all add: queue_update_ok clock_update)
  note c = conjunct1 [OF world_change_seen_once [OF run_sim_1], rule_format, of "world_1\<lparr>clock := 2\<rparr>" 0 entity_0 9]
  show ?thesis using c w by simp
qed



text \<open>
  C14: \<open>View.All\<close> returns the value of each entity that matches the query, once and in the order
  of the column, and leaves the world as it was.
\<close>

theorem world_query_all:
  assumes "world_ok w" and "cols w (q_key v) = Some t" and "\<not> q_changed v"
  shows "\<exists>es. Query_All v w = Some (map (\<lambda>e. the (Get w (q_key v) e)) es, w) \<and>
    distinct es \<and> set es = {e. matches v w e}"
proof (intro exI conjI)
  let ?es = "map (entity_at w) (filter (\<lambda>i. matches v w (entity_at w i)) (ids t))"
  show "Query_All v w = Some (map (\<lambda>e. the (Get w (q_key v) e)) ?es, w)"
    using Query_All_eq [OF assms] by (simp add: comp_def)
  have "inj (entity_at w)" by (rule injI) (metis entity_at_def entity.ext_inject)
  then show "distinct ?es" using ids_entities(1) [OF assms(1,2)] by (simp add: distinct_map inj_on_def)
  show "set ?es = {e. matches v w e}"
    using ids_entities(2) [OF assms(1,2)] by (auto simp: matches_def)
qed

theorem world_query_all_witness:
  "\<exists>es. Query_All (Query 0) world_1 = Some (map (\<lambda>e. the (Get world_1 0 e)) es, world_1) \<and> set es = {e. matches (Query 0) world_1 e}"
proof -
  obtain t where "cols world_1 (q_key (Query 0)) = Some t" using Spawn1_newWorld(4) by (auto simp: Query_def)
  from world_query_all [OF ok_examples(1) this] show ?thesis by (auto simp: Query_def)
qed

text \<open>
  C15: edits during a walk. In a system, \<open>Each\<close> with a callback that despawns what it visits
  returns and queues one despawn per entity. Outside one, where \<open>Remove\<close> acts at once, the walk
  of a column of two or more rows by a callback that removes what it visits reads past the end
  of the id list: an index panic.
\<close>

theorem world_each_edits:
  assumes "world_ok w" and "cols w k = Some t"
  shows "(inSystem w \<longrightarrow> Each k (\<lambda>e _. Despawn code e) w =
      Some (w\<lparr>queue := queue w @ map (\<lambda>i. DespawnNow (entity_at w i)) (ids t)\<rparr>)) \<and>
    (\<not> inSystem w \<and> \<not> flushing w \<and> 2 \<le> length (ids t) \<longrightarrow> Each k (\<lambda>e _. Remove code k e) w = None)"
  using each_despawn [OF assms] each_remove_outside [OF assms] by blast

lemma world_2_ids: "\<exists>t. cols world_2 0 = Some t \<and> length (ids t) = 2" "\<not> inSystem world_2" "\<not> flushing world_2"
  by (simp_all add: Spawn1_def Spawn_def newWorld_def Insert_def Column_def grow_def mark_row_def Alive_def)

theorem world_each_edits_witness: "Each 0 (\<lambda>e _. Remove no_code 0 e) world_2 = None"
  using world_each_edits [OF ok_examples(2), of 0 _ no_code] world_2_ids by auto

section \<open>Task groups\<close>

text \<open>
  Short runs of a session with one worker in each pool: task 3 depends on task 2, and both are
  submitted to the pool \<open>CPU\<close>.
\<close>

definition go_a :: "nat act list" where
  "go_a = [Go 0 ''a'' CPU (Some 0) False []]"

definition go_b :: "nat act" where
  "go_b = Go 0 ''b'' CPU (Some 0) False [2]"

definition run_ab :: "nat act list" where
  "run_ab = [Pop CPU, Take 2, Front 2, End 2 None, Pop CPU, Take 3]"

lemma tg_acts_append: "tg_acts cause u (as @ bs) m = Option.bind (tg_acts cause u as m) (tg_acts cause u bs)"
proof (induction as arbitrary: m)
  case (Cons a as)
  then show ?case by (cases "tg_act cause u a m") simp_all
qed simp

lemma go_a_machine:
  obtains m where "tg_demo go_a = Some m" "tg_tasks (m_s m) = 1" "tg_len (m_s m) = 3" "tg_cause (m_s m) = None"
    "\<not> closed (m_s m) k"
proof -
  have "map_option (\<lambda>m. (tg_tasks (m_s m), tg_len (m_s m), tg_cause (m_s m), map (closed (m_s m)) [Control, IO, CPU, Internet])) (tg_demo go_a) =
      Some (1, 3, None, [False, False, False, False])"
    by code_simp
  then obtain m where "tg_demo go_a = Some m" "tg_tasks (m_s m) = 1" "tg_len (m_s m) = 3" "tg_cause (m_s m) = None"
    "map (closed (m_s m)) [Control, IO, CPU, Internet] = [False, False, False, False]" by auto
  then show thesis using that by (cases k) auto
qed

lemma run_ab_machine:
  obtains m m1 m2 where "tg_demo go_a = Some m" "tg_act ctx_cause (\<lambda>_. False) go_b m = Some m1"
    "tg_acts ctx_cause (\<lambda>_. False) run_ab m1 = Some m2" "tg_len (m_s m) = 3" "t_state (task_of (m_s m2) 3) = Running"
proof -
  have "map_option (\<lambda>m2. t_state (task_of (m_s m2) 3)) (tg_demo (go_a @ go_b # run_ab)) = Some Running"
    by code_simp
  moreover obtain m where "tg_demo go_a = Some m" "tg_len (m_s m) = 3" by (rule go_a_machine [of Control])
  ultimately show thesis using that by (auto simp: tg_acts_append bind_eq_Some_conv)
qed

text \<open>
  C17: the count \<open>Wait\<close> waits for. In every reachable state of a session it is the number of tasks
  that are neither done nor failed, so that \<open>Wait\<close> returns exactly when all of them have finished;
  and a finished task keeps its state from then on.
\<close>

theorem tg_wait:
  assumes "tg_reach cause u m"
  shows "tg_tasks (m_s m) = int (card (open_tasks (m_s m))) \<and>
    (Wait_returns (m_s m) \<longleftrightarrow> (\<forall>i. 2 \<le> i \<and> i < tg_len (m_s m) \<longrightarrow> finished (task_of (m_s m) i))) \<and>
    (\<forall>m' i. tg_path cause u m m' \<and> i < tg_len (m_s m) \<and> finished (task_of (m_s m) i) \<longrightarrow>
      t_state (task_of (m_s m') i) = t_state (task_of (m_s m) i))"
  using tg_reach_count [OF assms] tg_reach_Wait [OF assms] tg_reach_finished [OF assms] by blast

theorem tg_wait_witness:
  "\<exists>m. tg_demo go_a = Some m \<and> \<not> Wait_returns (m_s m) \<and> \<not> finished (task_of (m_s m) 2)"
proof -
  obtain m where m: "tg_demo go_a = Some m" "tg_tasks (m_s m) = 1" "tg_len (m_s m) = 3" by (rule go_a_machine [of Control])
  then have "\<not> Wait_returns (m_s m)" by (simp add: Wait_returns_def)
  moreover from this obtain i where "2 \<le> i" "i < 3" "\<not> finished (task_of (m_s m) i)"
    using tg_wait [OF tg_demo_reach [OF m(1)]] m(3) by auto
  moreover from this have "i = 2" by simp
  ultimately show ?thesis using m(1) by blast
qed

text \<open>
  C16: dependencies. A task scheduled with dependencies is running, at any later moment and
  whatever the other workers do, only when each of them is done: a failed dependency never
  lets it run.
\<close>

theorem tg_deps:
  assumes "tg_reach cause u m" and "tg_act cause u (Go caller name pl fn isolate deps) m = Some m1"
    and "tg_path cause u m1 m2" and "t_state (task_of (m_s m2) (tg_len (m_s m))) = Running" and "d \<in> set deps"
  shows "t_state (task_of (m_s m2) d) = Done"
  using assms by (rule tg_reach_deps)

theorem tg_deps_witness:
  "\<exists>m. tg_demo (go_a @ go_b # run_ab) = Some m \<and> t_state (task_of (m_s m) 2) = Done"
proof -
  obtain m m1 m2 where m: "tg_demo go_a = Some m" "tg_act ctx_cause (\<lambda>_. False) go_b m = Some m1"
    "tg_acts ctx_cause (\<lambda>_. False) run_ab m1 = Some m2" "tg_len (m_s m) = 3" "t_state (task_of (m_s m2) 3) = Running"
    by (rule run_ab_machine)
  have "t_state (task_of (m_s m2) 2) = Done"
    using tg_deps [OF tg_demo_reach [OF m(1)] m(2) [unfolded go_b_def] tg_acts_path [OF m(3)], of 2] m(4,5) by simp
  then show ?thesis using m by (auto simp: tg_acts_append)
qed

text \<open>
  C18: no task is forgotten. While the queues are open and some task has not finished, at least
  one task is waiting in a queue or for its goroutine, or is held by a worker: the dependencies
  among the tasks never block them all.
\<close>

theorem tg_live:
  assumes "tg_reach cause u m" and "\<And>k. \<not> closed (m_s m) k" and "\<not> Wait_returns (m_s m)"
  shows "(\<exists>i. queued (m_s m) i) \<or> m_picked m \<noteq> [] \<or> m_taken m \<noteq> [] \<or> m_body m \<noteq> []"
  using assms by (rule tg_reach_live)

theorem tg_live_witness:
  "\<exists>m. tg_demo go_a = Some m \<and> ((\<exists>i. queued (m_s m) i) \<or> m_picked m \<noteq> [] \<or> m_taken m \<noteq> [] \<or> m_body m \<noteq> [])"
proof -
  obtain m where m: "tg_demo go_a = Some m" "tg_tasks (m_s m) = 1" by (rule go_a_machine [of Control])
  have "\<not> closed (m_s m) k" for k using m(1) by (rule_tac k = k in go_a_machine) simp
  then have "(\<exists>i. queued (m_s m) i) \<or> m_picked m \<noteq> [] \<or> m_taken m \<noteq> [] \<or> m_body m \<noteq> []"
    using tg_live [OF tg_demo_reach [OF m(1)]] m(2) by (simp add: Wait_returns_def)
  then show ?thesis using m(1) by blast
qed

text \<open>
  C19: the operations return. In every reachable state, submitting a task with known dependencies,
  the end of a task with its cascade over the tasks that wait for it, and the cancellation sweep
  over all tasks come to an end: the fuel of their loops is enough.
\<close>

theorem tg_returns:
  assumes "tg_reach cause u m"
  shows "(caller < tg_len (m_s m) \<and> 1 \<notin> set deps \<longrightarrow> (\<exists>m'. tg_act cause u (Go caller name pl fn isolate deps) m = Some m')) \<and>
    (i \<in> set (m_body m) \<longrightarrow> (\<exists>m'. tg_act cause u (End i err) m = Some m')) \<and>
    (tg_cause (m_s m) \<noteq> None \<and> \<not> m_after m \<longrightarrow> (\<exists>m'. tg_act cause u AfterCtx m = Some m'))"
  using tg_reach_returns [OF assms] by blast

theorem tg_returns_witness:
  "\<exists>m m'. tg_demo go_a = Some m \<and> tg_act ctx_cause (\<lambda>_. False) (Go 2 ''c'' IO None True [2, 9]) m = Some m'"
proof -
  obtain m where m: "tg_demo go_a = Some m" "tg_len (m_s m) = 3" by (rule go_a_machine [of Control])
  have "\<exists>m'. tg_act ctx_cause (\<lambda>_. False) (Go 2 ''c'' IO None True [2, 9]) m = Some m'"
    using tg_returns [OF tg_demo_reach [OF m(1)], of 2 "[2, 9]"] m(2) by simp
  then show ?thesis using m(1) by blast
qed

text \<open>
  C20: a session that hangs. There is a run in which the context of the session ends while a task
  runs, the workers of a pool leave, and the task then schedules another on that pool: from the
  state it ends in, however the session goes on without a new submission, \<open>Wait\<close> never returns.
\<close>

theorem tg_hang:
  "\<exists>m. tg_reach ctx_cause (\<lambda>_. False) m \<and> tg_cause (m_s m) \<noteq> None \<and>
    (\<forall>as m'. list_all (\<lambda>a. \<not> is_Go a) as \<and> tg_acts ctx_cause (\<lambda>_. False) as m = Some m' \<longrightarrow> \<not> Wait_returns (m_s m'))"
proof -
  obtain m where m: "tg_demo hang_acts = Some m" "quiescent m" "tg_tasks (m_s m) = 1" by (rule hang_machine)
  have "map_option (\<lambda>m. tg_cause (m_s m) \<noteq> None) (tg_demo hang_acts) = Some True" by code_simp
  then have "tg_cause (m_s m) \<noteq> None" using m(1) by simp
  moreover have "\<not> Wait_returns (m_s m')" if "list_all (\<lambda>a. \<not> is_Go a) as" "tg_acts ctx_cause (\<lambda>_. False) as m = Some m'" for as m'
    using quiescent_stuck [OF m(2) _ that(2)] m(3) that(1) by (simp add: Wait_returns_def list_all_iff)
  ultimately show ?thesis using tg_demo_reach [OF m(1)] by blast
qed

theorem tg_hang_witness:
  "\<exists>m. tg_reach ctx_cause (\<lambda>_. False) m \<and> \<not> Wait_returns (m_s m)"
proof -
  obtain m where m: "tg_reach ctx_cause (\<lambda>_. False) m"
    "\<forall>as m'. list_all (\<lambda>a. \<not> is_Go a) as \<and> tg_acts ctx_cause (\<lambda>_. False) as m = Some m' \<longrightarrow> \<not> Wait_returns (m_s m')"
    using tg_hang by blast
  have "\<not> Wait_returns (m_s m)" using m(2) [rule_format, of "[]" m] by simp
  then show ?thesis using m(1) by blast
qed


section \<open>Line writers\<close>

text \<open>A writer of the display that has one byte on its line.\<close>

abbreviation writer_1 :: lw_sys where
  "writer_1 \<equiv> snd (newLineWriter (PrintFn 0) lw_init)"

abbreviation writer_a :: lw_sys where
  "writer_a \<equiv> \<lparr>sys_hub = \<lparr>lh_seq = 1, lh_order = [''live-1''], lh_slots = [''live-1'' \<mapsto> [97]], lh_writers = [''live-1'' \<mapsto> 0]\<rparr>,
     sys_print = None, sys_ws = [a_row], sys_out = []\<rparr>"

lemma writer_1_eq:
  "writer_1 = \<lparr>sys_hub = \<lparr>lh_seq = 1, lh_order = [], lh_slots = Map.empty, lh_writers = Map.empty\<rparr>,
     sys_print = None, sys_ws = [a_row\<lparr>lw_filter := lf_new, lw_once := False\<rparr>], sys_out = []\<rparr>"
  by (simp add: lw_init_def newLiveHub_def newLineWriter_def a_row_def FormatUint_1)

lemma Write_a: "Write 0 ''a'' writer_1 = Some ((1, None), writer_a)"
  by (simp add: writer_1_eq Write_def attach_def register_def write_locked_def Let_def write_a a_row_def hub_set_def)

lemma writer_a_seq: "lw_seq writer_a" "iteration [''live-1''] writer_a"
  using lw_seq.wrote [OF lw_seq.new [OF lw_seq.start] _ Write_a] by (simp_all add: writer_1_eq iteration_def)



text \<open>
  C23: \<open>ReadFrom\<close> prints the lines of the stream and then what is left of it, whatever pieces the stream comes in,
  as long as each piece fits beside the bytes kept back; it counts every byte, closes the writer, and
  returns the error of the reader if that is not the end of the stream.
\<close>

theorem lw_stream:
  assumes "i < length (sys_ws s)" "\<not> lw_closed (sys_ws s ! i)" "lw_print (sys_ws s ! i) = Some pr" "lw_commitOnClose (sys_ws s ! i)"
    and "lf_rest (lw_filter (sys_ws s ! i))" "fits lf_room lf_write (ds @ [d]) (lw_filter (sys_ws s ! i))"
    and "lf_whole (concat (ds @ [d])) (lw_filter (sys_ws s ! i)) = Some (c, f)"
  shows "\<exists>s'. ReadFrom i (map (\<lambda>d. (d, None)) ds @ [(d, Some e)]) 0 s =
      Some ((length (concat (ds @ [d])), if e = ErrEOF then None else Some e), s') \<and>
    lw_closed (sys_ws s' ! i) \<and>
    sys_out s' = sys_out s @ map (Pair pr) (c @ (if lf_line f = [] then [] else [lf_line f]))"
  using ReadFrom_end [OF assms(1-4), of ds d c f e 0] line_filter.writes_whole [OF assms(5,6)] assms(7) by simp

theorem lw_stream_witness:
  "\<exists>s'. ReadFrom 0 [(''a'', None), ([CHR 0x0D, CHR 0x0A], Some ErrEOF)] 0 writer_1 = Some ((3, None), s') \<and>
     sys_out s' = [(PrintFn 0, [97])]"
proof -
  have fit: "fits lf_room lf_write ([''a''] @ [[CHR 0x0D, CHR 0x0A]]) lf_new"
    by (simp add: lf_room_def lineMaxPending_def write_a) (simp add: lf_new_def split: option.split)
  have "lf_room (Suc (Suc (Suc 0))) lf_new" by (simp add: lf_room_def lineMaxPending_def lf_new_def)
  then have "lf_whole (concat ([''a''] @ [[CHR 0x0D, CHR 0x0A]])) lf_new = Some ([[97]], lf_new)"
    using frames(2) [of "''a''" "''a''"] lf_write_whole [OF lf_new_rest, of "[CHR ''a'', CHR 0x0D, CHR 0x0A]"]
    by (simp add: plain_char_def lineMaxCols_def)
  then show ?thesis
    using lw_stream [of 0 writer_1 "PrintFn 0" "[''a'']" "[CHR 0x0D, CHR 0x0A]" "[[97]]" lf_new ErrEOF] fit lf_new_rest
    by (simp add: writer_1_eq a_row_def del: ReadFrom.simps) (auto simp: lf_new_def)
qed

text \<open>
  A write that does not fit beside the bytes kept back is cut at the front, complete lines too: of
  more than 8192 bytes only the last 8192 count, although \<open>ReadFrom\<close> hands over up to 32768.
\<close>

theorem lf_drops:
  assumes "length q = lineMaxPending"
  shows "lf_write (p @ q) f = lf_write q (f\<lparr>lf_pending := []\<rparr>)"
  using assms by (rule lf_write_drops)

theorem lf_drops_witness:
  "lf_write ([CHR ''a'', CHR 0x0A] @ replicate lineMaxPending (CHR ''b'')) lf_new = lf_write (replicate lineMaxPending (CHR ''b'')) lf_new \<and>
   lf_write [CHR ''a'', CHR 0x0D, CHR 0x0A] lf_new = Some ([[97]], lf_new)"
  using lf_drops [of "replicate lineMaxPending (CHR ''b'')" "[CHR ''a'', CHR 0x0A]" lf_new] frames(2) [of "''a''" "''a''"]
  by (simp add: plain_char_def lineMaxCols_def) (simp add: lf_new_def)

text \<open>
  C26: \<open>write\<close> returns on bytes without a tab; a tab returns exactly when the cursor is not behind the last
  column. After 1024 letters a tab makes \<open>write\<close> loop for ever.
\<close>

theorem lf_tab:
  assumes "lf_ok f"
  shows "(CHR 0x09 \<notin> set (lf_pending f @ p) \<longrightarrow> (\<exists>r. lf_write p f = Some r)) \<and>
    ((\<exists>r. putRune 9 f = Some r) \<longleftrightarrow> lf_col f < lineMaxCols) \<and>
    lf_write (replicate lineMaxCols (CHR ''a'') @ [CHR 0x09]) lf_new = None"
  using lf_write_returns [OF assms, of p] tab_stop [OF assms] full_line_hangs by blast

theorem lf_tab_witness: "(\<exists>r. lf_write ''a'' lf_new = Some r) \<and> (\<exists>r. putRune 9 lf_new = Some r)"
  using lf_tab [OF lf_new_ok, of "''a''"] by (simp add: lf_new_writer) (simp add: lf_new_def lineMaxCols_def)

text \<open>
  C24: when calls do not overlap, the rows of the display are the lines of the open writers that have
  one, and \<open>TakeLiveLines\<close> returns just these rows and leaves none.
\<close>

theorem lw_live:
  assumes "lw_seq s" "length (sys_ws s) < 2 ^ 64"
  shows "(\<exists>js. distinct js \<and>
      set js = {i. i < length (sys_ws s) \<and> lw_hub (sys_ws s ! i) \<and> \<not> lw_closed (sys_ws s ! i) \<and> lf_line (lw_filter (sys_ws s ! i)) \<noteq> []} \<and>
      LiveLines s = map (\<lambda>i. lf_line (lw_filter (sys_ws s ! i))) js) \<and>
    (\<forall>its. iteration its s \<longrightarrow>
      mset (fst (TakeLiveLines its s)) = mset (LiveLines s) \<and> LiveLines (snd (TakeLiveLines its s)) = [])"
  using live_rows Take_live(2,3) lw_seq_live [OF assms] by blast

theorem lw_live_witness: "mset (fst (TakeLiveLines [''live-1''] writer_a)) = {#[97]#}"
proof -
  have "LiveLines writer_a = [[97]]" by (simp add: LiveLines_def hub_snapshot_def)
  then show ?thesis using lw_live [OF writer_a_seq(1)] writer_a_seq(2) by simp
qed

text \<open>
  C6: calls can overlap so that the row of a closed writer stays: a write has left its lock, \<open>TakeLiveLines\<close>
  closes all writers and clears the rows, then the write sets its row. From then on, unless
  \<open>TakeLiveLines\<close> is called again, the display that was told to stop does not quit.
\<close>

theorem lw_stale:
  shows "lw_reach (stale_row, [[], []]) \<and> lw_closed (sys_ws stale_row ! 0) \<and>
    (\<forall>m. lw_later (stale_row, [[], []]) m \<longrightarrow> length (sys_ws (fst m)) < 2 ^ 64 \<longrightarrow> \<not> shouldQuit True nodes (LiveLines (fst m)))"
proof -
  have "\<not> shouldQuit True nodes (LiveLines (fst m))"
    if "lw_later (stale_row, [[], []]) m" "length (sys_ws (fst m)) < 2 ^ 64" for m
    using left_behind_shown [OF lw_later_reach [OF stale_reach that(1)] left_behind_stays [OF stale_reach stale_left_behind that]]
    by (auto simp: shouldQuit_def)
  moreover have "lw_closed (sys_ws stale_row ! 0)" by (simp add: stale_row_def)
  ultimately show ?thesis using stale_reach by blast
qed

theorem lw_stale_witness: "\<not> shouldQuit True ([] :: nat list) (LiveLines stale_row)"
proof -
  have "lw_later (stale_row, [[], []]) (stale_row, [[], []])" by (simp add: lw_later_def)
  then show ?thesis using lw_stale [of "[] :: nat list"] by (fastforce simp: stale_row_def)
qed

section \<open>Workflows\<close>

text \<open>A graph of two steps: \<open>b\<close> needs \<open>a\<close>, through the alias \<open>x\<close>.\<close>

definition step_a :: step where
  "step_a = \<lparr>w_name = ''a'', w_deps = [], w_inputs = [], w_outputs = [''o''], w_dir = [], w_tasks = [Some 0],
     w_desc = [], w_phony = False, w_pool = Control, w_orchestrator = False\<rparr>"

definition step_b :: step where
  "step_b = \<lparr>w_name = ''b'', w_deps = [''x''], w_inputs = [''o''], w_outputs = [''p''], w_dir = [], w_tasks = [Some 1],
     w_desc = [], w_phony = False, w_pool = Control, w_orchestrator = False\<rparr>"

definition graph_ab :: wgraph where
  "graph_ab = \<lparr>wg_dir = [], wg_steps = [step_b, step_a], wg_defaults = [''b''], wg_alias = [(''x'', ''a'')]\<rparr>"

definition names_ab :: "string \<rightharpoonup> step" where
  "names_ab = [''b'' \<mapsto> step_b, ''a'' \<mapsto> step_a]"

lemma closure_ab: "closure graph_ab [] = Some (Inr ([step_a, step_b], names_ab))"
  by (simp add: closure_def graph_ab_def names_ab_def step_a_def step_b_def resolveAlias_def resolve_loop.simps fun_upd_twist)

lemma needs_ab: "(''b'', ''a'') \<in> needs names_ab (wg_alias graph_ab)"
  by (auto simp: needs_def names_ab_def graph_ab_def step_b_def step_a_def resolveAlias_def resolve_loop.simps)

text \<open>
  C27: the closure of the targets. When \<open>closure\<close> succeeds, the steps it returns are those that the
  targets (or the defaults) need, directly or through other steps, each once and after all the
  steps it needs, whatever aliases name them.
\<close>

theorem wf_closure:
  assumes "closure g targets = Some (Inr (ord, byName))"
  shows "distinct (map w_name ord) \<and> set ord \<subseteq> set (wg_steps g) \<and>
    w_name ` set ord = {c'. \<exists>n \<in> set (if targets = [] then wg_defaults g else targets). \<exists>c.
      resolveAlias n byName (wg_alias g) = Inr c \<and> (c, c') \<in> (needs byName (wg_alias g))\<^sup>*} \<and>
    (\<forall>i < length ord. \<forall>d \<in> set (w_deps (ord ! i)). \<exists>j < i. resolveAlias d byName (wg_alias g) = Inr (w_name (ord ! j)))"
  using closure_sound [OF assms] unfolding deps_before_def by blast

theorem wf_closure_witness: "w_name ` {step_a, step_b} = {''a'', ''b''} \<and> set [step_a, step_b] \<subseteq> set (wg_steps graph_ab)"
  using wf_closure [OF closure_ab] by (auto simp: step_a_def step_b_def)

text \<open>
  C28: \<open>closure\<close> always returns: the walk ends on every graph, cyclic or not. The error it returns on
  a graph whose step names are fine tells the truth: there is no target, a name that is needed
  cannot be resolved, or the steps need each other in a cycle.
\<close>

theorem wf_closure_total:
  "(\<exists>r. closure g targets = Some r) \<and>
   (\<forall>e byName. closure g targets = Some (Inl e) \<and> byName_loop (wg_steps g) Map.empty = Inr byName \<longrightarrow>
      (if targets = [] then wg_defaults g else targets) = [] \<and> e = ErrNoTarget \<or>
      bad_name byName (wg_alias g) (if targets = [] then wg_defaults g else targets) e \<or>
      e = ErrCycle \<and> \<not> acyclic (needs byName (wg_alias g)))"
  using closure_returns [of g targets] closure_error [of g targets] by blast

theorem wf_closure_total_witness:
  "resolveAlias ''z'' names_ab (wg_alias graph_ab) = Inl ErrUnknownStep"
proof -
  have b: "byName_loop (wg_steps graph_ab) Map.empty = Inr names_ab"
    by (simp add: graph_ab_def names_ab_def step_a_def step_b_def)
  have "closure graph_ab [''z''] = Some (Inl ErrUnknownStep)"
    by (simp add: closure_def graph_ab_def step_a_def step_b_def resolveAlias_def resolve_loop.simps)
  then have "bad_name names_ab (wg_alias graph_ab) [''z''] ErrUnknownStep"
    using wf_closure_total [of graph_ab "[''z'']"] b by auto
  then show ?thesis
    by (auto simp: bad_name_def resolveAlias_def resolve_loop.simps names_ab_def graph_ab_def split: if_splits)
qed

text \<open>
  C29: a workflow on a session. Take the submissions \<open>schedule\<close> makes of a closure, and a session
  that is given the submission of a step, whatever else it does before, meanwhile and after. When
  the task of the step runs, the tasks of all the steps it needs are done.
\<close>

theorem wf_run_order:
  assumes "closure g targets = Some (Inr (ord, byName))" and "schedule tid ord byName (wg_alias g) = Inr subs"
    and "i < length ord" and "j < length ord" and "(w_name (ord ! i), w_name (ord ! j)) \<in> needs byName (wg_alias g)"
    and "tg_reach cause u m" and "tid i = tg_len (m_s m)"
    and "tg_act cause u (Go caller (sub_name (subs ! i)) (sub_pool (subs ! i)) fn isolate (sub_deps (subs ! i))) m = Some m1"
    and "tg_path cause u m1 m2" and "t_state (task_of (m_s m2) (tid i)) = Running"
  shows "j < i \<and> t_state (task_of (m_s m2) (tid j)) = Done"
proof -
  note c = closure_sound [OF assms(1)]
  have by_i: "byName (w_name (ord ! i)) = Some (ord ! i)"
    using c(1,4) assms(3) nth_mem by (auto simp: named_def)
  then obtain d where d: "d \<in> set (w_deps (ord ! i))" "resolveAlias d byName (wg_alias g) = Inr (w_name (ord ! j))"
    using assms(5) by (auto simp: needs_def)
  have pos: "step_pos ord (w_name (ord ! j)) = j" using c(2) assms(4) by (rule step_pos_nth)
  have subs: "subs = map (submission_of tid byName (wg_alias g) ord) ord"
    using schedule_eq(1) [OF c(2,3), of tid] assms(2) by simp
  then have "tid j \<in> set (sub_deps (subs ! i))" using d pos assms(3) by (force simp: submission_of_def)
  then have "t_state (task_of (m_s m2) (tid j)) = Done"
    using tg_reach_deps [OF assms(6,8,9)] assms(7,10) by simp
  moreover have "j < i" using schedule_eq(2) [OF c(2,3) assms(3) d(1)] d(2) pos by simp
  ultimately show ?thesis by simp
qed

lemma schedule_ab:
  "schedule (\<lambda>i. i + 2) [step_a, step_b] names_ab (wg_alias graph_ab) =
    Inr [\<lparr>sub_name = ''a'', sub_pool = CPU, sub_deps = []\<rparr>, \<lparr>sub_name = ''b'', sub_pool = CPU, sub_deps = [2]\<rparr>]"
  by (simp add: schedule_def names_ab_def graph_ab_def step_a_def step_b_def resolveAlias_def resolve_loop.simps pool_def)

theorem wf_run_order_witness:
  "\<exists>m. tg_demo (go_a @ go_b # run_ab) = Some m \<and> t_state (task_of (m_s m) 2) = Done"
proof -
  obtain m m1 m2 where m: "tg_demo go_a = Some m" "tg_act ctx_cause (\<lambda>_. False) go_b m = Some m1"
    "tg_acts ctx_cause (\<lambda>_. False) run_ab m1 = Some m2" "tg_len (m_s m) = 3" "t_state (task_of (m_s m2) 3) = Running"
    by (rule run_ab_machine)
  have "t_state (task_of (m_s m2) 2) = Done"
    using wf_run_order [OF closure_ab schedule_ab, of 1 0 ctx_cause "\<lambda>_. False" m 0 "Some 0" False m1 m2]
      needs_ab tg_demo_reach [OF m(1)] m(2,4,5) tg_acts_path [OF m(3)]
    by (simp add: step_a_def step_b_def go_b_def numeral_2_eq_2 numeral_3_eq_3)
  then show ?thesis using m by (auto simp: tg_acts_append)
qed


definition stat_ab :: "string \<Rightarrow> nat option" where
  "stat_ab f = (if f = Join_host [] ''o'' then Some 1 else if f = Join_host [] ''p'' then Some 2 else None)"



text \<open>
  An alias hides a rebuild. A dependency written as an alias of a rebuilt step does not make a step out of date: \<open>b\<close> needs
  \<open>a\<close> through the alias \<open>x\<close>, \<open>a\<close> was rebuilt, and \<open>b\<close> is left alone when its files look newer.
\<close>

theorem wf_alias_not_rebuilt:
  "resolveAlias ''x'' names_ab (wg_alias graph_ab) = Inr ''a'' \<and> set (w_deps step_b) = {''x''} \<and>
   \<not> stale False stat_ab [] step_b {''a''}"
proof (intro conjI)
  show "resolveAlias ''x'' names_ab (wg_alias graph_ab) = Inr ''a''"
    by (simp add: resolveAlias_def resolve_loop.simps names_ab_def graph_ab_def)
  show "set (w_deps step_b) = {''x''}" by (simp add: step_b_def)
  show "\<not> stale False stat_ab [] step_b {''a''}" by code_simp
qed

section \<open>Ninja files\<close>

text \<open>Two edges, the second on the output of the first.\<close>

abbreviation nj_text :: string where
  "nj_text \<equiv> ''build b: phony a'' @ CHR 0x0A # ''build c: phony b''"

definition nj_abc :: nj_file where
  "nj_abc = (case Load (\<lambda>_. Inr nj_text) ''/n'' [] of Some (Inr f) \<Rightarrow> f | _ \<Rightarrow> undefined)"

definition nj_graph_abc :: wgraph where
  "nj_graph_abc = (case Graph (\<lambda>_. 0) (\<lambda>_. None) nj_abc [''c''] of Some (Inr g) \<Rightarrow> g | _ \<Rightarrow> undefined)"

lemma nj_abc_load: "Load (\<lambda>_. Inr nj_text) ''/n'' [] = Some (Inr nj_abc)"
proof -
  have "case Load (\<lambda>_. Inr nj_text) ''/n'' [] of Some (Inr f) \<Rightarrow> True | _ \<Rightarrow> False" by code_simp
  then show ?thesis by (auto simp: nj_abc_def split: option.splits sum.splits)
qed

lemma nj_abc_graph: "Graph (\<lambda>_. 0) (\<lambda>_. None) nj_abc [''c''] = Some (Inr nj_graph_abc)"
proof -
  have "case Graph (\<lambda>_. 0) (\<lambda>_. None) nj_abc [''c''] of Some (Inr g) \<Rightarrow> True | _ \<Rightarrow> False" by code_simp
  then show ?thesis by (auto simp: nj_graph_abc_def split: option.splits sum.splits)
qed

text \<open>
  C31: a build line is read back. An edge written with its outputs, rule, inputs, implicit and
  order-only inputs, each special character escaped with a dollar, is what \<open>parseBuild\<close> returns, whatever
  variables are in scope.
\<close>

theorem nj_roundtrip:
  assumes "edge_ok e" "e_vars e = Map.empty" "e_line e = no"
  shows "parseBuild no (CHR '' '' # write_build e) sc = Some (Inr e)"
  using assms by (rule parseBuild_write)

abbreviation edge_x :: nj_edge where
  "edge_x \<equiv> \<lparr>e_outs = [''c:/a b''], e_explicit = [''$x|y''], e_implicit = [], e_order = [''o''], e_rule = ''cc'', e_vars = Map.empty, e_line = 7\<rparr>"

theorem nj_roundtrip_witness: "parseBuild 7 '' c$:/a$ b : cc $$x$|y | || o'' [] = Some (Inr edge_x)"
proof -
  have "write_build edge_x = ''c$:/a$ b : cc $$x$|y | || o''" by code_simp
  moreover have "edge_ok edge_x" by code_simp
  ultimately show ?thesis using nj_roundtrip [of edge_x 7 "[]"] by simp
qed

text \<open>
  C32: in the order of a closure, the step of an edge comes after the steps of the edges that make its
  inputs (explicit, implicit, from a depfile) and its order-only inputs; every explicit and implicit
  input of the edge is an input of the step.
\<close>

theorem nj_order:
  assumes "Graph command depread f targets = Some (Inr g)" "closure g ts = Some (Inr (ord, byName))"
    and "i < length ord" "e \<in> set (f_edges f)" "hd (e_outs e) = w_name (ord ! i)" "e' \<in> set (f_edges f)" "hd (e_outs e') \<noteq> hd (e_outs e)"
    and "set (e_outs e') \<inter> set (w_inputs (ord ! i) @ e_order e) \<noteq> {}"
  shows "set (e_explicit e @ e_implicit e) \<subseteq> set (w_inputs (ord ! i)) \<and> (\<exists>j < i. w_name (ord ! j) = hd (e_outs e'))"
  using assms by (rule closure_ninja_order)

definition nj_order_abc :: "step list" where
  "nj_order_abc = (case closure nj_graph_abc [] of Some (Inr (ord, _)) \<Rightarrow> ord | _ \<Rightarrow> [])"

theorem nj_order_witness: "set [''b''] \<subseteq> set (w_inputs (nj_order_abc ! 1)) \<and> (\<exists>j < 1. w_name (nj_order_abc ! j) = ''b'')"
proof -
  have "case closure nj_graph_abc [] of Some (Inr _) \<Rightarrow> True | _ \<Rightarrow> False" by code_simp
  then obtain byName where c: "closure nj_graph_abc [] = Some (Inr (nj_order_abc, byName))"
    by (auto simp: nj_order_abc_def split: option.splits sum.splits)
  have f: "map e_outs (f_edges nj_abc) = [[''b''], [''c'']]" "e_explicit (f_edges nj_abc ! 1) = [''b'']" "e_implicit (f_edges nj_abc ! 1) = []"
    and o: "map w_name nj_order_abc = [''b'', ''c'']" "w_inputs (nj_order_abc ! 1) = [''b'']" by code_simp+
  obtain e0 e1 where e: "f_edges nj_abc = [e0, e1]" "e_outs e0 = [''b'']" "e_outs e1 = [''c'']" using f(1) by (auto simp: map_eq_Cons_conv)
  obtain s0 s1 where s: "nj_order_abc = [s0, s1]" "w_name s1 = ''c''" using o(1) by (auto simp: map_eq_Cons_conv)
  then have n: "length nj_order_abc = 2" "w_name (nj_order_abc ! 1) = ''c''" unfolding s(1) by simp_all
  show ?thesis using nj_order [OF nj_abc_graph c, of 1 e1 e0] e n f(2,3) o(2) by simp
qed

text \<open>
  C33: the graph of a file that was read has no defect of its own: building it fails only on a cycle,
  or on a target that no edge makes.
\<close>

theorem nj_errors:
  assumes "Load read path work = Some (Inr f)" "Graph command depread f targets = Some (Inr g)" "closure g ts = Some (Inl err)"
  shows "err = ErrCycle \<or>
    err = ErrUnknownStep \<and> (\<exists>n \<in> set (if ts = [] then wg_defaults g else ts). \<forall>e \<in> set (f_edges f). n \<notin> set (e_outs e))"
  using closure_ninja_error [OF assms(2) Load_ok [OF assms(1)] assms(3)] .

theorem nj_errors_witness: "\<not> (\<exists>e \<in> set (f_edges nj_abc). ''z'' \<in> set (e_outs e))"
proof -
  have "closure nj_graph_abc [''z''] = Some (Inl ErrUnknownStep)"
  proof -
    have "case closure nj_graph_abc [''z''] of Some (Inl e) \<Rightarrow> e = ErrUnknownStep | _ \<Rightarrow> False" by code_simp
    then show ?thesis by (auto split: option.splits sum.splits)
  qed
  from nj_errors [OF nj_abc_load nj_abc_graph this] show ?thesis by simp
qed

text \<open>
  C34: making the graph of a file that was read returns, and so does the closure of the graph: variables
  that refer to each other in a cycle are an error. Reading need not return: there is no check
  for a file that includes itself.
\<close>

theorem nj_total:
  assumes "Load read path work = Some (Inr f)"
  shows "(\<exists>r. Graph command depread f targets = Some r \<and> (\<forall>g. r = Inr g \<longrightarrow> (\<exists>c. closure g ts = Some c))) \<and>
    Load (\<lambda>_. Inr ''include a'') ''/a'' [] = None"
  using Graph_returns [OF Load_ok [OF assms], of command depread targets] closure_returns Load_self by blast

theorem nj_total_witness: "\<exists>r. Graph (\<lambda>_. 0) (\<lambda>_. None) nj_abc [] = Some r"
  using nj_total [OF nj_abc_load] by blast

section \<open>Paths\<close>

text \<open>
  C35: \<open>Rel\<close> and \<open>Join\<close>. On clean names, joining the base with the relative name \<open>Rel\<close> found gives
  the target back; for two absolute names \<open>Rel\<close> finds one. Every name \<open>New\<close> returns is clean, and
  \<open>New\<close> of the parts of a clean name is the name.
\<close>

theorem path_rel_join:
  assumes "std_Clean (p_s p) = p_s p" and "std_Clean (p_s base) = p_s base"
  shows "(\<forall>q. Rel p base = Inr q \<longrightarrow> Path_Join base [p_s q] = p) \<and> (IsAbs p \<and> IsAbs base \<longrightarrow> (\<exists>q. Rel p base = Inr q)) \<and>
    Path_New (Parts p) = p \<and> (\<forall>parts. std_Clean (p_s (Path_New parts)) = p_s (Path_New parts))"
  using Rel_join [OF assms] Rel_succeeds [of p base] New_Parts [OF assms(1)] New_clean by blast

theorem path_rel_join_witness: "Path_Join \<lparr>p_s = ''/a/c''\<rparr> [''../b''] = \<lparr>p_s = ''/a/b''\<rparr>"
proof -
  have "std_Clean ''/a/b'' = ''/a/b''" "std_Clean ''/a/c'' = ''/a/c''" by code_simp+
  moreover have "Rel \<lparr>p_s = ''/a/b''\<rparr> \<lparr>p_s = ''/a/c''\<rparr> = Inr \<lparr>p_s = ''../b''\<rparr>" by code_simp
  ultimately show ?thesis using path_rel_join [of "\<lparr>p_s = ''/a/b''\<rparr>" "\<lparr>p_s = ''/a/c''\<rparr>"] by simp
qed

section \<open>Conda packages\<close>

text \<open>
  C36: the order of versions. Comparing versions is a total preorder with results -1, 0 and 1, in
  which two versions are equal exactly when their components are, position by position and filled up
  with zeros. For versions written as dotted decimal numbers below \<open>2\<^sup>6\<^sup>3\<close>, \<open>compareVersions\<close> parses them
  and compares the numbers at the first difference, a missing number being zero. A larger number
  wraps around: \<open>9223372036854775808\<close> comes before \<open>1\<close>.
\<close>

theorem conda_version_order:
  "(compare v w \<in> {-1, 0, 1} \<and> compare w v = - compare v w \<and> (compare v w \<le> 0 \<and> compare w x \<le> 0 \<longrightarrow> compare v x \<le> 0)) \<and>
   (version_equal v w \<longleftrightarrow> (\<forall>i j. atom_at (cv_parts v) i j = atom_at (cv_parts w) i j) \<and>
     (\<forall>i j. atom_at (cv_local v) i j = atom_at (cv_local w) i j)) \<and>
   (ns \<noteq> [] \<and> ms \<noteq> [] \<and> list_all (\<lambda>n. n < 2 ^ 63) (ns @ ms) \<longrightarrow>
     compareVersions (dotted ns) (dotted ms) = Inr (dotted_cmp ns ms)) \<and>
   compareVersions ''9223372036854775808'' ''1'' = Inr (-1)"
proof (intro conjI impI)
  show "compare v w \<in> {-1, 0, 1}" by (rule versions.range)
  show "compare w v = - compare v w" by (rule versions.anti)
  show "compare v w \<le> 0 \<and> compare w x \<le> 0 \<Longrightarrow> compare v x \<le> 0" using versions.le_trans by blast
  show "version_equal v w \<longleftrightarrow> (\<forall>i j. atom_at (cv_parts v) i j = atom_at (cv_parts w) i j) \<and>
     (\<forall>i j. atom_at (cv_local v) i j = atom_at (cv_local w) i j)"
    unfolding version_equal_def compare_def Let_def by (simp flip: compareParts_eq_iff)
  show "ns \<noteq> [] \<and> ms \<noteq> [] \<and> list_all (\<lambda>n. n < 2 ^ 63) (ns @ ms) \<Longrightarrow> compareVersions (dotted ns) (dotted ms) = Inr (dotted_cmp ns ms)"
    by (intro compareVersions_dotted) (auto simp: list_all_iff)
  show "compareVersions ''9223372036854775808'' ''1'' = Inr (-1)" by code_simp
qed

theorem conda_version_order_witness: "compareVersions (dotted [1, 10]) (dotted [1, 9, 3]) = Inr 1"
  using conda_version_order [of _ _ _ "[1, 10]" "[1, 9, 3]"] by (simp add: dotted_cmp_def num_cmp_def)

text \<open>
  C37: version specs, end to end. A spec of alternatives separated by bars, each of conditions
  separated by commas, a condition being an operator and a dotted version, is parsed and accepts
  a dotted version exactly when in some alternative every condition holds. Matching any spec
  against any version returns, whatever the spec is.
\<close>

theorem conda_spec:
  "(css \<noteq> [] \<and> [] \<notin> set css \<and> list_all (list_all cond_ok) css \<and> ns \<noteq> [] \<and> list_all (\<lambda>n. n < 2 ^ 63) ns \<longrightarrow>
     matchVersion re (spec_string css) (dotted ns) =
       Some (Inr (list_ex (list_all (\<lambda>c. op_holds (fst c) (snd c) ns)) css))) \<and>
   (\<exists>r. matchVersion re spec version = Some r)"
  using matchVersion_dnf [of css ns re] matchVersion_returns [of re spec version] by (auto simp: list_all_iff list_ex_iff)

theorem conda_spec_witness:
  "matchVersion (\<lambda>_. None) (spec_string [[(''>='', [1, 2]), (''<'', [2])], [(''~='', [3, 4, 2])]]) (dotted [3, 4, 9]) = Some (Inr True)"
  using conda_spec [of "[[(''>='', [1, 2]), (''<'', [2])], [(''~='', [3, 4, 2])]]" "[3, 4, 9]" "\<lambda>_. None"]
  by (simp add: cond_ok_def operators_def op_holds_def dotted_cmp_def num_cmp_def dotted_prefix_def nth_or_def upt_rec)

text \<open>
  C38: picking a record. A record that is picked is one of those offered and accepted by every
  constraint. If all the versions offered parse and a file name of a platform names one record, then no
  accepted record is better, and the pick is the same for every order of the records: the
  order in which a Go map gives them does not matter.
\<close>

theorem conda_pick:
  assumes "pickSatisfying re recs cs native variants = Some (Inr r)" and "cs \<noteq> []"
    and "\<forall>s \<in> set recs. parses (r_Version s)"
    and "\<forall>s \<in> set recs. \<forall>t \<in> set recs. r_Subdir s = r_Subdir t \<and> r_Filename s = r_Filename t \<longrightarrow> s = t"
  shows "r \<in> set recs \<and> (\<forall>c \<in> set cs. accepts re native c r) \<and>
    (\<forall>s \<in> set recs. (\<forall>c \<in> set cs. accepts re native c s) \<longrightarrow> \<not> betterRecord s r native variants) \<and>
    (\<forall>recs'. mset recs' = mset recs \<longrightarrow> pickSatisfying re recs' cs native variants = Some (Inr r))"
  using pickSatisfying_sound [OF assms(1)] pickSatisfying_best [OF assms(1,3)] pickSatisfying_perm [OF assms(1) _ assms(2-4)]
  by auto

definition pkg_of :: "string \<Rightarrow> pkg" where
  "pkg_of v = \<lparr>r_Name = ''a'', r_Version = v, r_Build = [], r_BuildNumber = 0, r_Depends = [], r_SHA256 = [], r_MD5 = [],
     r_Size = 0, r_Subdir = ''noarch'', r_Filename = v @ ''.conda'', r_URL = []\<rparr>"

definition any_version :: constraint where
  "any_version = \<lparr>c_version = [], c_build = []\<rparr>"

abbreviation pick_any :: "string list \<Rightarrow> (conda_error + pkg) option" where
  "pick_any vs \<equiv> pickSatisfying (\<lambda>_. None) (map pkg_of vs) [any_version] ''linux-64'' {}"

theorem conda_pick_witness: "pick_any [''1.10'', ''1.9''] = pick_any [''1.9'', ''1.10'']"
proof -
  have p: "pick_any [''1.9'', ''1.10''] = Some (Inr (pkg_of ''1.10''))" by code_simp
  have "parses ''1.9''" "parses ''1.10''" by code_simp+
  then have v: "\<forall>s \<in> set (map pkg_of [''1.9'', ''1.10'']). parses (r_Version s)" by (simp add: pkg_of_def)
  have u: "\<forall>s \<in> set (map pkg_of [''1.9'', ''1.10'']). \<forall>t \<in> set (map pkg_of [''1.9'', ''1.10'']).
      r_Subdir s = r_Subdir t \<and> r_Filename s = r_Filename t \<longrightarrow> s = t" by (simp add: pkg_of_def)
  have m: "mset (map pkg_of [''1.10'', ''1.9'']) = mset (map pkg_of [''1.9'', ''1.10''])" by (simp add: add_mset_commute)
  show ?thesis
    using conda_pick [OF p not_Cons_self2 v u, THEN conjunct2, THEN conjunct2, THEN conjunct2, rule_format, OF m]
    unfolding p .
qed

text \<open>
  Picks that depend on the order. With a version that does not parse among them the pick depends on the order: \<open>1.10\<close> is better than
  \<open>1.9\<close>, which is better than \<open>1.2-1_0\<close> as a string, which is better than \<open>1.10\<close> as a string.
\<close>

theorem conda_pick_order_matters:
  "map_option (map_sum id r_Version) (pick_any [''1.10'', ''1.9'', ''1.2-1_0'']) = Some (Inr ''1.2-1_0'') \<and>
   map_option (map_sum id r_Version) (pick_any [''1.2-1_0'', ''1.10'', ''1.9'']) = Some (Inr ''1.9'')"
  by (intro conjI; code_simp)

text \<open>
  C39: \<open>finalRecords\<close> returns, and what it returns are the records the requested package needs: one for each
  chosen package that is reached from it over dependencies, none twice. When no packages depend on
  each other in a cycle, each record comes after the records of its dependencies.
\<close>

theorem conda_final:
  assumes "finite (dom chosen)"
  shows "(\<exists>r. finalRecords url_parse chosen root = Some r) \<and>
    (\<forall>recs. finalRecords url_parse chosen root = Some (Inr recs) \<longrightarrow>
      (\<exists>ks. recs = map (\<lambda>k. snd (the (chosen k))) ks \<and> distinct ks \<and>
        set ks = {k \<in> dom chosen. (root, k) \<in> (requires url_parse chosen)\<^sup>*} \<and>
        (acyclic (requires url_parse chosen) \<longrightarrow>
          (\<forall>i < length ks. \<forall>y. (ks ! i, y) \<in> requires url_parse chosen \<longrightarrow> (\<exists>j < i. ks ! j = y)))))"
proof (intro conjI allI impI)
  show "\<exists>r. finalRecords url_parse chosen root = Some r" by (rule finalRecords_returns [OF assms])
  fix recs
  assume "finalRecords url_parse chosen root = Some (Inr recs)"
  then obtain ks where ks: "recs = map (\<lambda>k. snd (the (chosen k))) ks" "distinct ks"
      "set ks = {k \<in> dom chosen. (root, k) \<in> (requires url_parse chosen)\<^sup>*}" "postorder (requires url_parse chosen) ks"
    by (elim finalRecords_order [THEN exE] conjE)
  show "\<exists>ks. recs = map (\<lambda>k. snd (the (chosen k))) ks \<and> distinct ks \<and>
        set ks = {k \<in> dom chosen. (root, k) \<in> (requires url_parse chosen)\<^sup>*} \<and>
        (acyclic (requires url_parse chosen) \<longrightarrow>
          (\<forall>i < length ks. \<forall>y. (ks ! i, y) \<in> requires url_parse chosen \<longrightarrow> (\<exists>j < i. ks ! j = y)))"
    by (intro exI [of _ ks] conjI ks(1,2,3) impI allI) (rule postorder_acyclic [OF ks(4)])
qed

abbreviation pkg_dep :: "string \<Rightarrow> string list \<Rightarrow> pkg" where
  "pkg_dep n deps \<equiv> \<lparr>r_Name = n, r_Version = ''1'', r_Build = [], r_BuildNumber = 0, r_Depends = deps, r_SHA256 = [], r_MD5 = [],
     r_Size = 0, r_Subdir = ''noarch'', r_Filename = n, r_URL = []\<rparr>"

abbreviation chosen_ab :: "string \<rightharpoonup> string \<times> pkg" where
  "chosen_ab \<equiv> [CHR 0x00 # ''a'' \<mapsto> ([], pkg_dep ''a'' [''b >=1'']), CHR 0x00 # ''b'' \<mapsto> ([], pkg_dep ''b'' [])]"

theorem conda_final_witness:
  "\<exists>ks. [pkg_dep ''b'' [], pkg_dep ''a'' [''b >=1'']] = map (\<lambda>k. snd (the (chosen_ab k))) ks \<and> distinct ks"
proof -
  have run: "finalRecords (\<lambda>_. None) chosen_ab (CHR 0x00 # ''a'') = Some (Inr [pkg_dep ''b'' [], pkg_dep ''a'' [''b >=1'']])" by code_simp
  have fin: "finite (dom chosen_ab)" by simp
  obtain ks where "[pkg_dep ''b'' [], pkg_dep ''a'' [''b >=1'']] = map (\<lambda>k. snd (the (chosen_ab k))) ks" "distinct ks"
    using conda_final [OF fin, THEN conjunct2, rule_format, OF run] by (elim exE conjE)
  then show ?thesis by (intro exI conjI)
qed

text \<open>
  C40: the prefix in binary files. With a placeholder at least as long as the install prefix,
  \<open>binaryReplace\<close> never fails on its size check, and what it returns is the file in which every
  NUL-terminated string has its placeholders replaced and is padded with NULs to its old length.
\<close>

theorem conda_binary_replace:
  assumes "old \<noteq> []" and "length repl \<le> length old"
  shows "binaryReplace data old repl = Inr (rewrite_strings old repl data) \<and>
    length (rewrite_strings old repl data) = length data"
  using binaryReplace_ok [OF assms] binary_loop_length [OF assms] binary_loop_strings [OF assms(1)] by simp

theorem conda_binary_replace_witness:
  "binaryReplace (''x'' @ ''/opt/lib'' @ [nul] @ ''end'') ''/opt'' ''/u'' = Inr (''x'' @ ''/u/lib'' @ [nul, nul, nul] @ ''end'')"
proof -
  have "rewrite_strings ''/opt'' ''/u'' (''x'' @ ''/opt/lib'' @ [nul] @ ''end'') = ''x'' @ ''/u/lib'' @ [nul, nul, nul] @ ''end''"
    by code_simp
  then show ?thesis using conda_binary_replace [of "''/opt''" "''/u''"] by simp
qed

text \<open>
  Member names. A name that \<open>safeRel\<close> lets pass is empty (the archive root) or a clean relative
  name with no \<open>..\<close> component.
\<close>

theorem conda_member_names:
  assumes "safeRel raw = Inr name" and "name \<noteq> []"
  shows "\<not> std_IsAbs name \<and> std_Clean name = name \<and> ''..'' \<notin> set (split_on slash name)"
  using safeRel_inside [OF assms] by blast

theorem conda_member_names_witness: "''..'' \<notin> set (split_on slash ''lib/b'')"
proof -
  have "safeRel ''./lib/a/../b'' = Inr ''lib/b''" by code_simp
  then show ?thesis using conda_member_names [of "''./lib/a/../b''" "''lib/b''"] by simp
qed

end
